(* ===== verification/Restream_Prelude.thy ===== *)
theory Restream_Prelude
  imports Main "HOL-Library.Word" "HOL-Library.Monad_Syntax"
begin

text \<open>
  The vocabulary every component of the development shares.

  \<^item> Type abbreviations for the machine types the code uses. A byte is an 8-bit word.
    A \<open>usize\<close> length, index or sequence is a natural number; where the source saturates,
    checks or compares against \<open>usize::MAX\<close> the bound is written out.
  \<^item> The slice operations of Rust's standard library that the parsers are built from
    (\<open>split_at_checked\<close>, \<open>split_first_chunk\<close>, \<open>get(a..b)\<close>), the checked and saturating
    integer operations, and big-endian conversions.
  \<^item> The collections \<open>slice_simps\<close>, \<open>be_simps\<close> and \<open>checked_simps\<close> that the component
    theories hand to the simplifier.
  \<^item> Two interfaces as locales: \<open>prefix_framing\<close> (an item encoder whose output a decoder
    takes off the front of any input) and \<open>inductive_invariant\<close> (a step relation with a
    preserved invariant), with the lemmas their clients use.
\<close>

unbundle bit_operations_syntax

named_theorems slice_simps "slice operations with known bounds"
named_theorems be_simps "big-endian encoders and decoders"
named_theorems checked_simps "checked and saturating arithmetic"

subsection \<open>Machine types\<close>

type_synonym u8 = "8 word"
type_synonym u16 = "16 word"
type_synonym u32 = "32 word"
type_synonym u64 = "64 word"
type_synonym bytes = "8 word list"

definition usize_MAX :: nat where
  "usize_MAX = 2 ^ 64 - 1"

definition u32_MAX :: nat where
  "u32_MAX = 2 ^ 32 - 1"

definition u64_MAX :: nat where
  "u64_MAX = 2 ^ 64 - 1"

definition i64_MAX :: int where
  "i64_MAX = 2 ^ 63 - 1"

definition i64_MIN :: int where
  "i64_MIN = - (2 ^ 63)"

lemmas max_defs = usize_MAX_def u32_MAX_def u64_MAX_def i64_MAX_def i64_MIN_def

text \<open>Decimal formatting, as \<open>format!\<close> prints an unsigned integer.\<close>

fun show_nat :: "nat \<Rightarrow> string" where
  "show_nat n =
     (if n < 10 then [char_of (48 + n)] else show_nat (n div 10) @ [char_of (48 + n mod 10)])"

declare show_nat.simps [simp del]

subsection \<open>Checked and saturating arithmetic\<close>

text \<open>The value of a checked operation, \<open>None\<close> above the type's maximum.\<close>

definition checked_le :: "nat \<Rightarrow> nat \<Rightarrow> nat option" where
  "checked_le m n = (if n \<le> m then Some n else None)"

definition checked_sub :: "nat \<Rightarrow> nat \<Rightarrow> nat option" where
  "checked_sub a b = (if b \<le> a then Some (a - b) else None)"

definition saturating_add :: "nat \<Rightarrow> nat \<Rightarrow> nat \<Rightarrow> nat" where
  "saturating_add m a b = min m (a + b)"

definition saturating_mul :: "nat \<Rightarrow> nat \<Rightarrow> nat \<Rightarrow> nat" where
  "saturating_mul m a b = min m (a * b)"

definition saturating_add_i64 :: "int \<Rightarrow> int \<Rightarrow> int" where
  "saturating_add_i64 a b = max i64_MIN (min i64_MAX (a + b))"

text \<open>\<open>usize::saturating_sub\<close> is subtraction on the naturals, written \<open>-\<close> below.\<close>

definition div_ceil :: "nat \<Rightarrow> nat \<Rightarrow> nat" where
  "div_ceil a b = (a + b - 1) div b"

lemma checked_le_Some_iff [checked_simps]:
  "checked_le m n = Some v \<longleftrightarrow> n \<le> m \<and> v = n"
  by (auto simp: checked_le_def)

lemma checked_le_None_iff [checked_simps]: "checked_le m n = None \<longleftrightarrow> m < n"
  by (auto simp: checked_le_def)

lemma checked_sub_Some_iff [checked_simps]:
  "checked_sub a b = Some v \<longleftrightarrow> b \<le> a \<and> v = a - b"
  by (auto simp: checked_sub_def)

lemma saturating_add_le [simp]: "saturating_add m a b \<le> m"
  by (simp add: saturating_add_def)

lemma saturating_add_eq [checked_simps]: "a + b \<le> m \<Longrightarrow> saturating_add m a b = a + b"
  by (simp add: saturating_add_def)

lemma saturating_mul_le [simp]: "saturating_mul m a b \<le> m"
  by (simp add: saturating_mul_def)

subsection \<open>Slices\<close>

definition split_at_checked :: "nat \<Rightarrow> 'a list \<Rightarrow> ('a list \<times> 'a list) option" where
  "split_at_checked n xs = (if n \<le> length xs then Some (take n xs, drop n xs) else None)"

text \<open>\<open>split_first_chunk::<n>\<close> splits at a fixed length.\<close>

abbreviation split_first_chunk :: "nat \<Rightarrow> 'a list \<Rightarrow> ('a list \<times> 'a list) option" where
  "split_first_chunk \<equiv> split_at_checked"

definition slice_get :: "nat \<Rightarrow> nat \<Rightarrow> 'a list \<Rightarrow> 'a list option" where
  "slice_get a b xs = (if a \<le> b \<and> b \<le> length xs then Some (take (b - a) (drop a xs)) else None)"

definition slice_from :: "nat \<Rightarrow> 'a list \<Rightarrow> 'a list option" where
  "slice_from a xs = (if a \<le> length xs then Some (drop a xs) else None)"

definition list_get :: "'a list \<Rightarrow> nat \<Rightarrow> 'a option" where
  "list_get xs i = (if i < length xs then Some (xs ! i) else None)"

lemma split_at_checked_append [slice_simps, simp]:
  "split_at_checked (length xs) (xs @ ys) = Some (xs, ys)"
  by (simp add: split_at_checked_def)

lemma split_at_checked_Some_iff [slice_simps]:
  "split_at_checked n xs = Some (a, b) \<longleftrightarrow> xs = a @ b \<and> length a = n"
  by (auto simp: split_at_checked_def)

lemma split_at_checked_None_iff [slice_simps]:
  "split_at_checked n xs = None \<longleftrightarrow> length xs < n"
  by (auto simp: split_at_checked_def)

lemma split_at_checked_length:
  "split_at_checked n xs = Some (a, b) \<Longrightarrow> length a = n \<and> length b = length xs - n \<and> n \<le> length xs"
  by (auto simp: split_at_checked_def split: if_splits)

lemma slice_get_Some_iff [slice_simps]:
  "slice_get a b xs = Some ys \<longleftrightarrow> a \<le> b \<and> b \<le> length xs \<and> ys = take (b - a) (drop a xs)"
  by (auto simp: slice_get_def)

lemma list_get_Some_iff [slice_simps]: "list_get xs i = Some x \<longleftrightarrow> i < length xs \<and> xs ! i = x"
  by (auto simp: list_get_def)

subsection \<open>Big-endian integers\<close>

text \<open>
  The loop \<open>fold(0usize, |len, &byte| (len << 8) | usize::from(byte))\<close>, and the fixed-width
  conversions \<open>to_be_bytes\<close> after an \<open>as u16\<close> or \<open>as u32\<close> cast (which truncates).
\<close>

definition be_fold :: "bytes \<Rightarrow> nat" where
  "be_fold bs = foldl (\<lambda>len byte. push_bit 8 len OR unat byte) 0 bs"

definition to_be16 :: "nat \<Rightarrow> bytes" where
  "to_be16 n = [of_nat (n div 256), of_nat n]"

definition to_be32 :: "nat \<Rightarrow> bytes" where
  "to_be32 n = [of_nat (n div 2 ^ 24), of_nat (n div 2 ^ 16), of_nat (n div 256), of_nat n]"

lemma push_bit_or_byte: "push_bit 8 (n :: nat) OR unat (b :: u8) = n * 256 + unat b"
proof -
  have "unat b < 2 ^ 8"
    using unsigned_less [of b] by simp
  then have tb: "take_bit 8 (unat b) = unat b"
    by (simp add: take_bit_nat_eq_self_iff)
  have "push_bit 8 n OR unat b = push_bit 8 n + unat b"
  proof (rule disjunctive_add_eq_or [symmetric])
    show "push_bit 8 n AND unat b = 0"
      by (subst tb [symmetric]) (rule bit_eqI, auto simp: bit_simps)
  qed
  then show ?thesis
    by (simp add: push_bit_eq_mult)
qed

lemma be_fold_foldl: "be_fold bs = foldl (\<lambda>len byte. len * 256 + unat byte) 0 bs"
  by (simp add: be_fold_def push_bit_or_byte)

lemma be_fold_Nil [be_simps, simp]: "be_fold [] = 0"
  by (simp add: be_fold_def)

lemma be_fold_snoc [be_simps]: "be_fold (bs @ [b]) = be_fold bs * 256 + unat b"
  by (simp add: be_fold_foldl)

lemma be_fold_bound: "be_fold bs < 256 ^ length bs"
proof (induction bs rule: rev_induct)
  case Nil
  then show ?case by simp
next
  case (snoc b bs)
  have "unat b < 256"
    using unsigned_less [of b] by simp
  moreover have "Suc (be_fold bs) * 256 \<le> 256 ^ length bs * 256"
    using snoc by (intro mult_right_mono) auto
  ultimately show ?case
    by (simp add: be_fold_snoc)
qed

lemma unat_of_nat_u8 [be_simps, simp]: "unat (of_nat n :: u8) = n mod 256"
  by (simp add: unat_of_nat)

lemma length_to_be16 [simp]: "length (to_be16 n) = 2"
  by (simp add: to_be16_def)

lemma length_to_be32 [simp]: "length (to_be32 n) = 4"
  by (simp add: to_be32_def)

lemma be_fold_to_be16 [be_simps]: "n < 2 ^ 16 \<Longrightarrow> be_fold (to_be16 n) = n"
  by (simp add: be_fold_foldl to_be16_def)

lemma be_digits32:
  assumes "(n :: nat) < 4294967296"
  shows "((n div 16777216 mod 256 * 256 + n div 65536 mod 256) * 256 + n div 256 mod 256) * 256
    + n mod 256 = n"
proof -
  from assms have "n div 16777216 mod 256 = n div 256 div 256 div 256"
    by (simp add: div_mult2_eq [symmetric])
  then show ?thesis
    by (simp add: div_mult2_eq [of n 256 256, simplified] div_mult2_eq [of n 65536 256, simplified])
qed

lemma be_fold_to_be32 [be_simps]: "n < 2 ^ 32 \<Longrightarrow> be_fold (to_be32 n) = n"
  using be_digits32 [of n] by (simp add: be_fold_foldl to_be32_def)

text \<open>The big-endian representation in any number of bytes.\<close>

fun be_bytes :: "nat \<Rightarrow> nat \<Rightarrow> bytes" where
  "be_bytes 0 v = []"
| "be_bytes (Suc n) v = be_bytes n (v div 256) @ [of_nat v]"

lemma length_be_bytes [simp]: "length (be_bytes n v) = n"
  by (induction n arbitrary: v) simp_all

lemma be_fold_be_bytes [be_simps]: "v < 256 ^ n \<Longrightarrow> be_fold (be_bytes n v) = v"
  by (induction n arbitrary: v) (auto simp: be_fold_snoc less_mult_imp_div_less)

lemma be_bytes_be_fold [be_simps]: "be_bytes (length bs) (be_fold bs) = bs"
proof (induction bs rule: rev_induct)
  case (snoc b bs)
  have "unat b < 256" using unsigned_less [of b] by simp
  moreover have "(256 :: u8) = 0" by simp
  then have "of_nat (be_fold bs * 256 + unat b) = b" by (simp del: word_eq_numeral_iff_iszero)
  ultimately show ?case using snoc by (simp add: be_fold_snoc)
qed simp

lemma to_be16_be_bytes: "to_be16 n = be_bytes 2 n"
  by (simp add: to_be16_def numeral_2_eq_2)

lemma to_be32_be_bytes: "to_be32 n = be_bytes 4 n"
proof -
  have "be_bytes 4 n = be_bytes (Suc (Suc (Suc (Suc 0)))) n" by (simp only: numeral_nat)
  then show ?thesis by (simp add: to_be32_def div_mult2_eq [symmetric])
qed

subsection \<open>Repeated decoding\<close>

text \<open>
  The loop \<open>for _ in 0..n { items.push(get(&mut rest)?) }\<close>: \<open>n\<close> items off the front of the
  input, or \<open>None\<close> as soon as one cannot be taken.
\<close>

fun take_n :: "('s \<Rightarrow> ('a \<times> 's) option) \<Rightarrow> nat \<Rightarrow> 's \<Rightarrow> ('a list \<times> 's) option" where
  "take_n get 0 s = Some ([], s)"
| "take_n get (Suc n) s = do {
     (x, s) \<leftarrow> get s;
     (xs, s) \<leftarrow> take_n get n s;
     Some (x # xs, s)
   }"

lemma take_n_length: "take_n get n s = Some (xs, s') \<Longrightarrow> length xs = n"
  by (induction n arbitrary: s xs) (auto simp: bind_eq_Some_conv)

text \<open>
  An item encoder \<open>put\<close> and a decoder \<open>get\<close> that takes one item off the front of any input:
  what every length-prefixed format of the code promises to the loops that walk it.
\<close>

locale prefix_framing =
  fixes put :: "'a \<Rightarrow> bytes"
    and get :: "bytes \<Rightarrow> ('a \<times> bytes) option"
    and ok :: "'a \<Rightarrow> bool"
  assumes get_put: "ok a \<Longrightarrow> get (put a @ rest) = Some (a, rest)"
    and get_sound: "get bs = Some (a, rest) \<Longrightarrow> ok a \<and> bs = put a @ rest"
    and put_nonempty: "put a \<noteq> []"
begin

lemma take_n_put:
  "list_all ok xs \<Longrightarrow> take_n get (length xs) (concat (map put xs) @ rest) = Some (xs, rest)"
  by (induction xs) (simp_all add: get_put)

lemma take_n_sound:
  "take_n get n bs = Some (xs, rest) \<Longrightarrow> list_all ok xs \<and> bs = concat (map put xs) @ rest"
proof (induction n arbitrary: bs xs)
  case 0
  then show ?case by simp
next
  case (Suc n)
  then obtain x bs' xs' where x: "get bs = Some (x, bs')"
    and xs': "take_n get n bs' = Some (xs', rest)" and xs: "xs = x # xs'"
    by (auto simp: bind_eq_Some_conv)
  from get_sound [OF x] Suc.IH [OF xs'] xs show ?case by simp
qed

lemma get_shorter: "get bs = Some (a, rest) \<Longrightarrow> length rest < length bs"
  using get_sound [of bs a rest] put_nonempty [of a] by auto

lemma put_inj:
  assumes eq: "put a @ as = put b @ bs" and a: "ok a" and b: "ok b"
  shows "a = b \<and> as = bs"
proof -
  from get_put [OF a, of as] get_put [OF b, of bs] have "Some (a, as) = Some (b, bs)"
    unfolding eq by (rule trans [OF sym])
  then show ?thesis by simp
qed

lemma concat_put_inj:
  assumes "concat (map put xs) = concat (map put ys)" and "list_all ok xs" and "list_all ok ys"
  shows "xs = ys"
  using assms
proof (induction xs arbitrary: ys)
  case Nil
  then show ?case
    using put_nonempty by (cases ys) auto
next
  case (Cons x xs)
  then obtain y ys' where ys: "ys = y # ys'"
    using put_nonempty by (cases ys) auto
  with Cons.prems have "x = y \<and> concat (map put xs) = concat (map put ys')"
    by (intro put_inj) auto
  with Cons.IH [of ys'] Cons.prems ys show ?case by simp
qed

end

text \<open>
  A loop that decodes until the input is empty and refuses anything else, over such a framing.
\<close>

locale framing_loop = prefix_framing +
  fixes decode_all :: "bytes \<Rightarrow> 'a list option"
  assumes decode_all_Nil: "decode_all [] = Some []"
    and decode_all_step: "bs \<noteq> [] \<Longrightarrow> decode_all bs =
      (case get bs of None \<Rightarrow> None | Some (a, rest) \<Rightarrow> map_option (Cons a) (decode_all rest))"
begin

lemma decode_all_put: "list_all ok xs \<Longrightarrow> decode_all (concat (map put xs)) = Some xs"
  by (induction xs) (simp_all add: decode_all_Nil decode_all_step put_nonempty get_put)

lemma decode_all_sound:
  "decode_all bs = Some xs \<Longrightarrow> list_all ok xs \<and> bs = concat (map put xs)"
proof (induction "length bs" arbitrary: bs xs rule: less_induct)
  case less
  show ?case
  proof (cases "bs = []")
    case True
    with less.prems show ?thesis by (simp add: decode_all_Nil)
  next
    case False
    with less.prems obtain a rest ys where a: "get bs = Some (a, rest)"
      and ys: "decode_all rest = Some ys" and xs: "xs = a # ys"
      by (auto simp: decode_all_step split: option.splits)
    from less.hyps [OF get_shorter [OF a] ys] get_sound [OF a] xs show ?thesis by simp
  qed
qed

lemma decode_all_iff:
  "decode_all bs = Some xs \<longleftrightarrow> list_all ok xs \<and> bs = concat (map put xs)"
  using decode_all_put decode_all_sound by blast

end

subsection \<open>State machines with an invariant\<close>

inductive reachable :: "('s \<Rightarrow> bool) \<Rightarrow> ('s \<Rightarrow> 's \<Rightarrow> bool) \<Rightarrow> 's \<Rightarrow> bool"
  for init :: "'s \<Rightarrow> bool" and step :: "'s \<Rightarrow> 's \<Rightarrow> bool" where
  reachable_init: "init s \<Longrightarrow> reachable init step s"
| reachable_step: "reachable init step s \<Longrightarrow> step s t \<Longrightarrow> reachable init step t"

locale inductive_invariant =
  fixes init :: "'s \<Rightarrow> bool"
    and step :: "'s \<Rightarrow> 's \<Rightarrow> bool"
    and inv :: "'s \<Rightarrow> bool"
  assumes inv_init: "init s \<Longrightarrow> inv s"
    and inv_step: "inv s \<Longrightarrow> step s t \<Longrightarrow> inv t"
begin

lemma reachable_inv: "reachable init step s \<Longrightarrow> inv s"
  by (induction rule: reachable.induct) (auto intro: inv_init inv_step)

lemma steps_inv: "step\<^sup>*\<^sup>* s t \<Longrightarrow> inv s \<Longrightarrow> inv t"
  by (induction rule: rtranclp_induct) (auto intro: inv_step)

end

end
