(* ===== verification/Media_Packet.thy ===== *)
theory Media_Packet
  imports Restream_Prelude
begin

text \<open>
  The media vocabulary of \<open>crates/restream-core/src/lib.rs\<close> and the codec descriptor of
  \<open>codec.rs\<close>: packets, the frame-unit word the ring stores beside each packet, and track
  configurations. A frame unit is one 64-bit word: a presence bit, the low 31 bits of the
  sequence that wrote it, and the 32-bit configuration generation. The lemmas give the exact
  set of sequences a stored word answers for.
\<close>

unbundle bit_operations_syntax

subsection \<open>Packets\<close>

datatype media_type = Video | Audio

datatype payload_format = Flv | Raw

record media_packet =
  media_type :: media_type
  format :: payload_format
  is_keyframe :: bool
  track_index :: nat
  pts :: int
  dts :: int
  payload :: bytes

definition is_video_keyframe :: "media_packet \<Rightarrow> bool" where
  "is_video_keyframe p \<longleftrightarrow> media_type p = Video \<and> is_keyframe p"

definition is_video_interframe :: "media_packet \<Rightarrow> bool" where
  "is_video_interframe p =
     (if media_type p \<noteq> Video \<or> is_keyframe p then False
      else case format p of
        Flv \<Rightarrow> (case payload p of
            [] \<Rightarrow> False
          | tag # _ \<Rightarrow> drop_bit 4 tag AND 0x07 \<in> {2, 3})
      | Raw \<Rightarrow> True)"

lemma keyframe_not_interframe: "is_video_keyframe p \<Longrightarrow> \<not> is_video_interframe p"
  by (simp add: is_video_keyframe_def is_video_interframe_def)

lemma audio_not_interframe: "media_type p = Audio \<Longrightarrow> \<not> is_video_interframe p"
  by (simp add: is_video_interframe_def)

subsection \<open>Codec descriptor\<close>

datatype video_codec_kind = H264 | Hevc | Unknown_Codec

text \<open>\<open>eq_ignore_ascii_case\<close>: equality after mapping the ASCII capitals to lower case.\<close>

definition to_ascii_lower :: "char \<Rightarrow> char" where
  "to_ascii_lower c =
     (if 65 \<le> (of_char c :: nat) \<and> (of_char c :: nat) \<le> 90 then char_of ((of_char c :: nat) + 32)
      else c)"

definition eq_ignore_ascii_case :: "string \<Rightarrow> string \<Rightarrow> bool" where
  "eq_ignore_ascii_case s t \<longleftrightarrow> map to_ascii_lower s = map to_ascii_lower t"

definition from_codec_name :: "string \<Rightarrow> video_codec_kind" where
  "from_codec_name codec =
     (if eq_ignore_ascii_case codec ''h264'' \<or> eq_ignore_ascii_case codec ''avc'' then H264
      else if eq_ignore_ascii_case codec ''h265'' \<or> eq_ignore_ascii_case codec ''hevc'' then Hevc
      else Unknown_Codec)"

definition as_stage_codec :: "video_codec_kind \<Rightarrow> string option" where
  "as_stage_codec k = (case k of H264 \<Rightarrow> Some ''h264'' | Hevc \<Rightarrow> Some ''hevc'' | Unknown_Codec \<Rightarrow> None)"

lemma from_codec_name_as_stage_codec:
  "as_stage_codec k = Some name \<Longrightarrow> from_codec_name name = k"
  by (cases k) (auto simp: as_stage_codec_def from_codec_name_def eq_ignore_ascii_case_def
      to_ascii_lower_def)

subsection \<open>Frame units\<close>

definition CONFIG_TRACKS_PER_TYPE :: nat where
  "CONFIG_TRACKS_PER_TYPE = 4"

definition CONFIG_HISTORY :: nat where
  "CONFIG_HISTORY = 4"

definition PRESENT :: u64 where
  "PRESENT = push_bit 63 1"

definition TAG_MASK :: u64 where
  "TAG_MASK = push_bit 31 1 - 1"

definition unit_tag :: "nat \<Rightarrow> u64" where
  "unit_tag sequence = of_nat sequence AND TAG_MASK"

record frame_unit =
  config_generation :: u32

definition pack :: "frame_unit \<Rightarrow> nat \<Rightarrow> u64" where
  "pack u sequence = PRESENT OR push_bit 32 (unit_tag sequence) OR ucast (config_generation u)"

definition unpack :: "u64 \<Rightarrow> nat \<Rightarrow> frame_unit option" where
  "unpack raw sequence =
     (if raw AND PRESENT \<noteq> 0 \<and> drop_bit 32 raw AND TAG_MASK = unit_tag sequence
      then Some \<lparr>config_generation = ucast raw\<rparr> else None)"

record track_config =
  generation :: u32
  config_bytes :: bytes

lemma TAG_MASK_mask: "TAG_MASK = mask 31"
  by (simp add: TAG_MASK_def mask_eq_exp_minus_1)

lemma unit_tag_take_bit: "unit_tag sequence = take_bit 31 (of_nat sequence)"
  by (simp add: unit_tag_def TAG_MASK_mask take_bit_eq_mask)

lemma unat_unit_tag: "unat (unit_tag s) = s mod 2 ^ 31"
proof -
  have "unat (unit_tag s) = take_bit 31 (take_bit 64 s)"
    by (simp only: unit_tag_take_bit unsigned_take_bit_eq unsigned_of_nat) simp
  also have "\<dots> = s mod 2 ^ 31"
    by (simp only: take_bit_take_bit) (simp add: take_bit_eq_mod)
  finally show ?thesis .
qed

lemma unit_tag_eq_iff: "unit_tag s = unit_tag t \<longleftrightarrow> s mod 2 ^ 31 = t mod 2 ^ 31"
  by (simp only: word_unat_eq_iff unat_unit_tag)

lemma bit_PRESENT: "bit PRESENT n \<longleftrightarrow> n = 63"
proof -
  have "bit PRESENT n \<longleftrightarrow> 63 \<le> n \<and> n < 64 \<and> n - 63 = 0"
    unfolding PRESENT_def bit_push_bit_iff bit_1_iff by auto
  then show ?thesis by auto
qed

lemma bit_pack:
  "bit (pack u s) n \<longleftrightarrow> n = 63 \<or> 32 \<le> n \<and> n < 63 \<and> bit (of_nat s :: u64) (n - 32)
     \<or> bit (config_generation u) n"
  by (auto simp: pack_def bit_PRESENT unit_tag_take_bit bit_simps dest: bit_imp_le_length)

lemma pack_present: "pack u s AND PRESENT \<noteq> 0"
proof
  assume "pack u s AND PRESENT = 0"
  then have "\<not> bit (pack u s AND PRESENT) 63" by simp
  then show False by (simp add: bit_and_iff bit_pack bit_PRESENT)
qed

lemma pack_tag: "drop_bit 32 (pack u s) AND TAG_MASK = unit_tag s"
  by (rule bit_eqI)
    (auto simp: TAG_MASK_mask unit_tag_take_bit bit_and_iff bit_drop_bit_eq bit_pack bit_mask_iff
      bit_take_bit_iff dest: bit_imp_le_length)

lemma pack_generation: "ucast (pack u s) = config_generation u"
  by (rule bit_eqI) (auto simp: bit_pack bit_ucast_iff dest: bit_imp_le_length)

text \<open>A stored word answers exactly the sequences congruent to its own modulo \<open>2 ^ 31\<close>.\<close>

lemma unpack_pack:
  "unpack (pack u s) t = (if s mod 2 ^ 31 = t mod 2 ^ 31 then Some u else None)"
  by (auto simp: unpack_def pack_present pack_tag pack_generation unit_tag_eq_iff)

lemma unpack_pack_self [simp]: "unpack (pack u s) s = Some u"
  by (simp add: unpack_pack)

lemma unpack_zero [simp]: "unpack 0 s = None"
  by (simp add: unpack_def)

lemma mod_eq_lt_imp_eq:
  assumes "(s :: nat) mod m = t mod m" and "s \<le> t" and "t < s + m"
  shows "s = t"
proof -
  from assms(1,2) have "m dvd t - s"
    by (metis mod_eq_dvd_iff_nat)
  with assms(2,3) show ?thesis
    by (auto dest: dvd_imp_le)
qed

lemma unpack_pack_other:
  assumes "s \<noteq> t" and "t < s + 2 ^ 31" and "s < t + 2 ^ 31"
  shows "unpack (pack u s) t = None"
proof -
  have "s mod 2 ^ 31 \<noteq> t mod 2 ^ 31"
    using assms mod_eq_lt_imp_eq [of s "2 ^ 31" t] mod_eq_lt_imp_eq [of t "2 ^ 31" s]
    by (cases "s \<le> t") auto
  then show ?thesis by (simp add: unpack_pack)
qed

text \<open>A packet for concrete runs.\<close>

definition sample_packet :: "media_type \<Rightarrow> bool \<Rightarrow> int \<Rightarrow> media_packet" where
  "sample_packet mt key t =
     \<lparr>media_type = mt, format = Raw, is_keyframe = key, track_index = 0, pts = t, dts = t,
      payload = [0, 0, 0, 1, 65]\<rparr>"

end
