(* ===== verification/Track_Configs.thy ===== *)
theory Track_Configs
  imports Media_Packet
begin

text \<open>
  The per-track codec configurations of one ring: \<open>TrackConfigs\<close> of
  \<open>crates/restream-sync/src/frame_units.rs\<close>. A table has four tracks per media type; each
  track keeps a generation counter, its current configuration and the last four
  configurations by generation. The lemmas show that a configuration keeps resolving, with
  its own bytes, through any three later changes of its track, across the wrap-around of the
  32-bit generation.
\<close>

unbundle bit_operations_syntax

subsection \<open>State\<close>

record track_config_slot =
  slot_generation :: u32
  slot_current :: "track_config option"
  slot_history :: "track_config option list"

type_synonym track_configs = "track_config_slot list"

definition TrackConfigSlot_new :: track_config_slot where
  "TrackConfigSlot_new =
     \<lparr>slot_generation = 0, slot_current = None, slot_history = replicate CONFIG_HISTORY None\<rparr>"

definition TrackConfigs_new :: track_configs where
  "TrackConfigs_new = replicate (2 * CONFIG_TRACKS_PER_TYPE) TrackConfigSlot_new"

definition history_slot :: "u32 \<Rightarrow> nat" where
  "history_slot g = unat g mod CONFIG_HISTORY"

definition media_type_index :: "media_type \<Rightarrow> nat" where
  "media_type_index mt = (case mt of Video \<Rightarrow> 0 | Audio \<Rightarrow> 1)"

text \<open>The table index of a track, \<open>None\<close> outside the table.\<close>

definition config_slot :: "media_type \<Rightarrow> nat \<Rightarrow> nat option" where
  "config_slot mt track =
     (if track < CONFIG_TRACKS_PER_TYPE
      then Some (media_type_index mt * CONFIG_TRACKS_PER_TYPE + track) else None)"

subsection \<open>Operations\<close>

definition config_generation_of :: "track_configs \<Rightarrow> media_type \<Rightarrow> nat \<Rightarrow> u32" where
  "config_generation_of tc mt track =
     (case config_slot mt track of None \<Rightarrow> 0 | Some i \<Rightarrow> slot_generation (tc ! i))"

definition slot_set :: "track_config_slot \<Rightarrow> bytes \<Rightarrow> u32 \<times> track_config_slot" where
  "slot_set slot bs =
     (let current = slot_generation slot in
      if (case slot_current slot of None \<Rightarrow> False | Some config \<Rightarrow> config_bytes config = bs)
      then (current, slot)
      else
        let next = current + 1;
            config = \<lparr>generation = next, config_bytes = bs\<rparr>
        in (next, slot\<lparr>slot_history := (slot_history slot)[history_slot next := Some config],
                       slot_current := Some config,
                       slot_generation := next\<rparr>))"

definition config_set :: "track_configs \<Rightarrow> media_type \<Rightarrow> nat \<Rightarrow> bytes \<Rightarrow> u32 \<times> track_configs" where
  "config_set tc mt track bs =
     (case config_slot mt track of
        None \<Rightarrow> (0, tc)
      | Some i \<Rightarrow> (let (g, slot) = slot_set (tc ! i) bs in (g, tc[i := slot])))"

definition slot_clear :: "track_config_slot \<Rightarrow> track_config_slot" where
  "slot_clear slot =
     (case slot_current slot of
        None \<Rightarrow> slot
      | Some _ \<Rightarrow> slot\<lparr>slot_current := None, slot_generation := slot_generation slot + 1\<rparr>)"

definition config_clear :: "track_configs \<Rightarrow> media_type \<Rightarrow> nat \<Rightarrow> track_configs" where
  "config_clear tc mt track =
     (case config_slot mt track of
        None \<Rightarrow> tc
      | Some i \<Rightarrow> tc[i := slot_clear (tc ! i)])"

definition slot_get :: "track_config_slot \<Rightarrow> u32 \<Rightarrow> track_config option" where
  "slot_get slot g =
     (if g = 0 then None
      else case slot_history slot ! history_slot g of
        None \<Rightarrow> None
      | Some config \<Rightarrow> if generation config = g then Some config else None)"

definition config_get :: "track_configs \<Rightarrow> media_type \<Rightarrow> nat \<Rightarrow> u32 \<Rightarrow> track_config option" where
  "config_get tc mt track g =
     (case config_slot mt track of None \<Rightarrow> None | Some i \<Rightarrow> slot_get (tc ! i) g)"

definition config_current :: "track_configs \<Rightarrow> media_type \<Rightarrow> nat \<Rightarrow> track_config option" where
  "config_current tc mt track =
     (case config_slot mt track of None \<Rightarrow> None | Some i \<Rightarrow> slot_current (tc ! i))"

text \<open>\<open>copy_from\<close> overwrites every field of every slot with the previous ring's.\<close>

definition config_copy_from :: "track_configs \<Rightarrow> track_configs \<Rightarrow> track_configs" where
  "config_copy_from tc previous =
     map (\<lambda>(slot, old).
       slot\<lparr>slot_history := map snd (zip (slot_history slot) (slot_history old)),
            slot_current := slot_current old,
            slot_generation := slot_generation old\<rparr>) (zip tc previous)"

subsection \<open>Well-formedness\<close>

definition slot_wf :: "track_config_slot \<Rightarrow> bool" where
  "slot_wf slot \<longleftrightarrow>
     length (slot_history slot) = CONFIG_HISTORY \<and>
     (\<forall>config. slot_current slot = Some config \<longrightarrow>
        generation config = slot_generation slot \<and>
        slot_history slot ! history_slot (generation config) = Some config)"

definition configs_wf :: "track_configs \<Rightarrow> bool" where
  "configs_wf tc \<longleftrightarrow> length tc = 2 * CONFIG_TRACKS_PER_TYPE \<and> list_all slot_wf tc"

lemma history_slot_bound [simp]: "history_slot g < CONFIG_HISTORY"
  by (simp add: history_slot_def CONFIG_HISTORY_def)

lemma config_slot_bound:
  "config_slot mt track = Some i \<Longrightarrow> i < 2 * CONFIG_TRACKS_PER_TYPE"
  by (auto simp: config_slot_def media_type_index_def CONFIG_TRACKS_PER_TYPE_def
      split: if_splits media_type.splits)

lemma config_slot_inj:
  "config_slot mt track = Some i \<Longrightarrow> config_slot mt' track' = Some i \<Longrightarrow> mt = mt' \<and> track = track'"
  by (cases mt; cases mt')
    (auto simp: config_slot_def media_type_index_def CONFIG_TRACKS_PER_TYPE_def split: if_splits)

lemma slot_wf_new: "slot_wf TrackConfigSlot_new"
  by (simp add: slot_wf_def TrackConfigSlot_new_def)

lemma configs_wf_new: "configs_wf TrackConfigs_new"
  by (simp add: configs_wf_def TrackConfigs_new_def slot_wf_new list_all_iff)

lemma slot_wf_set: "slot_set slot bs = (g, slot') \<Longrightarrow> slot_wf slot \<Longrightarrow> slot_wf slot'"
  by (auto simp: slot_set_def slot_wf_def Let_def split: option.splits if_splits)

lemma slot_wf_clear: "slot_wf slot \<Longrightarrow> slot_wf (slot_clear slot)"
  by (auto simp: slot_clear_def slot_wf_def split: option.splits)

lemma configs_wf_slot:
  "configs_wf tc \<Longrightarrow> config_slot mt track = Some i \<Longrightarrow> slot_wf (tc ! i) \<and> i < length tc"
  by (auto simp: configs_wf_def list_all_length dest: config_slot_bound)

lemma configs_wf_update: "configs_wf tc \<Longrightarrow> slot_wf slot \<Longrightarrow> configs_wf (tc[i := slot])"
  by (auto simp: configs_wf_def list_all_iff dest!: set_update_subset_insert [THEN subsetD])

lemma configs_wf_set: "configs_wf tc \<Longrightarrow> configs_wf (snd (config_set tc mt track bs))"
  by (auto simp: config_set_def split: option.splits prod.splits
      intro!: configs_wf_update dest: configs_wf_slot intro: slot_wf_set)

lemma configs_wf_clear: "configs_wf tc \<Longrightarrow> configs_wf (config_clear tc mt track)"
  by (auto simp: config_clear_def split: option.splits
      intro!: configs_wf_update slot_wf_clear dest: configs_wf_slot)

lemma config_copy_from_eq: "configs_wf tc \<Longrightarrow> configs_wf previous \<Longrightarrow> config_copy_from tc previous = previous"
  by (auto simp: config_copy_from_def configs_wf_def list_all_length slot_wf_def
      intro!: nth_equalityI)

subsection \<open>Behaviour of one slot\<close>

lemma slot_set_result:
  assumes "slot_set slot bs = (g, slot')" and "slot_wf slot"
  shows "slot_current slot' = Some \<lparr>generation = g, config_bytes = bs\<rparr>"
    and "slot_generation slot' = g"
    and "g \<noteq> 0 \<Longrightarrow> slot_get slot' g = Some \<lparr>generation = g, config_bytes = bs\<rparr>"
    and "g = slot_generation slot \<longleftrightarrow>
           (\<exists>config. slot_current slot = Some config \<and> config_bytes config = bs)"
  using assms
  by (auto simp: slot_set_def slot_wf_def slot_get_def Let_def split: option.splits if_splits)

text \<open>
  How far a slot's generation has moved past \<open>g\<close>, and that \<open>g\<close> still resolves. Each change
  moves the generation by at most one and writes only the history entry of the generation it
  creates, so an entry is overwritten no sooner than the fourth change after it.
\<close>

lemma slot_get_Some_iff:
  "slot_get slot g = Some config \<longleftrightarrow>
     g \<noteq> 0 \<and> slot_history slot ! history_slot g = Some config \<and> generation config = g"
  by (auto simp: slot_get_def split: option.splits)

definition slot_retains :: "nat \<Rightarrow> u32 \<Rightarrow> track_config \<Rightarrow> track_config_slot \<Rightarrow> bool" where
  "slot_retains d g config slot \<longleftrightarrow>
     slot_get slot g = Some config \<and>
     (\<exists>k \<le> d. slot_generation slot = g + of_nat k)"

lemma slot_retainsI:
  "slot_get slot g = Some config \<Longrightarrow> slot_generation slot = g + of_nat k \<Longrightarrow> k \<le> d
     \<Longrightarrow> slot_retains d g config slot"
  unfolding slot_retains_def by blast

lemma unat_add_mod4: "unat (g + of_nat k :: u32) mod 4 = (unat g + k) mod 4"
proof -
  have "unat (g + of_nat k :: u32) = (unat g + k) mod 2 ^ 32"
    by (simp only: unat_word_ariths unat_of_nat mod_add_right_eq) simp
  moreover have "(4 :: nat) dvd 2 ^ 32"
    by (simp add: power2_eq_square)
  ultimately show ?thesis by (simp only: mod_mod_cancel)
qed

lemma history_slot_next_neq:
  assumes "k < 3"
  shows "history_slot (g + of_nat k + 1) \<noteq> history_slot g"
proof -
  have "history_slot (g + of_nat k + 1) = (unat g + Suc k) mod 4"
    using unat_add_mod4 [of g "Suc k"] by (simp add: history_slot_def CONFIG_HISTORY_def ac_simps)
  moreover have "(unat g + Suc k) mod 4 \<noteq> unat g mod 4"
    using assms by presburger
  ultimately show ?thesis
    by (simp add: history_slot_def CONFIG_HISTORY_def)
qed

lemma slot_retains_set:
  assumes "slot_retains d g config slot" and "d < 3" and "slot_set slot bs = (g', slot')"
  shows "slot_retains (Suc d) g config slot'"
proof -
  from assms(1) obtain k where k: "k \<le> d" "slot_generation slot = g + of_nat k"
    and get: "slot_get slot g = Some config"
    by (auto simp: slot_retains_def)
  have neq: "history_slot (slot_generation slot + 1) \<noteq> history_slot g"
    using history_slot_next_neq [of k g] k assms(2) by simp
  from get neq have "slot_get slot' g = Some config"
    using assms(3)
    by (auto simp: slot_set_def slot_get_Some_iff Let_def split: option.splits if_splits)
  moreover have "slot_generation slot' = g + of_nat k \<or> slot_generation slot' = g + of_nat (Suc k)"
    using assms(3) k(2)
    by (auto simp: slot_set_def Let_def ac_simps split: option.splits if_splits)
  ultimately show ?thesis
    using k(1) by (auto simp del: of_nat_Suc intro: slot_retainsI)
qed

lemma slot_retains_clear:
  assumes "slot_retains d g config slot"
  shows "slot_retains (Suc d) g config (slot_clear slot)"
proof -
  from assms obtain k where k: "k \<le> d" "slot_generation slot = g + of_nat k"
    and get: "slot_get slot g = Some config"
    by (auto simp: slot_retains_def)
  have "slot_get (slot_clear slot) g = Some config"
    using get by (auto simp: slot_clear_def slot_get_Some_iff split: option.splits)
  moreover have "slot_generation (slot_clear slot) = g + of_nat k
      \<or> slot_generation (slot_clear slot) = g + of_nat (Suc k)"
    using k(2) by (auto simp: slot_clear_def ac_simps split: option.splits)
  ultimately show ?thesis
    using k(1) by (auto simp del: of_nat_Suc intro: slot_retainsI)
qed

subsection \<open>Sequences of changes\<close>

text \<open>The producer's changes of a table: set and clear, on any track.\<close>

datatype config_op = Config_Set media_type nat bytes | Config_Clear media_type nat

fun apply_config_op :: "config_op \<Rightarrow> track_configs \<Rightarrow> track_configs" where
  "apply_config_op (Config_Set mt track bs) tc = snd (config_set tc mt track bs)"
| "apply_config_op (Config_Clear mt track) tc = config_clear tc mt track"

fun config_op_on :: "media_type \<Rightarrow> nat \<Rightarrow> config_op \<Rightarrow> bool" where
  "config_op_on mt track (Config_Set mt' track' _) \<longleftrightarrow> mt' = mt \<and> track' = track"
| "config_op_on mt track (Config_Clear mt' track') \<longleftrightarrow> mt' = mt \<and> track' = track"

abbreviation run_config_ops :: "config_op list \<Rightarrow> track_configs \<Rightarrow> track_configs" where
  "run_config_ops ops tc \<equiv> fold apply_config_op ops tc"

lemma configs_wf_apply: "configs_wf tc \<Longrightarrow> configs_wf (apply_config_op op tc)"
  by (cases op) (simp_all add: configs_wf_set configs_wf_clear)

lemma configs_wf_run: "configs_wf tc \<Longrightarrow> configs_wf (run_config_ops ops tc)"
  by (induction ops arbitrary: tc) (simp_all add: configs_wf_apply)

lemma apply_config_op_other:
  assumes "config_slot mt track = Some i" and "\<not> config_op_on mt track op"
  shows "apply_config_op op tc ! i = tc ! i"
  using assms
  by (cases op) (auto simp: config_set_def config_clear_def
      intro!: nth_list_update_neq dest: config_slot_inj split: option.splits prod.splits)

lemma apply_config_op_retains:
  assumes "configs_wf tc" and "config_slot mt track = Some i"
    and "slot_retains d g config (tc ! i)" and "d < 3" and "config_op_on mt track op"
  shows "slot_retains (Suc d) g config (apply_config_op op tc ! i)"
  using assms configs_wf_slot [OF assms(1,2)]
  by (cases op) (auto simp: config_set_def config_clear_def
      intro: slot_retains_set slot_retains_clear split: option.splits prod.splits)

lemma run_config_ops_retains:
  assumes "configs_wf tc" and "config_slot mt track = Some i"
    and "slot_retains d g config (tc ! i)"
    and "d + length (filter (config_op_on mt track) ops) \<le> 3"
  shows "slot_retains (d + length (filter (config_op_on mt track) ops)) g config
    (run_config_ops ops tc ! i)"
  using assms
proof (induction ops arbitrary: tc d)
  case Nil
  then show ?case by simp
next
  case (Cons op ops)
  show ?case
  proof (cases "config_op_on mt track op")
    case True
    with Cons.prems have "slot_retains (Suc d) g config (apply_config_op op tc ! i)"
      by (intro apply_config_op_retains) auto
    with Cons.prems True Cons.IH [of "apply_config_op op tc" "Suc d"] show ?thesis
      by (simp add: configs_wf_apply)
  next
    case False
    with Cons.prems Cons.IH [of "apply_config_op op tc" d] show ?thesis
      by (simp add: configs_wf_apply apply_config_op_other)
  qed
qed

lemma config_set_retains:
  assumes "configs_wf tc" and "config_slot mt track = Some i"
    and "config_set tc mt track bs = (g, tc')" and "g \<noteq> 0"
  shows "slot_retains 0 g \<lparr>generation = g, config_bytes = bs\<rparr> (tc' ! i)"
proof -
  from assms(3,2) obtain slot' where set: "slot_set (tc ! i) bs = (g, slot')" and tc': "tc' = tc[i := slot']"
    by (auto simp: config_set_def split: prod.splits)
  from configs_wf_slot [OF assms(1,2)] have wf: "slot_wf (tc ! i)" and i: "i < length tc"
    by auto
  from slot_set_result(2,3) [OF set wf] assms(4) tc' i show ?thesis
    by (auto simp: slot_retains_def)
qed

end
