(* ===== verification/Media_Meta.thy ===== *)
theory Media_Meta
  imports Restream_Prelude
begin

text \<open>
  The track metadata of \<open>crates/restream-core/src/metadata.rs\<close> and what its text fields use of the
  standard library.

  A Rust string is its UTF-8 encoding, kept as a list of characters of one byte each. Functions on
  its characters go through \<open>utf8_decode\<close>, the list of its Unicode scalar values. A frame rate is a
  quotient of two integers; the metadata keeps the operands of the division, and \<open>None\<close> for 0.0.
\<close>

unbundle bit_operations_syntax

subsection \<open>UTF-8\<close>

definition str_bytes :: "string \<Rightarrow> bytes" where
  "str_bytes = map of_char"

definition bytes_str :: "bytes \<Rightarrow> string" where
  "bytes_str = map (\<lambda>b. char_of (unat b))"

definition utf8_cont :: "u8 \<Rightarrow> bool" where
  "utf8_cont b \<longleftrightarrow> 0x80 \<le> b \<and> b \<le> 0xBF"

text \<open>The scalar value at the front of a well-formed sequence, after the table of the standard.\<close>

definition utf8_low :: "u8 \<Rightarrow> nat" where
  "utf8_low b = unat (b AND 0x3F)"

definition utf8_char :: "bytes \<Rightarrow> (nat \<times> bytes) option" where
  "utf8_char bs =
     (case bs of
        [] \<Rightarrow> None
      | b # bs \<Rightarrow>
          if b < 0x80 then Some (unat b, bs)
          else if 0xC2 \<le> b \<and> b \<le> 0xDF then
            (case bs of
               c # bs \<Rightarrow> if utf8_cont c then Some (unat (b AND 0x1F) * 64 + utf8_low c, bs) else None
             | _ \<Rightarrow> None)
          else if 0xE0 \<le> b \<and> b \<le> 0xEF then
            (case bs of
               c # d # bs \<Rightarrow>
                 if utf8_cont c \<and> utf8_cont d \<and> (b = 0xE0 \<longrightarrow> 0xA0 \<le> c) \<and> (b = 0xED \<longrightarrow> c \<le> 0x9F)
                 then Some ((unat (b AND 0x0F) * 64 + utf8_low c) * 64 + utf8_low d, bs) else None
             | _ \<Rightarrow> None)
          else if 0xF0 \<le> b \<and> b \<le> 0xF4 then
            (case bs of
               c # d # e # bs \<Rightarrow>
                 if utf8_cont c \<and> utf8_cont d \<and> utf8_cont e \<and> (b = 0xF0 \<longrightarrow> 0x90 \<le> c) \<and> (b = 0xF4 \<longrightarrow> c \<le> 0x8F)
                 then Some (((unat (b AND 0x07) * 64 + utf8_low c) * 64 + utf8_low d) * 64 + utf8_low e, bs) else None
             | _ \<Rightarrow> None)
          else None)"

lemma utf8_char_shorter: "utf8_char bs = Some (c, rest) \<Longrightarrow> length rest < length bs"
  by (auto simp: utf8_char_def split: list.splits if_splits)

text \<open>\<open>str::from_utf8\<close>: the scalar values, \<open>None\<close> unless the bytes are well formed.\<close>

function utf8_decode :: "bytes \<Rightarrow> nat list option" where
  "utf8_decode bs =
     (if bs = [] then Some []
      else case utf8_char bs of
        None \<Rightarrow> None
      | Some (c, rest) \<Rightarrow> map_option (Cons c) (utf8_decode rest))"
  by pat_completeness auto
termination by (relation "measure length") (auto dest: utf8_char_shorter)

declare utf8_decode.simps [simp del]

definition utf8_byte :: "nat \<Rightarrow> nat \<Rightarrow> u8" where
  "utf8_byte lead v = of_nat lead OR of_nat (v mod 64)"

definition utf8_encode_char :: "nat \<Rightarrow> bytes" where
  "utf8_encode_char c =
     (if c < 0x80 then [of_nat c]
      else if c < 0x800 then [0xC0 OR of_nat (c div 64), utf8_byte 0x80 c]
      else if c < 0x10000 then [0xE0 OR of_nat (c div 4096), utf8_byte 0x80 (c div 64), utf8_byte 0x80 c]
      else [0xF0 OR of_nat (c div 262144), utf8_byte 0x80 (c div 4096), utf8_byte 0x80 (c div 64), utf8_byte 0x80 c])"

definition utf8_encode :: "nat list \<Rightarrow> bytes" where
  "utf8_encode cs = concat (map utf8_encode_char cs)"

text \<open>\<open>str::chars\<close> of a Rust string, which is always well formed.\<close>

definition str_chars :: "string \<Rightarrow> nat list" where
  "str_chars s = case_option [] id (utf8_decode (str_bytes s))"

definition chars_str :: "nat list \<Rightarrow> string" where
  "chars_str cs = bytes_str (utf8_encode cs)"

text \<open>\<open>char::is_whitespace\<close> and \<open>char::is_control\<close>.\<close>

definition is_whitespace :: "nat \<Rightarrow> bool" where
  "is_whitespace c \<longleftrightarrow> 0x09 \<le> c \<and> c \<le> 0x0D \<or> c \<in> {0x20, 0x85, 0xA0, 0x1680} \<or> 0x2000 \<le> c \<and> c \<le> 0x200A \<or>
     c \<in> {0x2028, 0x2029, 0x202F, 0x205F, 0x3000}"

definition is_control :: "nat \<Rightarrow> bool" where
  "is_control c \<longleftrightarrow> c \<le> 0x1F \<or> 0x7F \<le> c \<and> c \<le> 0x9F"

definition trim_chars :: "nat list \<Rightarrow> nat list" where
  "trim_chars cs = rev (dropWhile is_whitespace (rev (dropWhile is_whitespace cs)))"

definition str_trim :: "string \<Rightarrow> string" where
  "str_trim s = chars_str (trim_chars (str_chars s))"

lemma utf8_decode_ascii: "list_all (\<lambda>b. b < 0x80) bs \<Longrightarrow> utf8_decode bs = Some (map unat bs)"
  by (induction bs) (simp_all add: utf8_decode.simps utf8_char_def)

lemma utf8_encode_ascii: "list_all (\<lambda>b. b < 0x80) bs \<Longrightarrow> utf8_encode (map unat bs) = bs"
  by (induction bs) (auto simp: utf8_encode_def utf8_encode_char_def word_less_nat_alt)

subsection \<open>Metadata records\<close>

text \<open>
  A binary floating-point number; \<open>Finite m e\<close> is \<open>m * 2 ^ e\<close> and \<open>Infinite True\<close> the negative
  infinity.
\<close>

datatype float_value = Finite int int | Infinite bool | Not_A_Number

record video_meta =
  vm_codec :: string
  vm_width :: nat
  vm_height :: nat
  vm_fps :: "(nat \<times> nat) option"
  vm_bw :: "float_value option"
  vm_pid :: "nat option"
  vm_language :: "string option"
  vm_title :: "string option"
  vm_profile :: "string option"
  vm_level :: "string option"
  vm_pixel_format :: "string option"

record audio_meta =
  am_codec :: string
  am_sample_rate :: nat
  am_channels :: nat
  am_channel_layout :: "string option"
  am_track_index :: nat
  am_pid :: "nat option"
  am_language :: "string option"
  am_title :: "string option"
  am_profile :: "string option"

subsection \<open>The declared encoder\<close>

record declared_encoder =
  de_encoder :: "string option"
  de_width :: "nat option"
  de_height :: "nat option"
  de_frame_rate :: "float_value option"
  de_video_kbps :: "nat option"
  de_audio_kbps :: "nat option"

definition ENCODER_NAME_MAX :: nat where
  "ENCODER_NAME_MAX = 128"

definition filter_option :: "('a \<Rightarrow> bool) \<Rightarrow> 'a option \<Rightarrow> 'a option" where
  "filter_option P v = (case v of None \<Rightarrow> None | Some x \<Rightarrow> if P x then Some x else None)"

definition encoder_name :: "string \<Rightarrow> string" where
  "encoder_name name =
     str_trim (chars_str (take ENCODER_NAME_MAX (filter (\<lambda>c. \<not> is_control c) (str_chars name))))"

fun plausible_rate :: "float_value \<Rightarrow> bool" where
  "plausible_rate (Finite m e) \<longleftrightarrow> 0 < m \<and> (if 0 \<le> e then m * 2 ^ nat e \<le> 1000 else m \<le> 1000 * 2 ^ nat (- e))"
| "plausible_rate _ \<longleftrightarrow> False"

definition declared_default :: declared_encoder where
  "declared_default =
     \<lparr>de_encoder = None, de_width = None, de_height = None, de_frame_rate = None, de_video_kbps = None, de_audio_kbps = None\<rparr>"

definition from_metadata ::
    "string option \<Rightarrow> nat option \<Rightarrow> nat option \<Rightarrow> float_value option \<Rightarrow> nat option \<Rightarrow> nat option \<Rightarrow> declared_encoder option" where
  "from_metadata encoder width height frame_rate video_kbps audio_kbps =
     (let positive = filter_option (\<lambda>v. v > 0);
          declared =
            \<lparr>de_encoder = filter_option (\<lambda>name. name \<noteq> []) (map_option encoder_name encoder),
             de_width = positive width, de_height = positive height,
             de_frame_rate = filter_option plausible_rate frame_rate,
             de_video_kbps = positive video_kbps, de_audio_kbps = positive audio_kbps\<rparr>
      in if declared \<noteq> declared_default then Some declared else None)"

lemma from_metadata_None_iff:
  "from_metadata encoder width height frame_rate video_kbps audio_kbps = None \<longleftrightarrow>
     pred_option (\<lambda>name. encoder_name name = []) encoder \<and> pred_option (\<lambda>v. v = 0) width \<and>
     pred_option (\<lambda>v. v = 0) height \<and> pred_option (\<lambda>r. \<not> plausible_rate r) frame_rate \<and>
     pred_option (\<lambda>v. v = 0) video_kbps \<and> pred_option (\<lambda>v. v = 0) audio_kbps"
proof -
  have f: "filter_option P v = None \<longleftrightarrow> pred_option (\<lambda>x. \<not> P x) v" for P :: "'a \<Rightarrow> bool" and v
    by (cases v) (simp_all add: filter_option_def)
  show ?thesis
    by (simp add: from_metadata_def declared_default_def Let_def f filter_option_def split: option.splits)
qed

end
