(* ===== verification/Ring_Buffer.thy ===== *)
theory Ring_Buffer
  imports Track_Configs Media_Meta
begin

text \<open>
  The packet ring of \<open>crates/restream-sync/src/ring_buffer.rs\<close> (with \<open>ring_buffer/slot.rs\<close>
  and \<open>ring_buffer/sequence_reads.rs\<close>): one producer publishes packets under increasing
  sequence numbers into \<open>capacity\<close> slots, and readers look packets up by sequence.

  The state is one record; each method of the source is one definition on it. An operation
  that reads the clock (\<open>elapsed_us\<close>) takes the time as an argument, and one that wakes
  waiters appends to the record's list of effects. Here each operation is one step; the
  interleaving of a publication with readers is the subject of \<open>Ring_System\<close>.

  The abstract view of a ring is its history: the packets published so far, with their
  configuration generations, from a base sequence on. \<open>ring_ok\<close> relates the two, every
  producer operation preserves it, and \<open>read_at\<close> answers from the history exactly for the
  last \<open>capacity\<close> sequences.
\<close>

unbundle bit_operations_syntax

subsection \<open>State\<close>

record ring_slot =
  slot_data :: "media_packet option"
  slot_published_at_us :: nat
  slot_unit :: u64

text \<open>What a publication or a metadata change wakes; subscriber sets are named by a handle.\<close>

datatype ring_effect = Notify_Waiters | Wake_Publication nat | Wake_Metadata nat

record ring_buffer =
  slots :: "ring_slot list"
  write_idx :: nat
  write_begin :: nat
  last_keyframe_idx :: nat
  published_bytes :: u64
  capacity :: nat
  readers :: "nat list"
  codec_hint :: nat
  initial_codec_hint :: "string option"
  track_configs :: track_configs
  audio_tracks :: "audio_meta list option"
  estimated_pkt_rate :: nat
  end_of_stream :: bool
  next_ring :: "nat option"
  publish_subscribers :: "nat option"
  metadata_subscribers :: "nat option"
  effects :: "ring_effect list"

definition RingSlot_new :: ring_slot where
  "RingSlot_new = \<lparr>slot_data = None, slot_published_at_us = 0, slot_unit = 0\<rparr>"

definition RingBuffer_new :: "nat \<Rightarrow> ring_buffer" where
  "RingBuffer_new cap =
     \<lparr>slots = replicate cap RingSlot_new, write_idx = 0, write_begin = 0,
      last_keyframe_idx = usize_MAX, published_bytes = 0, capacity = cap, readers = [],
      codec_hint = 0, initial_codec_hint = None, track_configs = TrackConfigs_new,
      audio_tracks = None, estimated_pkt_rate = 0, end_of_stream = False, next_ring = None,
      publish_subscribers = None, metadata_subscribers = None, effects = []\<rparr>"

definition new_continuing :: "nat \<Rightarrow> nat \<Rightarrow> ring_buffer" where
  "new_continuing cap start_write_idx =
     (RingBuffer_new cap)\<lparr>write_idx := start_write_idx, write_begin := start_write_idx\<rparr>"

subsection \<open>Wakes\<close>

definition notify_waiters :: "ring_buffer \<Rightarrow> ring_buffer" where
  "notify_waiters r = r\<lparr>effects := effects r @ [Notify_Waiters]\<rparr>"

definition wake_publication_subscribers :: "ring_buffer \<Rightarrow> ring_buffer" where
  "wake_publication_subscribers r =
     (case publish_subscribers r of
        None \<Rightarrow> r
      | Some h \<Rightarrow> r\<lparr>effects := effects r @ [Wake_Publication h]\<rparr>)"

definition wake_metadata_subscribers :: "ring_buffer \<Rightarrow> ring_buffer" where
  "wake_metadata_subscribers r =
     (case metadata_subscribers r of
        None \<Rightarrow> r
      | Some h \<Rightarrow> r\<lparr>effects := effects r @ [Wake_Metadata h]\<rparr>)"

subsection \<open>Track metadata\<close>

definition set_codec_hint :: "ring_buffer \<Rightarrow> string \<Rightarrow> ring_buffer" where
  "set_codec_hint r codec =
     (let initial = (case initial_codec_hint r of None \<Rightarrow> codec | Some s \<Rightarrow> s);
          r = r\<lparr>initial_codec_hint := Some initial\<rparr>;
          hint = (if codec = [] then 0
                  else if codec = initial then 1
                  else case from_codec_name codec of H264 \<Rightarrow> 2 | Hevc \<Rightarrow> 3 | Unknown_Codec \<Rightarrow> 1);
          old = codec_hint r;
          r = r\<lparr>codec_hint := hint\<rparr>
      in if old \<noteq> hint then wake_metadata_subscribers r else r)"

definition codec_hint_str :: "ring_buffer \<Rightarrow> string" where
  "codec_hint_str r =
     (if codec_hint r = 0 then []
      else if codec_hint r = 2 then ''h264''
      else if codec_hint r = 3 then ''hevc''
      else case initial_codec_hint r of None \<Rightarrow> [] | Some s \<Rightarrow> s)"

definition remove_video_track :: "ring_buffer \<Rightarrow> ring_buffer" where
  "remove_video_track r =
     wake_metadata_subscribers
       (r\<lparr>track_configs := config_clear (track_configs r) Video 0, codec_hint := 0\<rparr>)"

definition set_track_config :: "ring_buffer \<Rightarrow> media_type \<Rightarrow> nat \<Rightarrow> bytes \<Rightarrow> u32 \<times> ring_buffer" where
  "set_track_config r mt track bs =
     (if bs = [] then (config_generation_of (track_configs r) mt track, r)
      else
        let previous = config_generation_of (track_configs r) mt track;
            (g, tc) = config_set (track_configs r) mt track bs;
            r = r\<lparr>track_configs := tc\<rparr>
        in (g, if g \<noteq> previous then wake_metadata_subscribers r else r))"

definition track_config :: "ring_buffer \<Rightarrow> media_type \<Rightarrow> nat \<Rightarrow> track_config option" where
  "track_config r mt track = config_current (track_configs r) mt track"

definition set_video_parameter_sets :: "ring_buffer \<Rightarrow> bytes \<Rightarrow> ring_buffer" where
  "set_video_parameter_sets r bs = snd (set_track_config r Video 0 bs)"

definition video_config :: "ring_buffer \<Rightarrow> track_config option" where
  "video_config r = track_config r Video 0"

definition set_audio_tracks :: "ring_buffer \<Rightarrow> audio_meta list \<Rightarrow> ring_buffer" where
  "set_audio_tracks r tracks =
     (let tc = fold (\<lambda>track tc.
            if \<exists>t \<in> set tracks. am_track_index t = track then tc
            else config_clear tc Audio track) [0..<CONFIG_TRACKS_PER_TYPE] (track_configs r)
      in wake_metadata_subscribers
           (r\<lparr>track_configs := tc, audio_tracks := (if tracks = [] then None else Some tracks)\<rparr>))"

subsection \<open>Reading by sequence\<close>

definition slot_at :: "ring_buffer \<Rightarrow> nat \<Rightarrow> ring_slot" where
  "slot_at r sequence = slots r ! (sequence mod capacity r)"

definition read_at :: "ring_buffer \<Rightarrow> nat \<Rightarrow> media_packet option" where
  "read_at r sequence = do {
     packet \<leftarrow> slot_data (slot_at r sequence);
     _ \<leftarrow> unpack (slot_unit (slot_at r sequence)) sequence;
     Some packet
   }"

definition read_unverified_with :: "ring_buffer \<Rightarrow> nat \<Rightarrow> (media_packet \<Rightarrow> 'u) \<Rightarrow> 'u option" where
  "read_unverified_with r sequence f = map_option f (slot_data (slot_at r sequence))"

definition run_intact :: "ring_buffer \<Rightarrow> nat \<Rightarrow> nat \<Rightarrow> bool" where
  "run_intact r start stop \<longleftrightarrow>
     write_begin r \<le> saturating_add usize_MAX start (capacity r) \<or>
     list_all (\<lambda>sequence. unpack (slot_unit (slot_at r sequence)) sequence \<noteq> None) [start..<stop]"

definition frame_unit_at :: "ring_buffer \<Rightarrow> nat \<Rightarrow> frame_unit option" where
  "frame_unit_at r sequence =
     (if write_idx r \<le> sequence \<or> capacity r \<le> write_idx r - sequence then None
      else unpack (slot_unit (slot_at r sequence)) sequence)"

datatype not_retained = Not_Retained

definition track_config_at ::
    "ring_buffer \<Rightarrow> nat \<Rightarrow> media_type \<Rightarrow> nat \<Rightarrow> not_retained + track_config option" where
  "track_config_at r sequence mt track =
     (case frame_unit_at r sequence of
        None \<Rightarrow> Inl Not_Retained
      | Some u \<Rightarrow>
          if config_generation u = 0 then Inr None
          else case config_get (track_configs r) mt track (config_generation u) of
            None \<Rightarrow> Inl Not_Retained
          | Some config \<Rightarrow> Inr (Some config))"

definition published_at_us :: "ring_buffer \<Rightarrow> nat \<Rightarrow> nat" where
  "published_at_us r sequence = slot_published_at_us (slot_at r sequence)"

definition fast_forward :: "ring_buffer \<Rightarrow> nat \<Rightarrow> nat" where
  "fast_forward r current_write_idx =
     (if last_keyframe_idx r \<noteq> usize_MAX \<and> current_write_idx - last_keyframe_idx r < capacity r
      then last_keyframe_idx r else current_write_idx)"

subsection \<open>Publication\<close>

definition next_frame_unit :: "ring_buffer \<Rightarrow> media_packet \<Rightarrow> nat \<Rightarrow> u64" where
  "next_frame_unit r p sequence =
     pack \<lparr>config_generation = config_generation_of (track_configs r) (media_type p) (track_index p)\<rparr>
       sequence"

definition begin_write :: "ring_buffer \<Rightarrow> nat \<Rightarrow> ring_buffer" where
  "begin_write r stop = r\<lparr>write_begin := stop\<rparr>"

definition add_published_bytes :: "ring_buffer \<Rightarrow> u64 \<Rightarrow> ring_buffer" where
  "add_published_bytes r n = r\<lparr>published_bytes := published_bytes r + n\<rparr>"

text \<open>The slot stores shared by \<open>push\<close> and \<open>push_batch\<close>, for the packet of sequence \<open>idx\<close>.\<close>

definition store_packet :: "ring_buffer \<Rightarrow> nat \<Rightarrow> nat \<Rightarrow> media_packet \<Rightarrow> ring_buffer" where
  "store_packet r at_us idx p =
     (let word = next_frame_unit r p idx;
          r = begin_write r (idx + 1);
          r = r\<lparr>slots := (slots r)[idx mod capacity r :=
                (slots r ! (idx mod capacity r))
                  \<lparr>slot_published_at_us := at_us, slot_unit := word, slot_data := Some p\<rparr>]\<rparr>
      in if is_video_keyframe p then r\<lparr>last_keyframe_idx := idx\<rparr> else r)"

definition push :: "nat \<Rightarrow> media_packet \<Rightarrow> ring_buffer \<Rightarrow> ring_buffer" where
  "push now p r =
     (let idx = write_idx r;
          r = store_packet r (max now 1) idx p;
          r = add_published_bytes r (of_nat (length (payload p)));
          r = r\<lparr>write_idx := idx + 1\<rparr>
      in wake_publication_subscribers (notify_waiters r))"

text \<open>
  The loop of \<open>push_batch\<close>: the packets of an iterator whose \<open>next\<close> may itself change the ring
  (the \<open>inspect\<close> of \<open>push_batch_recording_config\<close>), written from sequence \<open>idx\<close> on. It returns
  the ring, the number of packets and their payload bytes.
\<close>

fun batch_loop ::
    "(ring_buffer \<Rightarrow> media_packet \<Rightarrow> ring_buffer) \<Rightarrow> nat \<Rightarrow> nat \<Rightarrow> media_packet list \<Rightarrow> ring_buffer
      \<Rightarrow> ring_buffer \<times> nat \<times> u64" where
  "batch_loop inspect at_us idx [] r = (r, 0, 0)"
| "batch_loop inspect at_us idx (p # ps) r =
     (let r = inspect r p;
          r = store_packet r at_us idx p;
          (r, count, payload_bytes) = batch_loop inspect at_us (idx + 1) ps r
      in (r, count + 1, of_nat (length (payload p)) + payload_bytes))"

definition push_batch_with ::
    "(ring_buffer \<Rightarrow> media_packet \<Rightarrow> ring_buffer) \<Rightarrow> nat \<Rightarrow> media_packet list \<Rightarrow> ring_buffer
      \<Rightarrow> nat \<times> ring_buffer" where
  "push_batch_with inspect now ps r =
     (let start_idx = write_idx r;
          (r, count, payload_bytes) = batch_loop inspect (max now 1) start_idx ps r
      in if count > 0 then
           (count, wake_publication_subscribers (notify_waiters
              ((add_published_bytes r payload_bytes)\<lparr>write_idx := start_idx + count\<rparr>)))
         else (count, r))"

definition push_batch :: "nat \<Rightarrow> media_packet list \<Rightarrow> ring_buffer \<Rightarrow> nat \<times> ring_buffer" where
  "push_batch = push_batch_with (\<lambda>r p. r)"

definition MEDIA_PRODUCER_BATCH_PACKETS :: nat where
  "MEDIA_PRODUCER_BATCH_PACKETS = 32"

lemma batch_loop_count: "batch_loop inspect at_us idx ps r = (r', n, b) \<Longrightarrow> n = length ps"
  by (induction ps arbitrary: idx r r' n b) (auto simp: Let_def split: prod.splits)

lemma push_batch_with_count: "fst (push_batch_with inspect now ps r) = length ps"
  using batch_loop_count [of inspect "max now 1" "write_idx r" ps r]
  by (auto simp: push_batch_with_def Let_def split: prod.splits)

text \<open>
  Draining a producer batch in bounded chunks, until a chunk publishes nothing. Each chunk
  reads the clock at its first packet; \<open>clock n\<close> is the reading after \<open>n\<close> drained packets.
\<close>

function push_drained_with ::
    "(ring_buffer \<Rightarrow> media_packet \<Rightarrow> ring_buffer) \<Rightarrow> (nat \<Rightarrow> nat) \<Rightarrow> nat \<Rightarrow> media_packet list
      \<Rightarrow> ring_buffer \<Rightarrow> nat \<times> ring_buffer" where
  "push_drained_with inspect clock acc packets r =
     (let (published, r') =
        push_batch_with inspect (clock acc) (take MEDIA_PRODUCER_BATCH_PACKETS packets) r
      in if published = 0 then (acc, r')
         else push_drained_with inspect clock (acc + published)
                (drop MEDIA_PRODUCER_BATCH_PACKETS packets) r')"
  by pat_completeness auto
termination
proof (relation "measure (\<lambda>(inspect, clock, acc, packets, r). length packets)")
  fix inspect :: "ring_buffer \<Rightarrow> media_packet \<Rightarrow> ring_buffer" and clock :: "nat \<Rightarrow> nat"
    and acc published :: nat and packets :: "media_packet list" and r r' :: ring_buffer
    and x :: "nat \<times> ring_buffer"
  assume "x = push_batch_with inspect (clock acc) (take MEDIA_PRODUCER_BATCH_PACKETS packets) r"
    and "(published, r') = x" and "published \<noteq> 0"
  then have "published = length (take MEDIA_PRODUCER_BATCH_PACKETS packets)"
    by (metis fst_conv push_batch_with_count)
  with \<open>published \<noteq> 0\<close> show "((inspect, clock, acc + published,
      drop MEDIA_PRODUCER_BATCH_PACKETS packets, r'), inspect, clock, acc, packets, r)
      \<in> measure (\<lambda>(inspect, clock, acc, packets, r). length packets)"
    by (auto simp: MEDIA_PRODUCER_BATCH_PACKETS_def)
qed simp

declare push_drained_with.simps [simp del]

definition push_drained_batch_capped ::
    "(nat \<Rightarrow> nat) \<Rightarrow> media_packet list \<Rightarrow> ring_buffer \<Rightarrow> nat \<times> ring_buffer" where
  "push_drained_batch_capped clock packets r = push_drained_with (\<lambda>r p. r) clock 0 packets r"

subsection \<open>Growing a ring\<close>

text \<open>
  One step of the copy loop of \<open>seed_readable_tail_from\<close>: the packet of \<open>idx\<close>, when the old
  ring still holds it, goes to its slot of the new ring with its unit word. The state carries
  the number copied and the latest keyframe; \<open>now idx\<close> is the clock reading at that copy.
\<close>

definition seed_step ::
    "(nat \<Rightarrow> nat) \<Rightarrow> ring_buffer \<Rightarrow> nat \<Rightarrow> ring_buffer \<times> nat \<times> nat \<Rightarrow> ring_buffer \<times> nat \<times> nat" where
  "seed_step now old idx = (\<lambda>(r, copied, kf).
     case read_at old idx of
       None \<Rightarrow> (r, copied, kf)
     | Some p \<Rightarrow>
         (r\<lparr>slots := (slots r)[idx mod capacity r :=
             (slots r ! (idx mod capacity r))
               \<lparr>slot_published_at_us := max (now idx) 1, slot_data := Some p,
                slot_unit := slot_unit (slot_at old idx)\<rparr>]\<rparr>,
          copied + 1,
          if is_video_keyframe p then idx else kf))"

definition seed_readable_tail_from :: "(nat \<Rightarrow> nat) \<Rightarrow> ring_buffer \<Rightarrow> ring_buffer \<Rightarrow> nat \<times> ring_buffer" where
  "seed_readable_tail_from now old r =
     (let old_write_idx = write_idx old;
          tail_capacity = min (capacity r - 1) (capacity old - 1);
          start_idx = old_write_idx - tail_capacity;
          (r, copied, kf) = fold (seed_step now old) [start_idx..<old_write_idx]
            (begin_write r old_write_idx, 0, usize_MAX);
          r = (if kf \<noteq> usize_MAX then r\<lparr>last_keyframe_idx := kf\<rparr> else r)
      in (copied,
          r\<lparr>track_configs := config_copy_from (track_configs r) (track_configs old),
            write_idx := old_write_idx\<rparr>))"

text \<open>
  \<open>seal_and_forward\<close>: the replacement inherits the subscriber sets, the sealed ring points at
  it and wakes its readers. \<open>fresh\<close> names the subscriber set the sealed ring creates if it has
  none yet (\<open>publication_subscribers\<close>).
\<close>

definition seal_and_forward ::
    "nat \<Rightarrow> nat \<Rightarrow> ring_buffer \<Rightarrow> ring_buffer \<Rightarrow> ring_buffer \<times> ring_buffer" where
  "seal_and_forward fresh new_handle r new_r =
     (let h = (case publish_subscribers r of None \<Rightarrow> fresh | Some h \<Rightarrow> h);
          r = r\<lparr>publish_subscribers := Some h\<rparr>;
          new_r = (if publish_subscribers new_r = None then new_r\<lparr>publish_subscribers := Some h\<rparr> else new_r);
          new_r = (case metadata_subscribers r of
              None \<Rightarrow> new_r
            | Some m \<Rightarrow> if metadata_subscribers new_r = None
                then new_r\<lparr>metadata_subscribers := Some m\<rparr> else new_r);
          r = r\<lparr>next_ring := Some new_handle\<rparr>
      in (wake_metadata_subscribers (wake_publication_subscribers (notify_waiters r)), new_r))"

definition mark_end_of_stream :: "ring_buffer \<Rightarrow> ring_buffer" where
  "mark_end_of_stream r =
     wake_metadata_subscribers (wake_publication_subscribers (notify_waiters (r\<lparr>end_of_stream := True\<rparr>)))"

subsection \<open>The abstract history\<close>

text \<open>
  A history is the list of published packets with the configuration generation each carries;
  \<open>base\<close> is the sequence of its first entry. \<open>last_kf\<close> is the sequence of the latest video
  keyframe, or the source's sentinel.
\<close>

type_synonym history = "(media_packet \<times> u32) list"

definition last_kf :: "nat \<Rightarrow> history \<Rightarrow> nat" where
  "last_kf base h = foldl (\<lambda>k (i, e). if is_video_keyframe (fst e) then base + i else k) usize_MAX
     (List.enumerate 0 h)"

text \<open>The sequences whose slots still hold their packet, when the next sequence is \<open>stop\<close>.\<close>

definition retained :: "nat \<Rightarrow> nat \<Rightarrow> nat \<Rightarrow> nat \<Rightarrow> bool" where
  "retained cap base stop s \<longleftrightarrow> base \<le> s \<and> s < stop \<and> stop \<le> s + cap"

definition slot_holds :: "ring_slot \<Rightarrow> media_packet \<times> u32 \<Rightarrow> nat \<Rightarrow> bool" where
  "slot_holds slot e s \<longleftrightarrow>
     slot_data slot = Some (fst e) \<and> slot_unit slot = pack \<lparr>config_generation = snd e\<rparr> s"

definition slot_empty :: "ring_slot \<Rightarrow> bool" where
  "slot_empty slot \<longleftrightarrow> slot_data slot = None \<and> slot_unit slot = 0"

text \<open>
  The slots agree with a history, whether or not the write index has moved yet: what holds
  throughout a batch.
\<close>

definition ring_core :: "ring_buffer \<Rightarrow> nat \<Rightarrow> history \<Rightarrow> bool" where
  "ring_core r base h \<longleftrightarrow>
     0 < capacity r \<and> length (slots r) = capacity r \<and> configs_wf (track_configs r) \<and>
     write_begin r = base + length h \<and> last_keyframe_idx r = last_kf base h \<and>
     (\<forall>s. retained (capacity r) base (base + length h) s \<longrightarrow>
        slot_holds (slot_at r s) (h ! (s - base)) s) \<and>
     (\<forall>i < capacity r. (\<forall>s. retained (capacity r) base (base + length h) s \<longrightarrow> s mod capacity r \<noteq> i) \<longrightarrow>
        slot_empty (slots r ! i))"

definition ring_ok :: "ring_buffer \<Rightarrow> nat \<Rightarrow> history \<Rightarrow> bool" where
  "ring_ok r base h \<longleftrightarrow> ring_core r base h \<and> write_idx r = base + length h"

lemma last_kf_Nil [simp]: "last_kf base [] = usize_MAX"
  by (simp add: last_kf_def)

lemma last_kf_snoc [simp]:
  "last_kf base (h @ [e]) = (if is_video_keyframe (fst e) then base + length h else last_kf base h)"
  by (simp add: last_kf_def enumerate_append_eq)

lemma mod_window_neq: "(s :: nat) < t \<Longrightarrow> t < s + cap \<Longrightarrow> s mod cap \<noteq> t mod cap"
  using mod_eq_lt_imp_eq [of s cap t] by auto

lemma retained_inj:
  "retained cap base stop s \<Longrightarrow> retained cap base stop t \<Longrightarrow> s mod cap = t mod cap \<Longrightarrow> s = t"
  using mod_window_neq [of s t cap] mod_window_neq [of t s cap]
  by (cases s t rule: linorder_cases) (auto simp: retained_def)

lemma ring_ok_new: "0 < cap \<Longrightarrow> ring_ok (RingBuffer_new cap) 0 []"
  by (auto simp: ring_ok_def ring_core_def RingBuffer_new_def configs_wf_new retained_def
      slot_empty_def RingSlot_new_def)

lemma ring_ok_new_continuing: "0 < cap \<Longrightarrow> ring_ok (new_continuing cap w) w []"
  by (auto simp: ring_ok_def ring_core_def new_continuing_def RingBuffer_new_def configs_wf_new
      retained_def slot_empty_def RingSlot_new_def)

lemma store_packet_frame [simp]:
  "capacity (store_packet r t idx p) = capacity r"
  "write_idx (store_packet r t idx p) = write_idx r"
  "track_configs (store_packet r t idx p) = track_configs r"
  "write_begin (store_packet r t idx p) = idx + 1"
  "length (slots (store_packet r t idx p)) = length (slots r)"
  "effects (store_packet r t idx p) = effects r"
  by (simp_all add: store_packet_def begin_write_def Let_def)

lemma store_packet_slots:
  "slots (store_packet r t idx p) = (slots r)[idx mod capacity r :=
     (slots r ! (idx mod capacity r))\<lparr>slot_published_at_us := t,
        slot_unit := next_frame_unit r p idx, slot_data := Some p\<rparr>]"
  by (simp add: store_packet_def begin_write_def Let_def)

lemma store_packet_last_keyframe:
  "last_keyframe_idx (store_packet r t idx p) =
     (if is_video_keyframe p then idx else last_keyframe_idx r)"
  by (simp add: store_packet_def begin_write_def Let_def)

definition packet_generation :: "ring_buffer \<Rightarrow> media_packet \<Rightarrow> u32" where
  "packet_generation r p = config_generation_of (track_configs r) (media_type p) (track_index p)"

lemma store_packet_core:
  assumes core: "ring_core r base h" and idx: "idx = base + length h"
  shows "ring_core (store_packet r t idx p) base (h @ [(p, packet_generation r p)])"
proof -
  let ?r = "store_packet r t idx p" and ?h = "h @ [(p, packet_generation r p)]"
  let ?cap = "capacity r"
  from core have cap: "0 < ?cap" and len: "length (slots r) = ?cap"
    and holds: "\<And>s. retained ?cap base idx s \<Longrightarrow> slot_holds (slot_at r s) (h ! (s - base)) s"
    and empty: "\<And>i. i < ?cap \<Longrightarrow> (\<And>s. retained ?cap base idx s \<Longrightarrow> s mod ?cap \<noteq> i) \<Longrightarrow>
      slot_empty (slots r ! i)"
    by (auto simp: ring_core_def idx)
  have stop: "base + length ?h = idx + 1" by (simp add: idx)
  have at_idx: "slot_at ?r idx = (slots r ! (idx mod ?cap))\<lparr>slot_published_at_us := t,
      slot_unit := next_frame_unit r p idx, slot_data := Some p\<rparr>"
    using cap len by (simp add: slot_at_def store_packet_slots)
  have "slot_holds (slot_at ?r s) (?h ! (s - base)) s" if s: "retained ?cap base (idx + 1) s" for s
  proof (cases "s = idx")
    case True
    have "?h ! (idx - base) = (p, packet_generation r p)" by (simp add: idx)
    with True show ?thesis
      by (simp add: slot_holds_def at_idx next_frame_unit_def packet_generation_def)
  next
    case False
    with s have old: "retained ?cap base idx s" and neq: "idx mod ?cap \<noteq> s mod ?cap"
      using mod_window_neq [of s idx ?cap] by (auto simp: retained_def)
    then have "slot_at ?r s = slot_at r s"
      by (simp add: slot_at_def store_packet_slots)
    with holds [OF old] old show ?thesis
      by (auto simp: nth_append retained_def idx)
  qed
  moreover have "slot_empty (slots ?r ! i)"
    if i: "i < ?cap" and none: "\<And>s. retained ?cap base (idx + 1) s \<Longrightarrow> s mod ?cap \<noteq> i" for i
  proof -
    have neq: "idx mod ?cap \<noteq> i"
      using none [of idx] cap by (simp add: retained_def idx)
    have "s mod ?cap \<noteq> i" if "retained ?cap base idx s" for s
    proof (cases "idx = s + ?cap")
      case True
      with neq show ?thesis by simp
    next
      case False
      with that none [of s] show ?thesis by (auto simp: retained_def)
    qed
    with empty [OF i] neq show ?thesis by (simp add: store_packet_slots)
  qed
  ultimately show ?thesis
    using core cap len unfolding ring_core_def store_packet_frame stop
    by (simp add: store_packet_last_keyframe idx)
qed

subsection \<open>Publication extends the history\<close>

lemma wake_frame [simp]:
  "slots (wake_publication_subscribers r) = slots r"
  "write_idx (wake_publication_subscribers r) = write_idx r"
  "write_begin (wake_publication_subscribers r) = write_begin r"
  "last_keyframe_idx (wake_publication_subscribers r) = last_keyframe_idx r"
  "capacity (wake_publication_subscribers r) = capacity r"
  "track_configs (wake_publication_subscribers r) = track_configs r"
  "slots (wake_metadata_subscribers r) = slots r"
  "write_idx (wake_metadata_subscribers r) = write_idx r"
  "write_begin (wake_metadata_subscribers r) = write_begin r"
  "last_keyframe_idx (wake_metadata_subscribers r) = last_keyframe_idx r"
  "capacity (wake_metadata_subscribers r) = capacity r"
  "track_configs (wake_metadata_subscribers r) = track_configs r"
  "slots (notify_waiters r) = slots r"
  "write_idx (notify_waiters r) = write_idx r"
  "write_begin (notify_waiters r) = write_begin r"
  "last_keyframe_idx (notify_waiters r) = last_keyframe_idx r"
  "capacity (notify_waiters r) = capacity r"
  "track_configs (notify_waiters r) = track_configs r"
  by (simp_all add: wake_publication_subscribers_def wake_metadata_subscribers_def
      notify_waiters_def split: option.splits)

lemma ring_core_frame [simp]:
  "ring_core (wake_publication_subscribers r) base h \<longleftrightarrow> ring_core r base h"
  "ring_core (wake_metadata_subscribers r) base h \<longleftrightarrow> ring_core r base h"
  "ring_core (notify_waiters r) base h \<longleftrightarrow> ring_core r base h"
  "ring_core (r\<lparr>write_idx := w\<rparr>) base h \<longleftrightarrow> ring_core r base h"
  "ring_core (r\<lparr>codec_hint := c\<rparr>) base h \<longleftrightarrow> ring_core r base h"
  "ring_core (r\<lparr>initial_codec_hint := ic\<rparr>) base h \<longleftrightarrow> ring_core r base h"
  "ring_core (r\<lparr>audio_tracks := a\<rparr>) base h \<longleftrightarrow> ring_core r base h"
  "ring_core (add_published_bytes r n) base h \<longleftrightarrow> ring_core r base h"
  by (simp_all add: ring_core_def slot_at_def add_published_bytes_def)

lemma ring_core_configs:
  "ring_core r base h \<Longrightarrow> configs_wf tc \<Longrightarrow> ring_core (r\<lparr>track_configs := tc\<rparr>) base h"
  by (simp add: ring_core_def slot_at_def)

lemma ring_core_wf: "ring_core r base h \<Longrightarrow> configs_wf (track_configs r)"
  by (simp add: ring_core_def)

lemma ring_ok_push:
  "ring_ok r base h \<Longrightarrow> ring_ok (push now p r) base (h @ [(p, packet_generation r p)])"
  by (auto simp: ring_ok_def push_def Let_def intro!: store_packet_core)

text \<open>
  An iterator's side effect that a batch may interleave with its writes: it keeps the slots and
  the write index, as recording a configuration does.
\<close>

definition inspect_ok :: "(ring_buffer \<Rightarrow> media_packet \<Rightarrow> ring_buffer) \<Rightarrow> bool" where
  "inspect_ok inspect \<longleftrightarrow> (\<forall>r p base h. ring_core r base h \<longrightarrow>
     ring_core (inspect r p) base h \<and> write_idx (inspect r p) = write_idx r)"

text \<open>The history entries of a batch: each packet with its generation at its own publication.\<close>

fun batch_entries ::
    "(ring_buffer \<Rightarrow> media_packet \<Rightarrow> ring_buffer) \<Rightarrow> nat \<Rightarrow> nat \<Rightarrow> media_packet list \<Rightarrow> ring_buffer
      \<Rightarrow> history" where
  "batch_entries inspect t idx [] r = []"
| "batch_entries inspect t idx (p # ps) r =
     (let r = inspect r p
      in (p, packet_generation r p) # batch_entries inspect t (idx + 1) ps (store_packet r t idx p))"

lemma map_fst_batch_entries: "map fst (batch_entries inspect t idx ps r) = ps"
  by (induction ps arbitrary: idx r) (simp_all add: Let_def)

lemma inspect_ok_id: "inspect_ok (\<lambda>r p. r)"
  by (simp add: inspect_ok_def)

lemma batch_loop_core:
  assumes "inspect_ok inspect" and "ring_core r base h" and "idx = base + length h"
    and "batch_loop inspect t idx ps r = (r', n, b)"
  shows "ring_core r' base (h @ batch_entries inspect t idx ps r) \<and> write_idx r' = write_idx r"
  using assms(2-)
proof (induction ps arbitrary: r h idx n b)
  case Nil
  then show ?case by simp
next
  case (Cons p ps)
  let ?r = "inspect r p"
  let ?r' = "store_packet ?r t idx p"
  from assms(1) Cons.prems(1) have ins: "ring_core ?r base h" "write_idx ?r = write_idx r"
    by (auto simp: inspect_ok_def)
  from store_packet_core [OF ins(1) Cons.prems(2)]
  have core: "ring_core ?r' base (h @ [(p, packet_generation ?r p)])" .
  from Cons.prems(3) obtain n' b' where "batch_loop inspect t (idx + 1) ps ?r' = (r', n', b')"
    by (auto simp: Let_def split: prod.splits)
  from Cons.IH [OF core _ this] Cons.prems(2) ins(2) show ?case
    by (simp add: Let_def)
qed

lemma ring_ok_push_batch_with:
  assumes "inspect_ok inspect" and "ring_ok r base h"
  shows "ring_ok (snd (push_batch_with inspect now ps r)) base
    (h @ batch_entries inspect (max now 1) (write_idx r) ps r)"
proof -
  obtain r' n b where loop: "batch_loop inspect (max now 1) (write_idx r) ps r = (r', n, b)"
    by (metis prod_cases3)
  from assms(2) have core: "ring_core r base h" and w: "write_idx r = base + length h"
    by (auto simp: ring_ok_def)
  have n: "n = length ps" using loop by (rule batch_loop_count)
  have len: "length (batch_entries inspect (max now 1) (write_idx r) ps r) = length ps"
    using map_fst_batch_entries [of inspect "max now 1" "write_idx r" ps r]
    by (metis length_map)
  from batch_loop_core [OF assms(1) core w loop] loop n len w show ?thesis
    by (auto simp: push_batch_with_def ring_ok_def Let_def)
qed

lemma batch_entries_id:
  "batch_entries (\<lambda>r p. r) t idx ps r = map (\<lambda>p. (p, packet_generation r p)) ps"
proof (induction ps arbitrary: idx r)
  case (Cons p ps)
  then show ?case by (simp add: Let_def packet_generation_def)
qed simp

lemma ring_ok_push_batch:
  "ring_ok r base h \<Longrightarrow>
   ring_ok (snd (push_batch now ps r)) base (h @ map (\<lambda>p. (p, packet_generation r p)) ps)"
  using ring_ok_push_batch_with [OF inspect_ok_id, of r base h now ps]
  by (simp add: push_batch_def batch_entries_id)

subsection \<open>Reading answers from the history\<close>

lemma ring_ok_slot:
  assumes "ring_ok r base h" and "retained (capacity r) base (write_idx r) s"
  shows "slot_holds (slot_at r s) (h ! (s - base)) s"
  using assms by (auto simp: ring_ok_def ring_core_def)

lemma ring_ok_unit:
  assumes ok: "ring_ok r base h" and s: "s < write_idx r" "write_idx r \<le> s + 2 ^ 31"
    and nret: "\<not> retained (capacity r) base (write_idx r) s"
  shows "unpack (slot_unit (slot_at r s)) s = None"
proof (cases "\<exists>t. retained (capacity r) base (write_idx r) t \<and> t mod capacity r = s mod capacity r")
  case True
  then obtain t where t: "retained (capacity r) base (write_idx r) t"
    and mod: "t mod capacity r = s mod capacity r" by blast
  have "s < t"
    using t nret s(1) by (auto simp: retained_def not_less)
  moreover have "slot_at r s = slot_at r t"
    by (simp add: slot_at_def mod)
  moreover have "t < s + 2 ^ 31"
    using t s(2) by (auto simp: retained_def)
  ultimately show ?thesis
    using ring_ok_slot [OF ok t] by (simp add: slot_holds_def unpack_pack_other)
next
  case False
  moreover have "s mod capacity r < capacity r"
    using ok by (simp add: ring_ok_def ring_core_def)
  ultimately have "slot_empty (slots r ! (s mod capacity r))"
    using ok by (auto simp: ring_ok_def ring_core_def)
  then show ?thesis by (simp add: slot_empty_def slot_at_def)
qed

lemma read_at_history:
  assumes "ring_ok r base h" and "s < write_idx r" and "write_idx r \<le> s + 2 ^ 31"
  shows "read_at r s =
    (if retained (capacity r) base (write_idx r) s then Some (fst (h ! (s - base))) else None)"
  using ring_ok_slot [OF assms(1)] ring_ok_unit [OF assms]
  by (auto simp: read_at_def slot_holds_def bind_eq_None_conv)

lemma frame_unit_history:
  assumes "ring_ok r base h" and "base \<le> s" and "s < write_idx r" and "write_idx r - s < capacity r"
  shows "frame_unit_at r s = Some \<lparr>config_generation = snd (h ! (s - base))\<rparr>"
proof -
  from assms(2-4) have "retained (capacity r) base (write_idx r) s"
    by (auto simp: retained_def)
  from ring_ok_slot [OF assms(1) this] assms(3,4) show ?thesis
    by (simp add: frame_unit_at_def slot_holds_def)
qed

lemma run_intact_retained:
  assumes ok: "ring_ok r base h" and "write_idx r \<le> usize_MAX" and intact: "run_intact r start stop"
    and s: "start \<le> s" "s < stop" "base \<le> s" "s < write_idx r" "write_idx r \<le> s + 2 ^ 31"
  shows "retained (capacity r) base (write_idx r) s"
proof (cases "write_begin r \<le> saturating_add usize_MAX start (capacity r)")
  case True
  then have "write_idx r \<le> start + capacity r"
    using ok by (auto simp: ring_ok_def ring_core_def saturating_add_def)
  with s show ?thesis by (auto simp: retained_def)
next
  case False
  with intact s have "unpack (slot_unit (slot_at r s)) s \<noteq> None"
    by (auto simp: run_intact_def list_all_iff)
  with ring_ok_unit [OF ok s(4,5)] show ?thesis by auto
qed

lemma last_kf_cases:
  assumes "base + length h \<le> usize_MAX"
  obtains (none) "last_kf base h = usize_MAX" and "\<And>e. e \<in> set h \<Longrightarrow> \<not> is_video_keyframe (fst e)"
  | (some) i where "i < length h" and "last_kf base h = base + i" and "last_kf base h \<noteq> usize_MAX"
      and "is_video_keyframe (fst (h ! i))"
      and "\<And>j. i < j \<Longrightarrow> j < length h \<Longrightarrow> \<not> is_video_keyframe (fst (h ! j))"
proof -
  have "(last_kf base h = usize_MAX \<and> (\<forall>e \<in> set h. \<not> is_video_keyframe (fst e))) \<or>
    (\<exists>i < length h. last_kf base h = base + i \<and> last_kf base h \<noteq> usize_MAX \<and>
       is_video_keyframe (fst (h ! i)) \<and>
       (\<forall>j. i < j \<and> j < length h \<longrightarrow> \<not> is_video_keyframe (fst (h ! j))))"
    using assms
  proof (induction h rule: rev_induct)
    case Nil
    then show ?case by simp
  next
    case (snoc e h)
    show ?case
    proof (cases "is_video_keyframe (fst e)")
      case True
      with snoc.prems show ?thesis
        by (intro disjI2 exI [of _ "length h"]) auto
    next
      case False
      from snoc.prems snoc.IH consider
        "last_kf base h = usize_MAX" "\<forall>e \<in> set h. \<not> is_video_keyframe (fst e)"
        | i where "i < length h" "last_kf base h = base + i" "last_kf base h \<noteq> usize_MAX"
          "is_video_keyframe (fst (h ! i))"
          "\<forall>j. i < j \<and> j < length h \<longrightarrow> \<not> is_video_keyframe (fst (h ! j))"
        by auto
      then show ?thesis
      proof cases
        case 1
        with False show ?thesis by auto
      next
        case (2 i)
        with False show ?thesis
          by (intro disjI2 exI [of _ i]) (auto simp: nth_append less_Suc_eq)
      qed
    qed
  qed
  then show thesis using none some by blast
qed

text \<open>Where \<open>fast_forward\<close> lands: on the latest keyframe a pull can still reach, else the live edge.\<close>

lemma fast_forward_cases:
  assumes ok: "ring_ok r base h" and max: "write_idx r \<le> usize_MAX"
  obtains (live) "fast_forward r (write_idx r) = write_idx r"
      and "\<And>s. base \<le> s \<Longrightarrow> s < write_idx r \<Longrightarrow> write_idx r - s < capacity r \<Longrightarrow>
        \<not> is_video_keyframe (fst (h ! (s - base)))"
  | (keyframe) "base \<le> fast_forward r (write_idx r)" and "fast_forward r (write_idx r) < write_idx r"
      and "write_idx r - fast_forward r (write_idx r) < capacity r"
      and "is_video_keyframe (fst (h ! (fast_forward r (write_idx r) - base)))"
      and "\<And>s. fast_forward r (write_idx r) < s \<Longrightarrow> s < write_idx r \<Longrightarrow>
        \<not> is_video_keyframe (fst (h ! (s - base)))"
proof -
  from ok have w: "write_idx r = base + length h" and kf: "last_keyframe_idx r = last_kf base h"
    by (auto simp: ring_ok_def ring_core_def)
  from max w have "base + length h \<le> usize_MAX" by simp
  then show thesis
  proof (cases rule: last_kf_cases)
    case none
    with w show ?thesis
      by (intro live) (auto simp: fast_forward_def kf)
  next
    case (some i)
    show ?thesis
    proof (cases "write_idx r - last_kf base h < capacity r")
      case True
      with some have "fast_forward r (write_idx r) = base + i"
        by (simp add: fast_forward_def kf)
      with some True w show ?thesis
        by (intro keyframe) auto
    next
      case False
      have "\<not> is_video_keyframe (fst (h ! (s - base)))"
        if "base \<le> s" "s < write_idx r" "write_idx r - s < capacity r" for s
        using some(2) some(5) [of "s - base"] False that w by fastforce
      moreover from False have "fast_forward r (write_idx r) = write_idx r"
        by (simp add: fast_forward_def kf)
      ultimately show ?thesis by (intro live) auto
    qed
  qed
qed

subsection \<open>A grown ring continues the history\<close>

text \<open>
  What the copy loop has established after the sequences below \<open>idx\<close>: the retained entries
  from \<open>lo\<close> on sit in their slots, every other slot is still empty.
\<close>

definition seeded :: "nat \<Rightarrow> history \<Rightarrow> nat \<Rightarrow> nat \<Rightarrow> nat \<Rightarrow> ring_buffer \<times> nat \<times> nat \<Rightarrow> bool" where
  "seeded base h lo w idx = (\<lambda>(r, copied, kf).
     0 < capacity r \<and> length (slots r) = capacity r \<and> w - lo < capacity r \<and> copied = idx - lo \<and>
     kf = last_kf lo (take (idx - lo) (drop (lo - base) h)) \<and>
     (\<forall>s. lo \<le> s \<and> s < idx \<longrightarrow> slot_holds (slot_at r s) (h ! (s - base)) s) \<and>
     (\<forall>i < capacity r. (\<forall>s. lo \<le> s \<and> s < idx \<longrightarrow> s mod capacity r \<noteq> i) \<longrightarrow> slot_empty (slots r ! i)))"

lemma seed_step_skip: "read_at old idx = None \<Longrightarrow> seed_step now old idx st = st"
  by (cases st) (simp add: seed_step_def)

lemma seed_step_seeded:
  assumes st: "seeded base h lo w idx st" and idx: "lo \<le> idx" "idx < w" "w = base + length h" "base \<le> lo"
    and read: "read_at old idx = Some (fst (h ! (idx - base)))"
    and unit: "slot_unit (slot_at old idx) = pack \<lparr>config_generation = snd (h ! (idx - base))\<rparr> idx"
  shows "seeded base h lo w (Suc idx) (seed_step now old idx st)"
proof -
  obtain r copied kf where st_eq: "st = (r, copied, kf)" by (cases st)
  let ?cap = "capacity r" and ?e = "h ! (idx - base)"
  from st st_eq have cap: "0 < ?cap" "length (slots r) = ?cap" "w - lo < ?cap"
    and holds: "\<And>s. lo \<le> s \<Longrightarrow> s < idx \<Longrightarrow> slot_holds (slot_at r s) (h ! (s - base)) s"
    and empty: "\<And>i. i < ?cap \<Longrightarrow> (\<And>s. lo \<le> s \<Longrightarrow> s < idx \<Longrightarrow> s mod ?cap \<noteq> i) \<Longrightarrow> slot_empty (slots r ! i)"
    and ck: "copied = idx - lo" "kf = last_kf lo (take (idx - lo) (drop (lo - base) h))"
    by (auto simp: seeded_def)
  let ?slot = "(slots r ! (idx mod ?cap))\<lparr>slot_published_at_us := max (now idx) 1, slot_data := Some (fst ?e),
      slot_unit := slot_unit (slot_at old idx)\<rparr>"
  let ?r = "r\<lparr>slots := (slots r)[idx mod ?cap := ?slot]\<rparr>"
  have step: "seed_step now old idx st = (?r, copied + 1, if is_video_keyframe (fst ?e) then idx else kf)"
    by (simp add: seed_step_def st_eq read)
  have tk: "take (Suc idx - lo) (drop (lo - base) h) = take (idx - lo) (drop (lo - base) h) @ [?e]"
    using idx by (simp add: Suc_diff_le take_Suc_conv_app_nth)
  have "slot_holds (slot_at ?r s) (h ! (s - base)) s" if "lo \<le> s" "s < Suc idx" for s
  proof (cases "s = idx")
    case True
    then show ?thesis using cap unit by (simp add: slot_at_def slot_holds_def)
  next
    case False
    with that idx cap have "s mod ?cap \<noteq> idx mod ?cap"
      by (intro mod_window_neq) auto
    with holds [of s] that False show ?thesis by (simp add: slot_at_def)
  qed
  moreover have "slot_empty (slots ?r ! i)"
    if i: "i < ?cap" and none: "\<And>s. lo \<le> s \<Longrightarrow> s < Suc idx \<Longrightarrow> s mod ?cap \<noteq> i" for i
    using empty [OF i] none [of idx] none idx(1) by auto
  moreover have "length (take (idx - lo) (drop (lo - base) h)) = idx - lo"
    using idx by simp
  ultimately show ?thesis
    using cap ck idx(1) unfolding step seeded_def tk last_kf_snoc by (auto simp: Suc_diff_le)
qed

lemma seed_fold_skip:
  "(\<And>i. i \<in> set is \<Longrightarrow> read_at old i = None) \<Longrightarrow> fold (seed_step now old) is st = st"
  by (induction "is" arbitrary: st) (simp_all add: seed_step_skip)

lemma seed_fold_seeded:
  assumes "lo \<le> idx" "idx \<le> w" "seeded base h lo w lo st" "w = base + length h" "base \<le> lo"
    and "\<And>i. lo \<le> i \<Longrightarrow> i < w \<Longrightarrow> read_at old i = Some (fst (h ! (i - base))) \<and>
      slot_unit (slot_at old i) = pack \<lparr>config_generation = snd (h ! (i - base))\<rparr> i"
  shows "seeded base h lo w idx (fold (seed_step now old) [lo..<idx] st)"
  using assms(1,2)
proof (induction idx rule: dec_induct)
  case base
  then show ?case using assms(3) by simp
next
  case (step n)
  then show ?case
    using seed_step_seeded [OF step.IH, of old now] assms(4-6) by auto
qed

lemma seeded_start:
  assumes "0 < cap" and "w - lo < cap"
  shows "seeded base h lo w lo (begin_write (new_continuing cap w) w', 0, usize_MAX)"
  using assms
  by (auto simp: seeded_def new_continuing_def RingBuffer_new_def begin_write_def slot_empty_def RingSlot_new_def)

lemma seed_fold_frame:
  assumes "fold (seed_step now old) is (r, c, k) = (r', c', k')"
  shows "capacity r' = capacity r \<and> write_begin r' = write_begin r \<and>
    last_keyframe_idx r' = last_keyframe_idx r \<and> track_configs r' = track_configs r"
  using assms
  by (induction "is" arbitrary: r c k) (force simp: seed_step_def split: option.splits)+

lemma seed_fold_result:
  assumes ok: "ring_ok old base h" and w: "w = write_idx old" and cap: "0 < cap"
    and tail: "tail = min (cap - 1) (capacity old - 1)" "tail \<le> 2 ^ 31" and lo: "lo = max base (w - tail)"
  shows "seeded base h lo w w
    (fold (seed_step now old) [w - tail..<w] (begin_write (new_continuing cap w) w, 0, usize_MAX))"
proof -
  have wh: "w = base + length h" "0 < capacity old"
    using ok w by (auto simp: ring_ok_def ring_core_def)
  have lo_le: "lo \<le> w" "w - tail \<le> lo" "base \<le> lo" using lo wh by auto
  have "read_at old i = None" if "i \<in> set [w - tail..<lo]" for i
  proof -
    from that have i: "w - tail \<le> i" "i < lo" by auto
    with lo have "i < base" by auto
    moreover from i tail(2) lo_le w have "i < write_idx old" "write_idx old \<le> i + 2 ^ 31"
      by linarith+
    ultimately show ?thesis
      by (subst read_at_history [OF ok]) (auto simp: retained_def)
  qed
  then have skip: "fold (seed_step now old) [w - tail..<lo] st = st" for st
    by (rule seed_fold_skip)
  have "[w - tail..<w] = [w - tail..<lo] @ [lo..<w]"
    using lo_le by (metis upt_add_eq_append le_add_diff_inverse)
  moreover have "seeded base h lo w w
      (fold (seed_step now old) [lo..<w] (begin_write (new_continuing cap w) w, 0, usize_MAX))"
  proof (rule seed_fold_seeded [OF lo_le(1) le_refl seeded_start wh(1) lo_le(3)])
    fix i assume i: "lo \<le> i" "i < w"
    then have ret: "retained (capacity old) base (write_idx old) i"
      unfolding retained_def using lo_le tail(1) w wh by linarith
    from i tail(2) lo_le w have "i < write_idx old" "write_idx old \<le> i + 2 ^ 31"
      by linarith+
    with ret have "read_at old i = Some (fst (h ! (i - base)))"
      by (subst read_at_history [OF ok]) auto
    with ring_ok_slot [OF ok ret] show "read_at old i = Some (fst (h ! (i - base))) \<and>
        slot_unit (slot_at old i) = pack \<lparr>config_generation = snd (h ! (i - base))\<rparr> i"
      by (simp add: slot_holds_def)
  qed (use cap tail(1) lo_le in linarith)+
  ultimately show ?thesis by (simp add: skip)
qed

lemma seed_readable_tail_ring_ok:
  assumes ok: "ring_ok old base h" and cap: "0 < cap"
    and tail: "tail = min (cap - 1) (capacity old - 1)" "tail \<le> 2 ^ 31"
    and lo: "lo = max base (write_idx old - tail)"
    and seed: "seed_readable_tail_from now old (new_continuing cap (write_idx old)) = (copied, r)"
  shows "ring_ok r lo (drop (lo - base) h) \<and> copied = write_idx old - lo \<and> capacity r = cap \<and>
    track_configs r = track_configs old"
proof -
  let ?w = "write_idx old" and ?new = "new_continuing cap (write_idx old)"
  obtain r' c' k' where fold: "fold (seed_step now old) [?w - tail..<?w] (begin_write ?new ?w, 0, usize_MAX) = (r', c', k')"
    by (metis prod_cases3)
  have wh: "?w = base + length h" and wf: "configs_wf (track_configs old)"
    using ok by (auto simp: ring_ok_def ring_core_def)
  have capnew: "capacity ?new = cap" "last_keyframe_idx ?new = usize_MAX" "track_configs ?new = TrackConfigs_new"
    by (simp_all add: new_continuing_def RingBuffer_new_def)
  have fr: "capacity r' = cap" "write_begin r' = ?w" "last_keyframe_idx r' = usize_MAX"
      "track_configs r' = TrackConfigs_new"
    using seed_fold_frame [OF fold] capnew by (auto simp: begin_write_def)
  have sd: "seeded base h lo ?w ?w (r', c', k')"
    using seed_fold_result [OF ok refl cap tail lo, of now] unfolding fold .
  have lens: "lo + length (drop (lo - base) h) = ?w" "take (?w - lo) (drop (lo - base) h) = drop (lo - base) h"
    using lo wh by auto
  have cfg: "config_copy_from TrackConfigs_new (track_configs old) = track_configs old"
    using wf configs_wf_new by (simp add: config_copy_from_eq)
  have r: "r = (if k' \<noteq> usize_MAX then r'\<lparr>last_keyframe_idx := k'\<rparr> else r')
      \<lparr>track_configs := track_configs old, write_idx := ?w\<rparr>" and copied: "copied = c'"
    using seed fold fr(4) cfg unfolding seed_readable_tail_from_def Let_def capnew tail(1)
    by (auto split: if_splits)
  have ret: "retained cap lo ?w s \<longleftrightarrow> lo \<le> s \<and> s < ?w" for s
    using sd fr by (auto simp: seeded_def retained_def)
  have rf: "capacity r = cap" "write_idx r = ?w" "write_begin r = ?w" "slots r = slots r'"
      "track_configs r = track_configs old" "last_keyframe_idx r = k'"
    using fr unfolding r by simp_all
  from sd fr lens(2) have sr: "length (slots r) = cap" "c' = ?w - lo" "k' = last_kf lo (drop (lo - base) h)"
    and holds: "\<And>s. lo \<le> s \<Longrightarrow> s < ?w \<Longrightarrow> slot_holds (slot_at r s) (h ! (s - base)) s"
    and empty: "\<And>i. i < cap \<Longrightarrow> (\<And>s. lo \<le> s \<Longrightarrow> s < ?w \<Longrightarrow> s mod cap \<noteq> i) \<Longrightarrow> slot_empty (slots r ! i)"
    by (auto simp: seeded_def slot_at_def rf(1,4))
  have "base \<le> lo" using lo by simp
  then have nth: "lo \<le> s \<Longrightarrow> s < ?w \<Longrightarrow> drop (lo - base) h ! (s - lo) = h ! (s - base)" for s
    using wh by (subst nth_drop) auto
  have "ring_core r lo (drop (lo - base) h)"
    unfolding ring_core_def rf(1-3,5,6) lens(1) ret
    using cap sr wf holds empty nth by auto
  then show ?thesis
    using rf sr(2) copied lens(1) by (simp add: ring_ok_def)
qed

end
