(* ===== verification/Ring_Ops.thy ===== *)
theory Ring_Ops
  imports Ring_Buffer
begin

text \<open>
  The producer's side of a ring as a sequence of operations, and what holds after any such
  sequence: the history is what was published, a batch is its packets pushed one by one with
  a single wake, and a packet's configuration resolves to the bytes in force when it was
  published. \<open>follow\<close> is \<open>VideoConfigFollower\<close> of
  \<open>crates/restream-sync/src/frame_units.rs\<close>.
\<close>

subsection \<open>Producer operations\<close>

datatype ring_op =
    Push nat media_packet
  | Push_Batch nat "media_packet list"
  | Push_Drained "nat \<Rightarrow> nat" "media_packet list"
  | Set_Track_Config media_type nat bytes
  | Set_Codec_Hint string
  | Set_Audio_Tracks "audio_meta list"
  | Remove_Video_Track
  | Mark_End_Of_Stream

fun apply_ring_op :: "ring_op \<Rightarrow> ring_buffer \<Rightarrow> ring_buffer" where
  "apply_ring_op (Push now p) r = push now p r"
| "apply_ring_op (Push_Batch now ps) r = snd (push_batch now ps r)"
| "apply_ring_op (Push_Drained clock ps) r = snd (push_drained_batch_capped clock ps r)"
| "apply_ring_op (Set_Track_Config mt track bs) r = snd (set_track_config r mt track bs)"
| "apply_ring_op (Set_Codec_Hint codec) r = set_codec_hint r codec"
| "apply_ring_op (Set_Audio_Tracks tracks) r = set_audio_tracks r tracks"
| "apply_ring_op Remove_Video_Track r = remove_video_track r"
| "apply_ring_op Mark_End_Of_Stream r = mark_end_of_stream r"

abbreviation run_ring_ops :: "ring_op list \<Rightarrow> ring_buffer \<Rightarrow> ring_buffer" where
  "run_ring_ops ops r \<equiv> fold apply_ring_op ops r"

fun op_packets :: "ring_op \<Rightarrow> media_packet list" where
  "op_packets (Push _ p) = [p]"
| "op_packets (Push_Batch _ ps) = ps"
| "op_packets (Push_Drained _ ps) = ps"
| "op_packets _ = []"

abbreviation published :: "ring_op list \<Rightarrow> media_packet list" where
  "published ops \<equiv> concat (map op_packets ops)"

text \<open>The configuration changes an operation makes.\<close>

fun op_configs :: "ring_op \<Rightarrow> config_op list" where
  "op_configs (Set_Track_Config mt track bs) = (if bs = [] then [] else [Config_Set mt track bs])"
| "op_configs (Set_Audio_Tracks tracks) =
     map (Config_Clear Audio) (filter (\<lambda>track. \<not> (\<exists>t \<in> set tracks. am_track_index t = track))
       [0..<CONFIG_TRACKS_PER_TYPE])"
| "op_configs Remove_Video_Track = [Config_Clear Video 0]"
| "op_configs _ = []"

subsection \<open>Draining is publishing\<close>

lemma push_batch_with_frame:
  "capacity (snd (push_batch now ps r)) = capacity r"
  "track_configs (snd (push_batch now ps r)) = track_configs r"
proof -
  have "capacity r' = capacity r \<and> track_configs r' = track_configs r"
    if "batch_loop (\<lambda>r p. r) t idx ps r = (r', n, b)" for t idx r' n b
    using that
  proof (induction ps arbitrary: idx r r' n b)
    case (Cons p ps)
    from Cons.prems obtain n' b' where "batch_loop (\<lambda>r p. r) t (idx + 1) ps (store_packet r t idx p) = (r', n', b')"
      by (auto simp: Let_def split: prod.splits)
    from Cons.IH [OF this] show ?case by simp
  qed simp
  then show "capacity (snd (push_batch now ps r)) = capacity r"
    "track_configs (snd (push_batch now ps r)) = track_configs r"
    by (auto simp: push_batch_def push_batch_with_def Let_def add_published_bytes_def split: prod.splits)
qed

lemma push_drained_unfold:
  "push_drained_with (\<lambda>r p. r) clock acc ps r =
     (if ps = [] then (acc, r)
      else push_drained_with (\<lambda>r p. r) clock (acc + length (take MEDIA_PRODUCER_BATCH_PACKETS ps))
             (drop MEDIA_PRODUCER_BATCH_PACKETS ps)
             (snd (push_batch (clock acc) (take MEDIA_PRODUCER_BATCH_PACKETS ps) r)))"
proof -
  have "push_batch_with (\<lambda>r p. r) now qs r = (length qs, snd (push_batch now qs r))" for now qs r
    using push_batch_with_count [of "\<lambda>r p. r" now qs r] by (simp add: push_batch_def prod_eq_iff)
  moreover have "snd (push_batch now [] r) = r" for now r
    by (simp add: push_batch_def push_batch_with_def)
  ultimately show ?thesis
    by (subst push_drained_with.simps) (cases ps; simp add: MEDIA_PRODUCER_BATCH_PACKETS_def)
qed

lemma push_drained_ring_ok:
  assumes "ring_ok r base h" and "push_drained_with (\<lambda>r p. r) clock acc ps r = (n, r')"
  shows "ring_ok r' base (h @ map (\<lambda>p. (p, packet_generation r p)) ps) \<and> n = acc + length ps \<and>
    capacity r' = capacity r \<and> track_configs r' = track_configs r"
  using assms
proof (induction "length ps" arbitrary: acc ps r h rule: less_induct)
  case less
  show ?case
  proof (cases "ps = []")
    case True
    with less.prems show ?thesis by (simp add: push_drained_unfold)
  next
    case False
    let ?k = MEDIA_PRODUCER_BATCH_PACKETS
    let ?r = "snd (push_batch (clock acc) (take ?k ps) r)"
    have shorter: "length (drop ?k ps) < length ps"
      using False by (simp add: MEDIA_PRODUCER_BATCH_PACKETS_def)
    have gen: "packet_generation ?r = packet_generation r"
      by (simp add: fun_eq_iff packet_generation_def push_batch_with_frame)
    from less.prems False
    have "push_drained_with (\<lambda>r p. r) clock (acc + length (take ?k ps)) (drop ?k ps) ?r = (n, r')"
      by (simp add: push_drained_unfold [of clock acc ps])
    from less.hyps [OF shorter ring_ok_push_batch [OF less.prems(1)] this]
    show ?thesis
      by (simp add: gen push_batch_with_frame map_append [symmetric] del: map_append)
  qed
qed

subsection \<open>Operations extend the history\<close>

lemma set_audio_tracks_configs:
  "fold (\<lambda>track tc. if \<exists>t \<in> set tracks. am_track_index t = track then tc else config_clear tc Audio track) is tc =
   run_config_ops (map (Config_Clear Audio) (filter (\<lambda>track. \<not> (\<exists>t \<in> set tracks. am_track_index t = track)) is)) tc"
  by (induction "is" arbitrary: tc) auto

lemma apply_ring_op_configs:
  assumes "ring_ok r base h"
  shows "track_configs (apply_ring_op op r) = run_config_ops (op_configs op) (track_configs r)"
proof (cases op)
  case (Push_Drained clock ps)
  then show ?thesis
    using push_drained_ring_ok [OF assms, of clock 0 ps]
    by (auto simp: push_drained_batch_capped_def prod_eq_iff)
qed (auto simp: push_def push_batch_with_frame set_track_config_def set_codec_hint_def Let_def
      set_audio_tracks_def set_audio_tracks_configs remove_video_track_def mark_end_of_stream_def
      add_published_bytes_def split: prod.splits)

lemma ring_ok_configs:
  "ring_ok r base h \<Longrightarrow> configs_wf tc \<Longrightarrow> ring_ok (r\<lparr>track_configs := tc\<rparr>) base h"
  by (simp add: ring_ok_def ring_core_configs)

lemma ring_ok_frame [simp]:
  "ring_ok (wake_publication_subscribers r) base h \<longleftrightarrow> ring_ok r base h"
  "ring_ok (wake_metadata_subscribers r) base h \<longleftrightarrow> ring_ok r base h"
  "ring_ok (notify_waiters r) base h \<longleftrightarrow> ring_ok r base h"
  "ring_ok (r\<lparr>codec_hint := c\<rparr>) base h \<longleftrightarrow> ring_ok r base h"
  "ring_ok (r\<lparr>initial_codec_hint := ic\<rparr>) base h \<longleftrightarrow> ring_ok r base h"
  "ring_ok (r\<lparr>audio_tracks := a\<rparr>) base h \<longleftrightarrow> ring_ok r base h"
  "ring_ok (r\<lparr>end_of_stream := e\<rparr>) base h \<longleftrightarrow> ring_ok r base h"
  by (simp_all add: ring_ok_def) (simp add: ring_core_def slot_at_def)

lemma push_capacity: "capacity (push now p r) = capacity r"
  by (simp add: push_def Let_def add_published_bytes_def)

lemma ring_ok_apply:
  assumes "ring_ok r base h"
  shows "ring_ok (apply_ring_op op r) base (h @ map (\<lambda>p. (p, packet_generation r p)) (op_packets op))"
    and "capacity (apply_ring_op op r) = capacity r"
proof -
  have wf: "configs_wf (track_configs r)" using assms by (auto simp: ring_ok_def ring_core_def)
  have "ring_ok (apply_ring_op op r) base (h @ map (\<lambda>p. (p, packet_generation r p)) (op_packets op))
      \<and> capacity (apply_ring_op op r) = capacity r"
  proof (cases op)
    case (Push now p)
    then show ?thesis using ring_ok_push [OF assms] by (simp add: push_capacity)
  next
    case (Push_Drained clock ps)
    then show ?thesis
      using push_drained_ring_ok [OF assms, of clock 0 ps]
      by (auto simp: push_drained_batch_capped_def prod_eq_iff)
  next
    case (Set_Track_Config mt track bs)
    then show ?thesis
      using assms configs_wf_set [OF wf, of mt track bs]
      by (auto simp: set_track_config_def Let_def intro: ring_ok_configs split: prod.splits)
  next
    case (Set_Audio_Tracks tracks)
    then show ?thesis
      using assms configs_wf_run [OF wf]
      by (auto simp: set_audio_tracks_def set_audio_tracks_configs intro!: ring_ok_configs)
  next
    case Remove_Video_Track
    then show ?thesis
      using assms configs_wf_clear [OF wf]
      by (auto simp: remove_video_track_def intro!: ring_ok_configs)
  qed (use assms in \<open>auto simp: ring_ok_push_batch push_batch_with_frame set_codec_hint_def
      mark_end_of_stream_def Let_def\<close>)
  then show "ring_ok (apply_ring_op op r) base (h @ map (\<lambda>p. (p, packet_generation r p)) (op_packets op))"
    and "capacity (apply_ring_op op r) = capacity r" by auto
qed

fun ops_entries :: "ring_op list \<Rightarrow> ring_buffer \<Rightarrow> history" where
  "ops_entries [] r = []"
| "ops_entries (op # ops) r =
     map (\<lambda>p. (p, packet_generation r p)) (op_packets op) @ ops_entries ops (apply_ring_op op r)"

lemma map_fst_ops_entries: "map fst (ops_entries ops r) = published ops"
  by (induction ops arbitrary: r) (simp_all add: comp_def)

lemma length_ops_entries: "length (ops_entries ops r) = length (published ops)"
  by (metis length_map map_fst_ops_entries)

lemma ring_ok_run:
  "ring_ok r base h \<Longrightarrow> ring_ok (run_ring_ops ops r) base (h @ ops_entries ops r) \<and>
     capacity (run_ring_ops ops r) = capacity r \<and>
     track_configs (run_ring_ops ops r) = run_config_ops (concat (map op_configs ops)) (track_configs r)"
proof (induction ops arbitrary: r h)
  case (Cons op ops)
  from Cons.IH [OF ring_ok_apply(1) [OF Cons.prems]] show ?case
    by (simp add: ring_ok_apply(2) [OF Cons.prems] apply_ring_op_configs [OF Cons.prems])
qed simp

lemma ring_ok_run_new:
  assumes "0 < cap"
  shows "ring_ok (run_ring_ops ops (RingBuffer_new cap)) 0 (ops_entries ops (RingBuffer_new cap))"
    and "capacity (run_ring_ops ops (RingBuffer_new cap)) = cap"
    and "write_idx (run_ring_ops ops (RingBuffer_new cap)) = length (published ops)"
  using ring_ok_run [OF ring_ok_new [OF assms], of ops]
  by (auto simp: RingBuffer_new_def ring_ok_def length_ops_entries)

lemmas configs_eval = config_get_def config_current_def config_set_def config_clear_def
  slot_set_def slot_clear_def slot_get_def config_slot_def media_type_index_def history_slot_def
  TrackConfigs_new_def TrackConfigSlot_new_def CONFIG_TRACKS_PER_TYPE_def CONFIG_HISTORY_def
  config_generation_of_def

lemmas ring_eval = push_def store_packet_def begin_write_def next_frame_unit_def add_published_bytes_def
  slot_at_def remove_video_track_def set_track_config_def RingBuffer_new_def RingSlot_new_def
  wake_publication_subscribers_def wake_metadata_subscribers_def notify_waiters_def sample_packet_def
  is_video_keyframe_def Let_def

text \<open>
  C6. Whatever a producer does with a new ring, reading a sequence answers the packet it
  published there while at most \<open>capacity\<close> packets were published from it on, and nothing once
  its slot was reused; a reused slot is recognised for every lag below two to the 31.
\<close>

theorem read_at_published:
  assumes "0 < cap" and "s < length (published ops)" and "length (published ops) \<le> s + 2 ^ 31"
  shows "read_at (run_ring_ops ops (RingBuffer_new cap)) s =
    (if length (published ops) \<le> s + cap then Some (published ops ! s) else None)"
proof -
  note ok = ring_ok_run_new [OF assms(1), of ops]
  have "published ops ! s = fst (ops_entries ops (RingBuffer_new cap) ! s)"
    using assms(2) by (metis length_ops_entries map_fst_ops_entries nth_map)
  with read_at_history [OF ok(1)] assms ok show ?thesis
    by (auto simp: retained_def)
qed

subsection \<open>A batch is its packets, with one wake\<close>

abbreviation publication_wakes :: "ring_buffer \<Rightarrow> ring_effect list" where
  "publication_wakes r \<equiv> Notify_Waiters # (case publish_subscribers r of None \<Rightarrow> [] | Some h \<Rightarrow> [Wake_Publication h])"

definition without_wakes :: "ring_buffer \<Rightarrow> ring_buffer" where
  "without_wakes r = r\<lparr>effects := []\<rparr>"

lemma without_wakes_frame [simp]:
  "without_wakes (wake_publication_subscribers r) = without_wakes r"
  "without_wakes (notify_waiters r) = without_wakes r"
  by (simp_all add: without_wakes_def wake_publication_subscribers_def notify_waiters_def split: option.splits)

lemma store_packet_comm:
  "store_packet (r\<lparr>published_bytes := b, write_idx := w\<rparr>) t idx p =
     (store_packet r t idx p)\<lparr>published_bytes := b, write_idx := w\<rparr>"
  "without_wakes (store_packet r t idx p) = store_packet (without_wakes r) t idx p"
  "published_bytes (store_packet r t idx p) = published_bytes r"
  "publish_subscribers (store_packet r t idx p) = publish_subscribers r"
  by (simp_all add: store_packet_def begin_write_def next_frame_unit_def without_wakes_def Let_def)

lemma without_wakes_push:
  "without_wakes (push now p r) = (store_packet (without_wakes r) (max now 1) (write_idx r) p)
     \<lparr>published_bytes := published_bytes r + of_nat (length (payload p)), write_idx := write_idx r + 1\<rparr>"
  by (simp add: push_def Let_def add_published_bytes_def store_packet_comm(3) store_packet_comm(2) [symmetric])
    (simp add: without_wakes_def)

lemma batch_loop_pushes:
  assumes "batch_loop (\<lambda>r p. r) (max now 1) idx ps r = (r', n, b)"
    and "without_wakes q = (without_wakes r)\<lparr>published_bytes := pb, write_idx := idx\<rparr>"
  shows "without_wakes (fold (push now) ps q) =
    (without_wakes r')\<lparr>published_bytes := pb + b, write_idx := idx + length ps\<rparr>"
  using assms
proof (induction ps arbitrary: idx r q r' n b pb)
  case (Cons p ps)
  let ?r = "store_packet r (max now 1) idx p"
  from Cons.prems(1) obtain n' b' where
    loop: "batch_loop (\<lambda>r p. r) (max now 1) (idx + 1) ps ?r = (r', n', b')"
    and b: "b = of_nat (length (payload p)) + b'"
    by (auto simp: Let_def split: prod.splits)
  have q: "write_idx q = idx" "published_bytes q = pb"
    using arg_cong [OF Cons.prems(2), of write_idx] arg_cong [OF Cons.prems(2), of published_bytes]
    by (simp_all add: without_wakes_def)
  have "without_wakes (push now p q) =
      (without_wakes ?r)\<lparr>published_bytes := pb + of_nat (length (payload p)), write_idx := idx + 1\<rparr>"
    by (simp add: without_wakes_push Cons.prems(2) q store_packet_comm)
  from Cons.IH [OF loop this] show ?case by (simp add: b add.assoc)
qed simp

lemma batch_loop_frame:
  "batch_loop (\<lambda>r p. r) t idx ps r = (r', n, b) \<Longrightarrow> published_bytes r' = published_bytes r \<and>
     effects r' = effects r \<and> publish_subscribers r' = publish_subscribers r"
  by (induction ps arbitrary: idx r r' n b) (fastforce simp: Let_def store_packet_comm split: prod.splits)+

text \<open>
  C11. Publishing a batch leaves the ring exactly as pushing its packets one at a time does,
  apart from the wakes: a non-empty batch wakes once, an empty one not at all.
\<close>

theorem push_batch_pushes:
  "without_wakes (snd (push_batch now ps r)) = without_wakes (fold (push now) ps r) \<and>
   fst (push_batch now ps r) = length ps \<and>
   effects (snd (push_batch now ps r)) = effects r @ (if ps = [] then [] else publication_wakes r)"
proof -
  obtain r' n b where loop: "batch_loop (\<lambda>r p. r) (max now 1) (write_idx r) ps r = (r', n, b)"
    by (metis prod_cases3)
  have n: "n = length ps" using batch_loop_count [OF loop] .
  have "without_wakes r = (without_wakes r)\<lparr>published_bytes := published_bytes r, write_idx := write_idx r\<rparr>"
    by (simp add: without_wakes_def)
  note eq = batch_loop_pushes [OF loop this] and fr = batch_loop_frame [OF loop]
  show ?thesis
  proof (cases "ps = []")
    case True
    then show ?thesis by (simp add: push_batch_def push_batch_with_def)
  next
    case False
    then have batch: "push_batch now ps r = (n, wake_publication_subscribers (notify_waiters
        (r'\<lparr>published_bytes := published_bytes r + b, write_idx := write_idx r + n\<rparr>)))"
      using loop n fr by (simp add: push_batch_def push_batch_with_def add_published_bytes_def)
    then have "without_wakes (snd (push_batch now ps r)) =
        (without_wakes r')\<lparr>published_bytes := published_bytes r + b, write_idx := write_idx r + length ps\<rparr>"
      unfolding n by (simp add: without_wakes_frame) (simp add: without_wakes_def)
    moreover have "effects (snd (push_batch now ps r)) = effects r @ publication_wakes r"
      using fr unfolding batch by (simp add: wake_publication_subscribers_def notify_waiters_def split: option.splits)
    ultimately show ?thesis using False batch n by (simp only: eq fst_conv) simp
  qed
qed

subsection \<open>The configuration of a packet\<close>

lemma current_retained:
  assumes "configs_wf tc" and "config_current tc mt track = Some c" and "generation c \<noteq> 0"
  obtains i where "config_slot mt track = Some i"
    and "slot_retains 0 (generation c) c (tc ! i)" and "config_generation_of tc mt track = generation c"
proof -
  from assms(2) obtain i where i: "config_slot mt track = Some i" and cur: "slot_current (tc ! i) = Some c"
    by (auto simp: config_current_def split: option.splits)
  from configs_wf_slot [OF assms(1) i] cur assms(3)
  have "slot_retains 0 (generation c) c (tc ! i)" "config_generation_of tc mt track = generation c"
    by (auto simp: slot_wf_def slot_retains_def slot_get_Some_iff config_generation_of_def i)
  with i show thesis by (rule that)
qed

text \<open>
  C5. A packet published under a configuration resolves to exactly that configuration, however
  the ring is used afterwards, as long as the packet is inside the readable window and the
  track's configuration has been changed at most three times since.
\<close>

theorem track_config_at_published:
  assumes "0 < cap" and r: "r = run_ring_ops before (RingBuffer_new cap)"
    and "track_config r (media_type p) (track_index p) = Some c" and "generation c \<noteq> 0"
    and "Suc (length (published after)) < cap"
    and "length (filter (config_op_on (media_type p) (track_index p)) (concat (map op_configs after))) \<le> 3"
  shows "track_config_at (run_ring_ops after (push now p r)) (length (published before))
    (media_type p) (track_index p) = Inr (Some c)"
proof -
  let ?h = "ops_entries before (RingBuffer_new cap)" and ?w = "length (published before)"
  note ok = ring_ok_run_new [OF assms(1), of before, folded r]
  let ?r1 = "push now p r" and ?e = "(p, packet_generation r p)"
  note ok1 = ring_ok_push [OF ok(1), of now p]
  note ok2 = ring_ok_run [OF ok1, of after]
  let ?r2 = "run_ring_ops after ?r1"
  have len: "length ?h = ?w" by (rule length_ops_entries)
  have wf: "configs_wf (track_configs r)" using ok(1) by (auto simp: ring_ok_def ring_core_def)
  obtain i where i: "config_slot (media_type p) (track_index p) = Some i"
    and ret: "slot_retains 0 (generation c) c (track_configs r ! i)"
    and gen: "packet_generation r p = generation c"
    using current_retained [OF wf assms(3) [unfolded track_config_def] assms(4)]
    by (auto simp: packet_generation_def)
  have tc1: "track_configs ?r1 = track_configs r"
    using apply_ring_op_configs [OF ok(1), of "Push now p"] by simp
  have "frame_unit_at ?r2 ?w = Some \<lparr>config_generation = generation c\<rparr>"
    using ok2 assms(5) ok(2) len
    by (subst frame_unit_history [of _ 0 "(?h @ [?e]) @ ops_entries after ?r1"])
      (auto simp: ring_ok_def length_ops_entries push_capacity nth_append gen)
  moreover have "config_get (track_configs ?r2) (media_type p) (track_index p) (generation c) = Some c"
    using run_config_ops_retains [OF wf i ret, of "concat (map op_configs after)"] ok2 assms(6) i
    by (simp add: config_get_def tc1 slot_retains_def)
  ultimately show ?thesis using assms(4) by (simp add: track_config_at_def)
qed

theorem read_at_published_witness:
  "read_at (run_ring_ops [Push 0 (sample_packet Video True 0), Push_Batch 5 [sample_packet Video False 1, sample_packet Audio False 1]]
     (RingBuffer_new 2)) 0 = None \<and>
   read_at (run_ring_ops [Push 0 (sample_packet Video True 0), Push_Batch 5 [sample_packet Video False 1, sample_packet Audio False 1]]
     (RingBuffer_new 2)) 1 = Some (sample_packet Video False 1)"
  using read_at_published [of 2 0 "[Push 0 (sample_packet Video True 0), Push_Batch 5 [sample_packet Video False 1, sample_packet Audio False 1]]"]
    read_at_published [of 2 1 "[Push 0 (sample_packet Video True 0), Push_Batch 5 [sample_packet Video False 1, sample_packet Audio False 1]]"]
  by simp

theorem track_config_at_published_witness:
  "track_config_at (run_ring_ops [Set_Track_Config Video 0 [8], Remove_Video_Track, Push 1 (sample_packet Video True 1)]
       (push 0 (sample_packet Video True 0) (run_ring_ops [Set_Track_Config Video 0 [7]] (RingBuffer_new 4)))) 0 Video 0
     = Inr (Some \<lparr>generation = 1, config_bytes = [7]\<rparr>)"
proof -
  have "track_config (run_ring_ops [Set_Track_Config Video 0 [7]] (RingBuffer_new 4)) Video 0
      = Some \<lparr>generation = 1, config_bytes = [7]\<rparr>"
    by (simp add: track_config_def set_track_config_def configs_eval RingBuffer_new_def Let_def)
  then show ?thesis
    using track_config_at_published [OF _ refl, of 4 "[Set_Track_Config Video 0 [7]]" "sample_packet Video True 0"
        "\<lparr>generation = 1, config_bytes = [7]\<rparr>"
        "[Set_Track_Config Video 0 [8], Remove_Video_Track, Push 1 (sample_packet Video True 1)]" 0]
    by (simp add: sample_packet_def)
qed

text \<open>
  Two limits of the retention. A track's generation also advances when its configuration is
  removed, so removals use up history: after three configurations with removals in between,
  the first is gone although the table keeps four. A packet published while the track has no
  configuration carries a generation that was never recorded, and resolves as not retained.
\<close>

lemma cleared_generations_use_history:
  "config_get (run_config_ops [Config_Set Video 0 [1], Config_Clear Video 0, Config_Set Video 0 [2],
      Config_Clear Video 0, Config_Set Video 0 [3]] TrackConfigs_new) Video 0 1 = None"
  by (simp add: configs_eval Let_def)

lemma unconfigured_packet_not_retained:
  "track_config_at (run_ring_ops [Set_Track_Config Video 0 [1], Remove_Video_Track,
      Push 0 (sample_packet Video True 0)] (RingBuffer_new 4)) 0 Video 0 = Inl Not_Retained"
  by (simp add: track_config_at_def frame_unit_at_def configs_eval ring_eval unpack_pack_self)

subsection \<open>Following another ring's video configuration\<close>

definition follow_config ::
    "(nat \<Rightarrow> nat) \<Rightarrow> track_config option \<Rightarrow> u32 \<Rightarrow> ring_buffer \<Rightarrow> media_packet list
      \<Rightarrow> u32 \<times> ring_buffer \<times> media_packet list" where
  "follow_config clock config g target pending =
     (case config of
        None \<Rightarrow> (g, target, pending)
      | Some c \<Rightarrow>
          if generation c = g then (g, target, pending)
          else (generation c,
                set_video_parameter_sets (snd (push_drained_batch_capped clock pending target)) (config_bytes c),
                []))"

text \<open>\<open>g\<close> is the follower's state: the source generation last copied into the target.\<close>

definition follow ::
    "(nat \<Rightarrow> nat) \<Rightarrow> ring_buffer \<Rightarrow> nat \<Rightarrow> u32 \<Rightarrow> ring_buffer \<Rightarrow> media_packet list
      \<Rightarrow> u32 \<times> ring_buffer \<times> media_packet list" where
  "follow clock source sequence g target pending =
     (case frame_unit_at source sequence of
        Some u \<Rightarrow>
          if config_generation u = g then (g, target, pending)
          else follow_config clock
            (case track_config_at source sequence Video 0 of
               Inr config \<Rightarrow> config | Inl Not_Retained \<Rightarrow> video_config source) g target pending
      | None \<Rightarrow> follow_config clock (video_config source) g target pending)"

lemma set_video_parameter_sets_current:
  assumes "configs_wf (track_configs r)" and "bs \<noteq> []"
  shows "map_option config_bytes (video_config (set_video_parameter_sets r bs)) = Some bs"
proof -
  have i: "config_slot Video 0 = Some 0"
    by (simp add: config_slot_def media_type_index_def CONFIG_TRACKS_PER_TYPE_def)
  obtain g slot' where set: "slot_set (track_configs r ! 0) bs = (g, slot')"
    by (metis surj_pair)
  from configs_wf_slot [OF assms(1) i] slot_set_result(1) [OF set] assms(2) set i show ?thesis
    by (simp add: video_config_def track_config_def config_current_def set_video_parameter_sets_def
        set_track_config_def config_set_def Let_def)
qed

text \<open>
  C20. When the source packet carries a configuration the follower has not copied yet, the
  packets queued ahead of it are published under the target's old configuration, and from then
  on the target's configuration is the source packet's.
\<close>

theorem follow_copies:
  assumes "ring_ok target base h" and "track_config_at source s Video 0 = Inr (Some c)"
    and "generation c \<noteq> g" and "config_bytes c \<noteq> []"
    and "follow clock source s g target pending = (g', target', pending')"
  shows "ring_ok target' base (h @ map (\<lambda>p. (p, packet_generation target p)) pending) \<and>
    map_option config_bytes (video_config target') = Some (config_bytes c) \<and>
    g' = generation c \<and> pending' = []"
proof -
  from assms(2) obtain u where u: "frame_unit_at source s = Some u"
      and get: "config_get (track_configs source) Video 0 (config_generation u) = Some c"
    by (auto simp: track_config_at_def split: option.splits if_splits)
  then have "generation c = config_generation u"
    by (auto simp: config_get_def slot_get_Some_iff split: option.splits)
  with assms u have res: "g' = generation c" "pending' = []"
      "target' = set_video_parameter_sets (apply_ring_op (Push_Drained clock pending) target) (config_bytes c)"
    by (auto simp: follow_def follow_config_def)
  note ok = ring_ok_apply(1) [OF assms(1), of "Push_Drained clock pending"]
  then have "configs_wf (track_configs (apply_ring_op (Push_Drained clock pending) target))"
    by (auto simp: ring_ok_def ring_core_def)
  from set_video_parameter_sets_current [OF this assms(4)]
    ring_ok_apply(1) [OF ok, of "Set_Track_Config Video 0 (config_bytes c)"]
  show ?thesis unfolding res by (simp add: set_video_parameter_sets_def)
qed

theorem follow_copies_witness:
  "map_option config_bytes (video_config (fst (snd (follow (\<lambda>_. 0)
     (push 0 (sample_packet Video True 0) (run_ring_ops [Set_Track_Config Video 0 [7]] (RingBuffer_new 4))) 0 0
     (RingBuffer_new 4) [sample_packet Video False 0])))) = Some [7]"
proof -
  let ?s = "push 0 (sample_packet Video True 0) (run_ring_ops [Set_Track_Config Video 0 [7]] (RingBuffer_new 4))"
  have at: "track_config_at ?s 0 Video 0 = Inr (Some \<lparr>generation = 1, config_bytes = [7]\<rparr>)"
    by (simp add: track_config_at_def frame_unit_at_def configs_eval ring_eval unpack_pack_self)
  have "ring_ok (RingBuffer_new 4) 0 []" by (rule ring_ok_new) simp
  from follow_copies [OF this at, of 0 "\<lambda>_. 0" "[sample_packet Video False 0]"] show ?thesis
    by (cases "follow (\<lambda>_. 0) ?s 0 0 (RingBuffer_new 4) [sample_packet Video False 0]") auto
qed

subsection \<open>Growing a ring\<close>

text \<open>
  C17. A ring grown from another answers every sequence of the copied tail exactly as the old
  ring does, packet and frame unit, and continues its write index and configurations.
\<close>

theorem seed_readable_tail_reads:
  assumes "ring_ok old base h" and "0 < cap" and "capacity old \<le> 2 ^ 31"
    and "seed_readable_tail_from now old (new_continuing cap (write_idx old)) = (copied, r)"
    and "s < write_idx old" and "write_idx old - s < min cap (capacity old)"
  shows "read_at r s = read_at old s \<and> frame_unit_at r s = frame_unit_at old s \<and>
    write_idx r = write_idx old \<and> track_configs r = track_configs old"
proof -
  define tail where "tail = min (cap - 1) (capacity old - 1)"
  define lo where "lo = max base (write_idx old - tail)"
  have "tail \<le> 2 ^ 31" using assms(3) by (simp add: tail_def)
  from seed_readable_tail_ring_ok [OF assms(1,2) tail_def this lo_def assms(4)]
  have ok: "ring_ok r lo (drop (lo - base) h)" and cap: "capacity r = cap"
    and tc: "track_configs r = track_configs old"
    by auto
  have w: "write_idx r = write_idx old" "write_idx old = base + length h"
    using ok assms(1) by (auto simp: ring_ok_def lo_def)
  have far: "write_idx old \<le> s + 2 ^ 31" "write_idx old - s \<le> tail" "write_idx old - s < cap"
      "write_idx old - s < capacity old"
    using assms(2,3,6) by (auto simp: tail_def)
  have ret: "retained (capacity r) lo (write_idx r) s \<longleftrightarrow> base \<le> s"
      "retained (capacity old) base (write_idx old) s \<longleftrightarrow> base \<le> s"
    unfolding retained_def w(1) cap lo_def using far assms(5) by linarith+
  have nth: "drop (lo - base) h ! (s - lo) = h ! (s - base)" if "base \<le> s"
    using that far(2) w(2) assms(5) by (subst nth_drop) (auto simp: lo_def)
  have "slot_unit (slot_at r s) = slot_unit (slot_at old s) \<or> s < base"
    using ring_ok_slot [OF ok, of s] ring_ok_slot [OF assms(1), of s] ret nth
    by (auto simp: slot_holds_def)
  moreover have "unpack (slot_unit (slot_at r s)) s = None \<and> unpack (slot_unit (slot_at old s)) s = None"
    if "s < base"
    using that ring_ok_unit [OF ok, of s] ring_ok_unit [OF assms(1), of s] far(1) w(1) assms(5) ret
    by simp
  moreover have "read_at r s = read_at old s"
    using far(1) w(1) assms(5) nth ret
    by (simp add: read_at_history [OF ok] read_at_history [OF assms(1)])
  ultimately show ?thesis
    using w tc far cap by (auto simp: frame_unit_at_def not_less)
qed

theorem seed_readable_tail_reads_witness:
  "read_at (snd (seed_readable_tail_from (\<lambda>_. 0)
      (run_ring_ops [Push 0 (sample_packet Video True 0), Push 0 (sample_packet Audio False 1)] (RingBuffer_new 4))
      (new_continuing 8 2))) 1 = Some (sample_packet Audio False 1)"
proof -
  let ?ops = "[Push 0 (sample_packet Video True 0), Push 0 (sample_packet Audio False 1)]"
  let ?old = "run_ring_ops ?ops (RingBuffer_new 4)"
  have ok: "ring_ok ?old 0 (ops_entries ?ops (RingBuffer_new 4))" and w: "write_idx ?old = 2" and cap: "capacity ?old = 4"
    using ring_ok_run_new [of 4 ?ops] by (simp_all only: ) simp_all
  have "read_at ?old 1 = Some (sample_packet Audio False 1)"
    by (simp add: read_at_def ring_eval configs_eval unpack_pack_self)
  then show ?thesis
    using seed_readable_tail_reads [OF ok, of 8 "\<lambda>_. 0" _ _ 1] w cap
    by (cases "seed_readable_tail_from (\<lambda>_. 0) ?old (new_continuing 8 2)") (auto simp del: fold_simps)
qed

end
