(* ===== verification/Ring_Reader.thy ===== *)
theory Ring_Reader
  imports Ring_Buffer
begin

text \<open>
  The ring reader of \<open>crates/restream-sync/src/reader.rs\<close>: where a reader starts, \<open>pull\<close> and
  \<open>pull_burst\<close>, the resynchronisation after an overflow, and the migration to a resized ring.

  What a reader delivers is specified on the history: \<open>deliver\<close> drops the video interframes
  that precede the first keyframe after an overflow and keeps everything else in order. The
  lemmas relate single pulls and bursts to it, show that the cursor never moves back, and that
  a burst is the same as that many pulls.
\<close>

subsection \<open>State\<close>

record reader_info =
  info_name :: string
  info_read_idx :: nat
  overflow_count :: u64
  burst_count :: u64
  packet_sum :: u64
  burst_hist :: "u64 list"

record reader =
  reader_buffer :: nat
  info :: reader_info
  read_idx :: nat
  migration_preroll_packets :: nat
  awaiting_keyframe :: bool

datatype overflow = Overflow

definition BURST_HIST_BUCKETS :: nat where
  "BURST_HIST_BUCKETS = 6"

definition burst_bucket :: "nat \<Rightarrow> nat" where
  "burst_bucket n =
     (if n = 1 then 0 else if n = 2 then 1 else if 3 \<le> n \<and> n \<le> 4 then 2
      else if 5 \<le> n \<and> n \<le> 8 then 3 else if 9 \<le> n \<and> n \<le> 16 then 4 else 5)"

definition ReaderInfo_new :: "string \<Rightarrow> nat \<Rightarrow> reader_info" where
  "ReaderInfo_new name idx =
     \<lparr>info_name = name, info_read_idx = idx, overflow_count = 0, burst_count = 0, packet_sum = 0,
      burst_hist = replicate BURST_HIST_BUCKETS 0\<rparr>"

text \<open>
  The median of \<open>burst_stats\<close>: the first bucket whose cumulative count reaches half the bursts,
  by its representative size. Bucket 0 when no bucket does.
\<close>

fun median_bucket :: "nat \<Rightarrow> nat \<Rightarrow> nat \<Rightarrow> nat list \<Rightarrow> nat" where
  "median_bucket half cumulative index [] = 0"
| "median_bucket half cumulative index (count # hist) =
     (if half \<le> cumulative + count then index
      else median_bucket half (cumulative + count) (index + 1) hist)"

definition burst_median :: "reader_info \<Rightarrow> nat" where
  "burst_median i =
     (let bucket = median_bucket (div_ceil (unat (burst_count i)) 2) 0 0 (map unat (burst_hist i))
      in if bucket = 0 then 1 else if bucket = 1 then 2 else if bucket = 2 then 3
         else if bucket = 3 then 6 else if bucket = 4 then 12 else 24)"

subsection \<open>Registration\<close>

text \<open>
  \<open>register\<close> creates the shared info and adds the reader (named by the handle \<open>rid\<close>) to the
  ring's list.
\<close>

definition register :: "nat \<Rightarrow> nat \<Rightarrow> string \<Rightarrow> nat \<Rightarrow> nat \<Rightarrow> ring_buffer \<Rightarrow> reader \<times> ring_buffer" where
  "register rid ring name start_idx preroll r =
     (\<lparr>reader_buffer = ring, info = ReaderInfo_new name start_idx, read_idx = start_idx,
       migration_preroll_packets = preroll, awaiting_keyframe = False\<rparr>,
      r\<lparr>readers := readers r @ [rid]\<rparr>)"

definition keyframe_preroll_start :: "ring_buffer \<Rightarrow> nat \<Rightarrow> nat" where
  "keyframe_preroll_start r preroll =
     (let current_write = write_idx r;
          keyframe_start = fast_forward r current_write;
          oldest_available = current_write - (capacity r - 1)
      in if keyframe_start < current_write
         then max (keyframe_start - preroll) oldest_available
         else keyframe_start)"

definition Reader_new :: "nat \<Rightarrow> nat \<Rightarrow> string \<Rightarrow> ring_buffer \<Rightarrow> reader \<times> ring_buffer" where
  "Reader_new rid ring name r = register rid ring name (fast_forward r (write_idx r)) 0 r"

definition new_with_keyframe_preroll ::
    "nat \<Rightarrow> nat \<Rightarrow> string \<Rightarrow> nat \<Rightarrow> ring_buffer \<Rightarrow> reader \<times> ring_buffer" where
  "new_with_keyframe_preroll rid ring name preroll r =
     register rid ring name (keyframe_preroll_start r preroll) 0 r"

definition new_stage_input ::
    "nat \<Rightarrow> nat \<Rightarrow> string \<Rightarrow> nat \<Rightarrow> ring_buffer \<Rightarrow> reader \<times> ring_buffer" where
  "new_stage_input rid ring name preroll r =
     register rid ring name (keyframe_preroll_start r preroll) preroll r"

definition new_live :: "nat \<Rightarrow> nat \<Rightarrow> string \<Rightarrow> ring_buffer \<Rightarrow> reader \<times> ring_buffer" where
  "new_live rid ring name r = register rid ring name (write_idx r) 0 r"

definition set_read_idx :: "reader \<Rightarrow> nat \<Rightarrow> reader" where
  "set_read_idx rd i = rd\<lparr>read_idx := i, info := (info rd)\<lparr>info_read_idx := i\<rparr>\<rparr>"

definition is_caught_up_to_end_of_stream :: "ring_buffer \<Rightarrow> reader \<Rightarrow> bool" where
  "is_caught_up_to_end_of_stream r rd \<longleftrightarrow> end_of_stream r \<and> write_idx r = read_idx rd"

definition lag :: "ring_buffer \<Rightarrow> reader \<Rightarrow> nat" where
  "lag r rd = write_idx r - read_idx rd"

subsection \<open>Pulling\<close>

definition resync :: "ring_buffer \<Rightarrow> nat \<Rightarrow> reader \<Rightarrow> reader" where
  "resync r w rd =
     (let rd = set_read_idx rd (fast_forward r w)
      in rd\<lparr>info := (info rd)\<lparr>overflow_count := overflow_count (info rd) + 1\<rparr>,
            awaiting_keyframe := True\<rparr>)"

definition lags_a_lap :: "ring_buffer \<Rightarrow> nat \<Rightarrow> reader \<Rightarrow> bool" where
  "lags_a_lap r w rd \<longleftrightarrow> read_idx rd < w \<and> capacity r \<le> w - read_idx rd"

text \<open>\<open>pull\<close> loops over skipped interframes; \<open>None\<close> would be a loop that does not return.\<close>

partial_function (option) pull ::
    "ring_buffer \<Rightarrow> reader \<Rightarrow> ((overflow + media_packet option) \<times> reader) option" where
  "pull r rd =
     (if read_idx rd = write_idx r then Some (Inr None, rd)
      else
        case (if lags_a_lap r (write_idx r) rd then None else read_at r (read_idx rd)) of
          None \<Rightarrow> Some (Inl Overflow, resync r (write_idx r) rd)
        | Some packet \<Rightarrow>
            let rd = set_read_idx rd (read_idx rd + 1)
            in if awaiting_keyframe rd \<and> is_video_interframe packet then pull r rd
               else Some (Inr (Some packet),
                 if awaiting_keyframe rd
                 then rd\<lparr>awaiting_keyframe := \<not> is_video_keyframe packet\<rparr> else rd))"

text \<open>\<open>load\<close> pushes \<open>n\<close> packets from \<open>start\<close> on, or stops at a slot that lost its packet.\<close>

fun load :: "ring_buffer \<Rightarrow> media_packet list \<Rightarrow> nat \<Rightarrow> nat \<Rightarrow> media_packet list \<times> nat option" where
  "load r output start 0 = (output, Some start)"
| "load r output start (Suc n) =
     (case read_at r start of
        None \<Rightarrow> (output, None)
      | Some p \<Rightarrow> load r (output @ [p]) (start + 1) n)"

text \<open>
  The loop of \<open>load_after_resync\<close> from \<open>sequence\<close>, with \<open>loaded\<close> packets pushed so far. It
  returns the output, the next sequence (\<open>None\<close> for a lost slot) and the awaiting flag.
\<close>

function load_after_resync ::
    "ring_buffer \<Rightarrow> nat \<Rightarrow> nat \<Rightarrow> bool \<Rightarrow> media_packet list \<Rightarrow> nat \<Rightarrow> nat
      \<Rightarrow> media_packet list \<times> nat option \<times> bool" where
  "load_after_resync r w max_packets awaiting output sequence loaded =
     (if sequence < w \<and> loaded < max_packets then
        case read_at r sequence of
          None \<Rightarrow> (output, None, awaiting)
        | Some p \<Rightarrow>
            if awaiting \<and> is_video_interframe p then
              (if loaded > 0 then (output, Some sequence, awaiting)
               else load_after_resync r w max_packets awaiting output (sequence + 1) loaded)
            else
              load_after_resync r w max_packets
                (if awaiting then \<not> is_video_keyframe p else awaiting)
                (output @ [p]) (sequence + 1) (loaded + 1)
      else (output, Some sequence, awaiting))"
  by pat_completeness auto
termination
  by (relation "measure (\<lambda>(r, w, m, a, out, sequence, loaded). w - sequence)") auto

declare load_after_resync.simps [simp del]

definition record_burst :: "nat \<Rightarrow> reader \<Rightarrow> reader" where
  "record_burst loaded rd =
     (if loaded > 0 then
        rd\<lparr>info := (info rd)
          \<lparr>burst_count := burst_count (info rd) + 1,
           packet_sum := packet_sum (info rd) + of_nat loaded,
           burst_hist := (burst_hist (info rd))
             [burst_bucket loaded := burst_hist (info rd) ! burst_bucket loaded + 1]\<rparr>\<rparr>
      else rd)"

definition pull_burst ::
    "ring_buffer \<Rightarrow> reader \<Rightarrow> media_packet list \<Rightarrow> nat
      \<Rightarrow> (overflow + nat) \<times> media_packet list \<times> reader" where
  "pull_burst r rd output max_packets =
     (if max_packets = 0 then (Inr 0, output, rd)
      else if lags_a_lap r (write_idx r) rd then
        (Inl Overflow, output, resync r (write_idx r) rd)
      else
        let w = write_idx r;
            (output', next, awaiting) =
              (if awaiting_keyframe rd then
                 load_after_resync r w max_packets True output (read_idx rd) 0
               else
                 let (out, next) = load r output (read_idx rd) (min (w - read_idx rd) max_packets)
                 in (out, next, False));
            rd = rd\<lparr>awaiting_keyframe := awaiting\<rparr>
        in case next of
             None \<Rightarrow> (Inl Overflow, take (length output) output', resync r w rd)
           | Some n \<Rightarrow>
               let loaded = length output' - length output
               in (Inr loaded, output', record_burst loaded (set_read_idx rd n)))"

subsection \<open>Following a resized ring\<close>

text \<open>
  Rings by handle. \<open>alive\<close> tells which reader infos still have an owner, as upgrading the
  weak references of a ring's list does. \<open>rid\<close> is the migrating reader's own info.
\<close>

type_synonym ring_store = "nat \<Rightarrow> ring_buffer"

definition migrated_reader :: "nat \<Rightarrow> ring_buffer \<Rightarrow> reader \<Rightarrow> reader" where
  "migrated_reader new_ring r rd =
     (let old_read_idx = read_idx rd;
          rd = rd\<lparr>reader_buffer := new_ring\<rparr>;
          new_write_idx = write_idx r
      in if migration_preroll_packets rd > 0 \<and> old_read_idx = new_write_idx then
           let keyframe_start = fast_forward r new_write_idx
           in if keyframe_start < new_write_idx
              then set_read_idx rd (max (keyframe_start - migration_preroll_packets rd)
                     (new_write_idx - (capacity r - 1)))
              else rd
         else rd)"

definition migrate_to ::
    "(nat \<Rightarrow> bool) \<Rightarrow> nat \<Rightarrow> nat \<Rightarrow> ring_store \<Rightarrow> reader \<Rightarrow> ring_store \<times> reader" where
  "migrate_to alive rid new_ring store rd =
     (let old_ring = reader_buffer rd;
          store = store(new_ring := (store new_ring)\<lparr>readers := readers (store new_ring) @ [rid]\<rparr>);
          rd = migrated_reader new_ring (store new_ring) rd;
          store = store(old_ring := (store old_ring)\<lparr>readers := filter alive (readers (store old_ring))\<rparr>)
      in (store, rd))"

definition Reader_drop :: "(nat \<Rightarrow> bool) \<Rightarrow> nat \<Rightarrow> ring_buffer \<Rightarrow> ring_buffer" where
  "Reader_drop alive rid r = r\<lparr>readers := filter (\<lambda>i. alive i \<and> i \<noteq> rid) (readers r)\<rparr>"

text \<open>
  The loop of \<open>wait_for_data\<close>, one iteration while nothing else runs: it returns, migrates and
  retries, or parks on the notification. A chain of sealed rings is followed to its end; the
  fuel bounds its length.
\<close>

datatype wait_outcome = Wait_Ready | Wait_Parked

fun wait_for_data ::
    "nat \<Rightarrow> (nat \<Rightarrow> bool) \<Rightarrow> nat \<Rightarrow> ring_store \<Rightarrow> reader \<Rightarrow> (wait_outcome \<times> ring_store \<times> reader) option" where
  "wait_for_data 0 alive rid store rd = None"
| "wait_for_data (Suc fuel) alive rid store rd =
     (let r = store (reader_buffer rd)
      in if read_idx rd < write_idx r then Some (Wait_Ready, store, rd)
         else case next_ring r of
           Some next \<Rightarrow>
             (let (store, rd) = migrate_to alive rid next store rd
              in wait_for_data fuel alive rid store rd)
         | None \<Rightarrow>
             if end_of_stream r then Some (Wait_Ready, store, rd)
             else Some (Wait_Parked, store, rd))"

subsection \<open>What a reader delivers\<close>

text \<open>
  The next packet to deliver from those still pending, and the packets after it: interframes
  are passed over while awaiting a keyframe. \<open>deliver\<close> is the whole sequence.
\<close>

fun next_deliverable :: "bool \<Rightarrow> media_packet list \<Rightarrow> (media_packet \<times> media_packet list) option" where
  "next_deliverable awaiting [] = None"
| "next_deliverable awaiting (p # ps) =
     (if awaiting \<and> is_video_interframe p then next_deliverable awaiting ps else Some (p, ps))"

fun deliver :: "bool \<Rightarrow> media_packet list \<Rightarrow> media_packet list" where
  "deliver awaiting [] = []"
| "deliver awaiting (p # ps) =
     (if awaiting \<and> is_video_interframe p then deliver awaiting ps
      else p # deliver (awaiting \<and> \<not> is_video_keyframe p) ps)"

lemma deliver_unfold:
  "deliver a ps = (case next_deliverable a ps of
     None \<Rightarrow> [] | Some (p, qs) \<Rightarrow> p # deliver (a \<and> \<not> is_video_keyframe p) qs)"
  by (induction ps) auto

lemma deliver_False [simp]: "deliver False ps = ps"
  by (induction ps) auto

lemma next_deliverable_shorter: "next_deliverable a ps = Some (p, qs) \<Longrightarrow> length qs < length ps"
  by (induction ps) (auto split: if_splits)

text \<open>Before the first keyframe nothing undecodable is delivered; from it on, everything is.\<close>

lemma deliver_awaiting:
  "deliver True ps = filter (\<lambda>p. \<not> is_video_interframe p) (takeWhile (\<lambda>p. \<not> is_video_keyframe p) ps)
     @ dropWhile (\<lambda>p. \<not> is_video_keyframe p) ps"
  by (induction ps) (auto dest: keyframe_not_interframe)

definition pending :: "nat \<Rightarrow> history \<Rightarrow> reader \<Rightarrow> media_packet list" where
  "pending base h rd = map fst (drop (read_idx rd - base) h)"

text \<open>A reader inside the window of a well-formed ring: its whole backlog can be pulled.\<close>

definition reader_in_window :: "ring_buffer \<Rightarrow> nat \<Rightarrow> history \<Rightarrow> reader \<Rightarrow> bool" where
  "reader_in_window r base h rd \<longleftrightarrow>
     ring_ok r base h \<and> capacity r \<le> 2 ^ 31 \<and> base \<le> read_idx rd \<and> read_idx rd \<le> write_idx r \<and>
     write_idx r - read_idx rd < capacity r"

lemma set_read_idx_simps [simp]:
  "read_idx (set_read_idx rd i) = i"
  "awaiting_keyframe (set_read_idx rd i) = awaiting_keyframe rd"
  by (simp_all add: set_read_idx_def)

lemma pending_Nil: "ring_ok r base h \<Longrightarrow> base \<le> read_idx rd \<Longrightarrow> pending base h rd = [] \<longleftrightarrow> write_idx r \<le> read_idx rd"
  by (auto simp: pending_def ring_ok_def)

lemma in_window_read:
  assumes "reader_in_window r base h rd" and "read_idx rd < write_idx r"
  obtains p where "read_at r (read_idx rd) = Some p"
    and "pending base h rd = p # pending base h (set_read_idx rd (read_idx rd + 1))"
    and "reader_in_window r base h (set_read_idx rd (read_idx rd + 1))"
    and "\<not> lags_a_lap r (write_idx r) rd"
proof -
  let ?i = "read_idx rd - base"
  from assms have ok: "ring_ok r base h" and b: "base \<le> read_idx rd" and w: "write_idx r = base + length h"
    by (auto simp: reader_in_window_def ring_ok_def)
  from assms have "write_idx r \<le> read_idx rd + 2 ^ 31" and "retained (capacity r) base (write_idx r) (read_idx rd)"
    by (auto simp: reader_in_window_def retained_def)
  with read_at_history [OF ok assms(2)] have read: "read_at r (read_idx rd) = Some (fst (h ! ?i))"
    by simp
  have "?i < length h" using assms(2) w b by simp
  then have pend: "pending base h rd = fst (h ! ?i) # pending base h (set_read_idx rd (read_idx rd + 1))"
    using b by (simp add: pending_def Cons_nth_drop_Suc [symmetric] Suc_diff_le)
  show thesis
    by (rule that [OF read pend]) (use assms in \<open>auto simp: reader_in_window_def lags_a_lap_def\<close>)
qed

lemma pull_spec:
  assumes "reader_in_window r base h rd"
  shows "\<exists>rd'. pull r rd =
      Some (Inr (map_option fst (next_deliverable (awaiting_keyframe rd) (pending base h rd))), rd') \<and>
    reader_in_window r base h rd' \<and> read_idx rd \<le> read_idx rd' \<and>
    (case next_deliverable (awaiting_keyframe rd) (pending base h rd) of
       None \<Rightarrow> pending base h rd' = [] \<and> read_idx rd' = write_idx r \<and> awaiting_keyframe rd' = awaiting_keyframe rd
     | Some (p, ps) \<Rightarrow> pending base h rd' = ps \<and>
         awaiting_keyframe rd' = (awaiting_keyframe rd \<and> \<not> is_video_keyframe p))"
  using assms
proof (induction "write_idx r - read_idx rd" arbitrary: rd rule: less_induct)
  case less
  show ?case
  proof (cases "read_idx rd = write_idx r")
    case True
    with less.prems pending_Nil [of r base h rd] have "pending base h rd = []"
      by (auto simp: reader_in_window_def)
    with True less.prems show ?thesis by (simp add: pull.simps [of r rd])
  next
    case False
    with less.prems have lt: "read_idx rd < write_idx r"
      by (auto simp: reader_in_window_def)
    let ?rd = "set_read_idx rd (read_idx rd + 1)"
    from less.prems lt obtain p where p: "read_at r (read_idx rd) = Some p"
      and pend: "pending base h rd = p # pending base h ?rd"
      and win: "reader_in_window r base h ?rd" and nlag: "\<not> lags_a_lap r (write_idx r) rd"
      by (rule in_window_read)
    show ?thesis
    proof (cases "awaiting_keyframe rd \<and> is_video_interframe p")
      case True
      then have "pull r rd = pull r ?rd"
        using False p nlag by (simp add: pull.simps [of r rd] Let_def)
      moreover have "write_idx r - read_idx ?rd < write_idx r - read_idx rd"
        using lt by simp
      ultimately show ?thesis
        using less.hyps [OF _ win] True pend by (auto intro: Suc_leD split: option.splits)
    next
      case nskip: False
      let ?rd' = "if awaiting_keyframe ?rd then ?rd\<lparr>awaiting_keyframe := \<not> is_video_keyframe p\<rparr> else ?rd"
      have "pull r rd = Some (Inr (Some p), ?rd')"
        using False p nlag nskip by (auto simp: pull.simps [of r rd] Let_def)
      moreover have "next_deliverable (awaiting_keyframe rd) (pending base h rd) = Some (p, pending base h ?rd)"
        using nskip pend by auto
      ultimately show ?thesis
        using win by (auto simp: reader_in_window_def pending_def)
    qed
  qed
qed

text \<open>The receive loop of a client: up to \<open>n\<close> pulls, ended by an empty ring or an overflow.\<close>

fun pulls :: "nat \<Rightarrow> ring_buffer \<Rightarrow> reader \<Rightarrow> (media_packet list \<times> reader) option" where
  "pulls 0 r rd = Some ([], rd)"
| "pulls (Suc n) r rd =
     (case pull r rd of
        None \<Rightarrow> None
      | Some (Inl Overflow, rd') \<Rightarrow> Some ([], rd')
      | Some (Inr None, rd') \<Rightarrow> Some ([], rd')
      | Some (Inr (Some p), rd') \<Rightarrow> map_option (\<lambda>(ps, rd''). (p # ps, rd'')) (pulls n r rd'))"

lemma pulls_deliver:
  assumes "reader_in_window r base h rd"
  shows "\<exists>rd'. pulls n r rd = Some (take n (deliver (awaiting_keyframe rd) (pending base h rd)), rd')
    \<and> reader_in_window r base h rd' \<and> read_idx rd \<le> read_idx rd'"
  using assms
proof (induction n arbitrary: rd)
  case 0
  then show ?case by simp
next
  case (Suc n)
  from pull_spec [OF Suc.prems] obtain rd' where
    pull: "pull r rd = Some (Inr (map_option fst (next_deliverable (awaiting_keyframe rd) (pending base h rd))), rd')"
    and win: "reader_in_window r base h rd'" and le: "read_idx rd \<le> read_idx rd'"
    and post: "case next_deliverable (awaiting_keyframe rd) (pending base h rd) of
       None \<Rightarrow> pending base h rd' = [] \<and> read_idx rd' = write_idx r \<and> awaiting_keyframe rd' = awaiting_keyframe rd
     | Some (p, ps) \<Rightarrow> pending base h rd' = ps \<and>
         awaiting_keyframe rd' = (awaiting_keyframe rd \<and> \<not> is_video_keyframe p)"
    by blast
  show ?case
  proof (cases "next_deliverable (awaiting_keyframe rd) (pending base h rd)")
    case None
    with pull win le show ?thesis
      by (simp add: deliver_unfold [of _ "pending base h rd"])
  next
    case (Some q)
    obtain p ps where q: "q = (p, ps)" by fastforce
    from Some q post have rd': "pending base h rd' = ps"
      "awaiting_keyframe rd' = (awaiting_keyframe rd \<and> \<not> is_video_keyframe p)" by auto
    from Suc.IH [OF win] obtain rd'' where
      "pulls n r rd' = Some (take n (deliver (awaiting_keyframe rd') ps), rd'')"
      "reader_in_window r base h rd''" "read_idx rd' \<le> read_idx rd''"
      unfolding rd'(1) by blast
    with pull Some q rd' le show ?thesis
      by (auto simp: deliver_unfold [of _ "pending base h rd"])
  qed
qed

subsection \<open>A burst is that many pulls\<close>

lemma load_read_at:
  assumes "\<And>i. i < n \<Longrightarrow> read_at r (start + i) = Some (f i)"
  shows "load r out start n = (out @ map f [0..<n], Some (start + n))"
  using assms
proof (induction n arbitrary: start out f)
  case 0
  then show ?case by simp
next
  case (Suc n)
  have "read_at r (Suc start + i) = Some (f (Suc i))" if "i < n" for i
    using Suc.prems [of "Suc i"] that by simp
  from Suc.IH [OF this] Suc.prems [of 0] show ?case
    by (simp add: map_upt_Suc del: upt_Suc)
qed

lemma in_window_load:
  assumes "reader_in_window r base h rd" and "n \<le> write_idx r - read_idx rd"
  shows "load r out (read_idx rd) n = (out @ take n (pending base h rd), Some (read_idx rd + n))"
proof -
  from assms have ok: "ring_ok r base h" and b: "base \<le> read_idx rd" and w: "write_idx r = base + length h"
    by (auto simp: reader_in_window_def ring_ok_def)
  have "read_at r (read_idx rd + i) = Some (fst (h ! (read_idx rd - base + i)))" if "i < n" for i
    using read_at_history [OF ok, of "read_idx rd + i"] assms that b
    by (auto simp: reader_in_window_def retained_def)
  from load_read_at [OF this, of n out] have "load r out (read_idx rd) n =
      (out @ map (\<lambda>i. fst (h ! (read_idx rd - base + i))) [0..<n], Some (read_idx rd + n))" by simp
  moreover have "map (\<lambda>i. fst (h ! (read_idx rd - base + i))) [0..<n] = take n (pending base h rd)"
    using assms(2) w b by (intro nth_equalityI) (auto simp: pending_def)
  ultimately show ?thesis by simp
qed

lemma pull_caught_up: "read_idx rd = write_idx r \<Longrightarrow> pull r rd = Some (Inr None, rd)"
  by (simp add: pull.simps [of r rd])

lemma pull_skip:
  assumes "read_at r (read_idx rd) = Some p" and "read_idx rd \<noteq> write_idx r"
    and "\<not> lags_a_lap r (write_idx r) rd" and "awaiting_keyframe rd" and "is_video_interframe p"
  shows "pull r rd = pull r (set_read_idx rd (read_idx rd + 1))"
  using assms by (simp add: pull.simps [of r rd] Let_def)

lemma pull_take:
  assumes "read_at r (read_idx rd) = Some p" and "read_idx rd \<noteq> write_idx r"
    and "\<not> lags_a_lap r (write_idx r) rd" and "\<not> (awaiting_keyframe rd \<and> is_video_interframe p)"
  shows "pull r rd = Some (Inr (Some p),
    (set_read_idx rd (read_idx rd + 1))\<lparr>awaiting_keyframe := awaiting_keyframe rd \<and> \<not> is_video_keyframe p\<rparr>)"
  using assms by (auto simp: pull.simps [of r rd] Let_def)

lemma in_window_awaiting [simp]:
  "reader_in_window r base h (rd\<lparr>awaiting_keyframe := a\<rparr>) \<longleftrightarrow> reader_in_window r base h rd"
  "pending base h (rd\<lparr>awaiting_keyframe := a\<rparr>) = pending base h rd"
  by (simp_all add: reader_in_window_def pending_def)

lemma pulls_not_awaiting:
  assumes "reader_in_window r base h rd" and "\<not> awaiting_keyframe rd" and "n \<le> write_idx r - read_idx rd"
  shows "\<exists>rd'. pulls n r rd = Some (take n (pending base h rd), rd') \<and> read_idx rd' = read_idx rd + n \<and>
    \<not> awaiting_keyframe rd'"
  using assms
proof (induction n arbitrary: rd)
  case 0
  then show ?case by simp
next
  case (Suc n)
  let ?rd = "set_read_idx rd (read_idx rd + 1)"
  from Suc.prems have lt: "read_idx rd < write_idx r" by simp
  from Suc.prems(1) lt obtain p where p: "read_at r (read_idx rd) = Some p"
    and pend: "pending base h rd = p # pending base h ?rd"
    and win: "reader_in_window r base h ?rd" and nlag: "\<not> lags_a_lap r (write_idx r) rd"
    by (rule in_window_read)
  let ?rd' = "?rd\<lparr>awaiting_keyframe := False\<rparr>"
  have "pull r rd = Some (Inr (Some p), ?rd')"
    using pull_take [OF p _ nlag] lt Suc.prems(2) by simp
  moreover have "n \<le> write_idx r - Suc (read_idx rd)"
    using Suc.prems(3) by linarith
  with Suc.prems win obtain rd' where
    "pulls n r ?rd' = Some (take n (pending base h ?rd), rd')" "read_idx rd' = Suc (read_idx rd) + n"
    "\<not> awaiting_keyframe rd'"
    using Suc.IH [of ?rd'] by auto
  ultimately show ?case using pend by auto
qed

text \<open>The loop of \<open>load_after_resync\<close> delivers what that many pulls deliver.\<close>

lemma load_after_resync_pulls:
  assumes "reader_in_window r base h rd" and "loaded < max_packets \<or> 0 < loaded"
  shows "\<exists>ds rd'. load_after_resync r (write_idx r) max_packets (awaiting_keyframe rd) out (read_idx rd) loaded =
      (out @ ds, Some (read_idx rd'), awaiting_keyframe rd') \<and>
    pulls (if ds = [] \<and> loaded = 0 then 1 else length ds) r rd = Some (ds, rd') \<and>
    length ds \<le> max_packets - loaded \<and>
    (loaded = 0 \<longrightarrow> (ds = [] \<longleftrightarrow> deliver (awaiting_keyframe rd) (pending base h rd) = []))"
  using assms
proof (induction "write_idx r - read_idx rd" arbitrary: rd out loaded rule: less_induct)
  case less
  note unf = load_after_resync.simps [of r "write_idx r" max_packets "awaiting_keyframe rd" out "read_idx rd" loaded]
  show ?case
  proof (cases "read_idx rd < write_idx r \<and> loaded < max_packets")
    case False
    have "read_idx rd = write_idx r" if "loaded = 0"
      using False that less.prems by (auto simp: reader_in_window_def)
    with False less.prems pending_Nil [of r base h rd] show ?thesis
      by (intro exI [of _ "[]"] exI [of _ rd])
        (auto simp: unf reader_in_window_def pull.simps [of r rd])
  next
    case True
    let ?rd = "set_read_idx rd (read_idx rd + 1)"
    from True have lt: "read_idx rd < write_idx r" by simp
    from less.prems(1) lt obtain p where p: "read_at r (read_idx rd) = Some p"
      and pend: "pending base h rd = p # pending base h ?rd"
      and win: "reader_in_window r base h ?rd" and nlag: "\<not> lags_a_lap r (write_idx r) rd"
      by (rule in_window_read)
    have smaller: "write_idx r - Suc (read_idx rd) < write_idx r - read_idx rd" using lt by simp
    show ?thesis
    proof (cases "awaiting_keyframe rd \<and> is_video_interframe p")
      case skip: True
      show ?thesis
      proof (cases "loaded = 0")
        case True
        obtain ds rd' where ih: "load_after_resync r (write_idx r) max_packets (awaiting_keyframe ?rd) out (read_idx ?rd) loaded =
            (out @ ds, Some (read_idx rd'), awaiting_keyframe rd')"
          "pulls (if ds = [] \<and> loaded = 0 then 1 else length ds) r ?rd = Some (ds, rd')"
          "length ds \<le> max_packets - loaded"
          "loaded = 0 \<longrightarrow> (ds = [] \<longleftrightarrow> deliver (awaiting_keyframe ?rd) (pending base h ?rd) = [])"
          using less.hyps [of ?rd loaded out] smaller win less.prems(2) by auto
        have step: "pulls n r rd = pulls n r ?rd" if "n > 0" for n
          using that pull_skip [OF p _ nlag] skip lt by (cases n) auto
        have eq: "load_after_resync r (write_idx r) max_packets (awaiting_keyframe rd) out (read_idx rd) loaded
            = load_after_resync r (write_idx r) max_packets (awaiting_keyframe ?rd) out (read_idx ?rd) loaded"
          using skip p True \<open>read_idx rd < write_idx r \<and> loaded < max_packets\<close> by (subst unf) simp
        have del: "deliver (awaiting_keyframe rd) (pending base h rd) = deliver (awaiting_keyframe ?rd) (pending base h ?rd)"
          using skip pend by simp
        show ?thesis
          using ih step [of "if ds = [] \<and> loaded = 0 then 1 else length ds"] True unfolding eq del
          by (intro exI [of _ ds] exI [of _ rd']) auto
      next
        case False
        with skip p True have "load_after_resync r (write_idx r) max_packets (awaiting_keyframe rd) out (read_idx rd) loaded
            = (out, Some (read_idx rd), awaiting_keyframe rd)"
          by (subst unf) simp
        with False show ?thesis
          by (intro exI [of _ "[]"] exI [of _ rd]) simp
      qed
    next
      case take: False
      let ?a = "awaiting_keyframe rd \<and> \<not> is_video_keyframe p"
      let ?rd' = "?rd\<lparr>awaiting_keyframe := ?a\<rparr>"
      obtain ds rd' where ih: "load_after_resync r (write_idx r) max_packets ?a (out @ [p]) (Suc (read_idx rd)) (Suc loaded) =
          ((out @ [p]) @ ds, Some (read_idx rd'), awaiting_keyframe rd')"
        "pulls (length ds) r ?rd' = Some (ds, rd')" "length ds \<le> max_packets - Suc loaded"
        using less.hyps [of ?rd' "Suc loaded" "out @ [p]"] smaller win by auto
      have "pull r rd = Some (Inr (Some p), ?rd')"
        using pull_take [OF p _ nlag take] lt by simp
      moreover have "(if awaiting_keyframe rd then \<not> is_video_keyframe p else awaiting_keyframe rd) = ?a"
        by simp
      then have "load_after_resync r (write_idx r) max_packets (awaiting_keyframe rd) out (read_idx rd) loaded
          = load_after_resync r (write_idx r) max_packets ?a (out @ [p]) (Suc (read_idx rd)) (Suc loaded)"
        using take p True by (subst unf) auto
      moreover have "deliver (awaiting_keyframe rd) (pending base h rd) \<noteq> []"
        using take pend by auto
      ultimately show ?thesis
        using ih True by (intro exI [of _ "p # ds"] exI [of _ rd']) auto
    qed
  qed
qed

lemma pull_burst_pulls:
  assumes win: "reader_in_window r base h rd" and pos: "0 < max_packets"
  shows "\<exists>ds rd' rd''. pull_burst r rd out max_packets = (Inr (length ds), out @ ds, rd') \<and>
    pulls (if ds = [] then 1 else length ds) r rd = Some (ds, rd'') \<and>
    read_idx rd' = read_idx rd'' \<and> awaiting_keyframe rd' = awaiting_keyframe rd'' \<and>
    length ds \<le> max_packets \<and>
    (ds = [] \<longleftrightarrow> deliver (awaiting_keyframe rd) (pending base h rd) = [])"
proof -
  have nlag: "\<not> lags_a_lap r (write_idx r) rd"
    using win by (auto simp: reader_in_window_def lags_a_lap_def)
  have rb: "read_idx (record_burst n x) = read_idx x"
    "awaiting_keyframe (record_burst n x) = awaiting_keyframe x" for n x
    by (simp_all add: record_burst_def)
  show ?thesis
  proof (cases "awaiting_keyframe rd")
    case True
    with load_after_resync_pulls [OF win, of 0 max_packets out] pos obtain ds rd'' where
      "load_after_resync r (write_idx r) max_packets True out (read_idx rd) 0 =
        (out @ ds, Some (read_idx rd''), awaiting_keyframe rd'')"
      "pulls (if ds = [] then 1 else length ds) r rd = Some (ds, rd'')" "length ds \<le> max_packets"
      "ds = [] \<longleftrightarrow> deliver (awaiting_keyframe rd) (pending base h rd) = []"
      by auto
    with True nlag pos show ?thesis
      by (intro exI [of _ ds] exI [of _ "record_burst (length ds)
            (set_read_idx (rd\<lparr>awaiting_keyframe := awaiting_keyframe rd''\<rparr>) (read_idx rd''))"] exI [of _ rd''])
        (simp add: pull_burst_def Let_def rb)
  next
    case False
    let ?n = "min (write_idx r - read_idx rd) max_packets"
    let ?ds = "take ?n (pending base h rd)"
    have len: "length (pending base h rd) = write_idx r - read_idx rd"
      using win by (auto simp: pending_def reader_in_window_def ring_ok_def)
    then have lends: "length ?ds = ?n" by simp
    have load: "load r out (read_idx rd) ?n = (out @ ?ds, Some (read_idx rd + ?n))"
      by (rule in_window_load [OF win]) simp
    obtain rd'' where pulls: "pulls ?n r rd = Some (?ds, rd'')" "read_idx rd'' = read_idx rd + ?n"
      "\<not> awaiting_keyframe rd''"
      using pulls_not_awaiting [OF win False, of ?n] by auto
    have "pulls (if ?ds = [] then 1 else length ?ds) r rd = Some (?ds, rd'')"
    proof (cases "?n = 0")
      case True
      with win pos have "read_idx rd = write_idx r" by (auto simp: reader_in_window_def)
      with True pulls(1) show ?thesis by (simp add: pull_caught_up)
    next
      case ne: False
      then show ?thesis using pulls(1) lends by auto
    qed
    moreover have "?ds = [] \<longleftrightarrow> deliver (awaiting_keyframe rd) (pending base h rd) = []"
      using False pos len by (cases "pending base h rd") auto
    ultimately show ?thesis
      using False nlag pos load pulls lends
      by (intro exI [of _ ?ds] exI [of _ "record_burst ?n
            (set_read_idx (rd\<lparr>awaiting_keyframe := False\<rparr>) (read_idx rd + ?n))"] exI [of _ rd''])
        (simp add: pull_burst_def Let_def rb)
  qed
qed

subsection \<open>Overflow and migration\<close>

text \<open>
  A pull on any ring it may see: a lagging reader overflows and restarts on the latest
  retained keyframe, or at the live edge when there is none, strictly further on.
\<close>

lemma resync_simps [simp]:
  "read_idx (resync r w rd) = fast_forward r w"
  "awaiting_keyframe (resync r w rd)"
  "reader_buffer (resync r w rd) = reader_buffer rd"
  "overflow_count (info (resync r w rd)) = overflow_count (info rd) + 1"
  by (simp_all add: resync_def set_read_idx_def Let_def)

lemma pull_lagging:
  "lags_a_lap r (write_idx r) rd \<Longrightarrow> pull r rd = Some (Inl Overflow, resync r (write_idx r) rd)"
  by (auto simp: pull.simps [of r rd] lags_a_lap_def)

lemma resync_in_window:
  assumes "ring_ok r base h" and "write_idx r \<le> usize_MAX" and "capacity r \<le> 2 ^ 31"
  shows "reader_in_window r base h (resync r (write_idx r) rd)"
proof -
  have "0 < capacity r" "base \<le> write_idx r" using assms(1) by (auto simp: ring_ok_def ring_core_def)
  then show ?thesis
    using assms by (cases rule: fast_forward_cases [OF assms(1,2)]) (auto simp: reader_in_window_def)
qed

lemma resync_forward:
  assumes "ring_ok r base h" and "write_idx r \<le> usize_MAX" and "lags_a_lap r (write_idx r) rd"
  shows "read_idx rd < fast_forward r (write_idx r)"
  using assms(3) by (cases rule: fast_forward_cases [OF assms(1,2)]) (auto simp: lags_a_lap_def)

lemma lags_or_in_window:
  assumes "ring_ok r base h" and "capacity r \<le> 2 ^ 31" and "base \<le> read_idx rd" and "read_idx rd \<le> write_idx r"
  shows "lags_a_lap r (write_idx r) rd \<or> reader_in_window r base h rd"
  using assms by (auto simp: lags_a_lap_def reader_in_window_def ring_ok_def ring_core_def)

lemma next_deliverable_split:
  "next_deliverable a ps = Some (p, qs) \<Longrightarrow>
     \<exists>pre. ps = pre @ p # qs \<and> (\<forall>x \<in> set pre. a \<and> is_video_interframe x) \<and> \<not> (a \<and> is_video_interframe p)"
proof (induction ps)
  case (Cons x ps)
  show ?case
  proof (cases "a \<and> is_video_interframe x")
    case True
    with Cons obtain pre where "ps = pre @ p # qs" "\<forall>x \<in> set pre. a \<and> is_video_interframe x"
      "\<not> (a \<and> is_video_interframe p)"
      by auto
    with True show ?thesis by (intro exI [of _ "x # pre"]) auto
  next
    case False
    with Cons.prems show ?thesis by (intro exI [of _ "[]"]) auto
  qed
qed simp

text \<open>What a successful pull delivers, by sequence.\<close>

lemma pull_delivers:
  assumes win: "reader_in_window r base h rd" and pull: "pull r rd = Some (Inr (Some p), rd')"
  obtains s where "read_idx rd \<le> s" and "s < write_idx r" and "read_idx rd' = Suc s"
    and "fst (h ! (s - base)) = p"
    and "\<not> awaiting_keyframe rd \<longrightarrow> s = read_idx rd"
    and "awaiting_keyframe rd \<longrightarrow> \<not> is_video_interframe p"
    and "awaiting_keyframe rd' = (awaiting_keyframe rd \<and> \<not> is_video_keyframe p)"
proof -
  let ?nd = "next_deliverable (awaiting_keyframe rd) (pending base h rd)"
  from pull_spec [OF win] pull have nd': "map_option fst ?nd = Some p" and win': "reader_in_window r base h rd'"
    and post: "case ?nd of None \<Rightarrow> True | Some (p, ps) \<Rightarrow> pending base h rd' = ps \<and>
      awaiting_keyframe rd' = (awaiting_keyframe rd \<and> \<not> is_video_keyframe p)"
    by (auto split: option.splits simp del: not_None_eq)
  from nd' obtain qs where nd: "?nd = Some (p, qs)" by auto
  with post have pend: "pending base h rd' = qs"
    and aw: "awaiting_keyframe rd' = (awaiting_keyframe rd \<and> \<not> is_video_keyframe p)"
    by auto
  from next_deliverable_split [OF nd] obtain pre where split: "pending base h rd = pre @ p # pending base h rd'"
    and pre: "\<forall>x \<in> set pre. awaiting_keyframe rd \<and> is_video_interframe x"
    and np: "\<not> (awaiting_keyframe rd \<and> is_video_interframe p)"
    unfolding pend by blast
  have w: "write_idx r = base + length h" "base \<le> read_idx rd" "read_idx rd \<le> write_idx r"
      "base \<le> read_idx rd'" "read_idx rd' \<le> write_idx r"
    using win win' by (auto simp: reader_in_window_def ring_ok_def)
  let ?s = "read_idx rd + length pre"
  have len: "length h - (read_idx rd - base) = length pre + 1 + (length h - (read_idx rd' - base))"
    using arg_cong [OF split, of length] by (simp add: pending_def)
  have "pending base h rd ! length pre = fst (h ! (?s - base))"
    using len w by (subst pending_def, subst nth_map) auto
  then have "fst (h ! (?s - base)) = p" by (simp add: split)
  then show thesis
    by (intro that [of ?s]) (use len w aw np pre in \<open>auto split: if_splits\<close>)
qed

text \<open>
  C19. A client that keeps pulling from a ring whose backlog it has not lost gets exactly the
  specified sequence: the pending packets in order, without the interframes before the first
  keyframe when it resynchronised. The receive loop returns for every number of pulls.
\<close>

theorem pulls_in_order:
  assumes "reader_in_window r base h rd"
  shows "\<exists>rd'. pulls n r rd = Some (take n (deliver (awaiting_keyframe rd) (pending base h rd)), rd')"
  using pulls_deliver [OF assms, of n] by blast

text \<open>
  C4. A burst is the same as that many single pulls: it appends the packets they would
  deliver, leaves the cursor and the resynchronisation state where they would, keeps to its
  limit, and is empty only when there is nothing to deliver.
\<close>

theorem pull_burst_is_pulls:
  assumes "reader_in_window r base h rd" and "0 < max_packets"
  shows "\<exists>ds rd' rd''. pull_burst r rd out max_packets = (Inr (length ds), out @ ds, rd') \<and>
    pulls (if ds = [] then 1 else length ds) r rd = Some (ds, rd'') \<and>
    read_idx rd' = read_idx rd'' \<and> awaiting_keyframe rd' = awaiting_keyframe rd'' \<and>
    length ds \<le> max_packets \<and>
    (ds = [] \<longleftrightarrow> deliver (awaiting_keyframe rd) (pending base h rd) = [])"
  by (rule pull_burst_pulls [OF assms])


subsection \<open>Concrete readers\<close>

abbreviation live_reader :: reader where
  "live_reader \<equiv> fst (new_live 0 0 ''r'' (RingBuffer_new 4))"

abbreviation one_packet_ring :: ring_buffer where
  "one_packet_ring \<equiv> push 0 (sample_packet Video True 0) (RingBuffer_new 4)"

lemma live_reader_in_window:
  "reader_in_window one_packet_ring 0 [(sample_packet Video True 0, 0)] live_reader"
  "pending 0 [(sample_packet Video True 0, 0)] live_reader = [sample_packet Video True 0]"
proof -
  have "packet_generation (RingBuffer_new 4) (sample_packet Video True 0) = 0"
    by (simp add: packet_generation_def RingBuffer_new_def config_generation_of_def TrackConfigs_new_def
        TrackConfigSlot_new_def CONFIG_TRACKS_PER_TYPE_def config_slot_def sample_packet_def media_type_index_def)
  with ring_ok_push [OF ring_ok_new [of 4], of 0 "sample_packet Video True 0"]
  have "ring_ok one_packet_ring 0 [(sample_packet Video True 0, 0)]" by simp
  moreover have "capacity one_packet_ring = 4" "write_idx one_packet_ring = 1" "read_idx live_reader = 0"
    by (simp_all add: push_def Let_def add_published_bytes_def RingBuffer_new_def new_live_def register_def)
  ultimately show "reader_in_window one_packet_ring 0 [(sample_packet Video True 0, 0)] live_reader"
    "pending 0 [(sample_packet Video True 0, 0)] live_reader = [sample_packet Video True 0]"
    by (simp_all add: reader_in_window_def pending_def)
qed

theorem pulls_in_order_witness:
  "\<exists>rd'. pulls 5 one_packet_ring live_reader = Some ([sample_packet Video True 0], rd')"
proof -
  have "deliver (awaiting_keyframe live_reader) [sample_packet Video True 0] = [sample_packet Video True 0]"
    by (simp add: is_video_interframe_def sample_packet_def)
  with pulls_in_order [OF live_reader_in_window(1), of 5] show ?thesis
    by (simp only: live_reader_in_window(2)) simp
qed

theorem pull_burst_is_pulls_witness:
  "\<exists>ds rd'. pull_burst one_packet_ring live_reader [] 5 = (Inr (length ds), ds, rd') \<and> ds \<noteq> []"
proof -
  have "deliver (awaiting_keyframe live_reader) [sample_packet Video True 0] \<noteq> []"
    by (simp add: is_video_interframe_def sample_packet_def)
  with pull_burst_is_pulls [OF live_reader_in_window(1), of 5 "[]"] show ?thesis
    by (simp only: live_reader_in_window(2)) auto
qed


end
