(* ===== verification/Ring_System.thy ===== *)
theory Ring_System
  imports Ring_Ops Ring_Reader
begin

text \<open>
  A producer and a reader of one ring, interleaved operation by operation: a step is one
  producer operation or one \<open>pull\<close>. The state also keeps what was published and what the
  reader delivered, by sequence, so that the invariant can speak of both: the reader delivers
  published packets in order, without repetition, and never a video interframe whose
  reference frames it skipped.
\<close>

subsection \<open>Steps\<close>

record ring_system =
  sys_ring :: ring_buffer
  sys_reader :: reader
  sys_published :: "media_packet list"
  sys_start :: nat
  sys_delivered :: "(nat \<times> media_packet) list"
  sys_overflows :: nat

abbreviation delivered_seqs :: "ring_system \<Rightarrow> nat set" where
  "delivered_seqs s \<equiv> fst ` set (sys_delivered s)"

text \<open>A reader attached by \<open>Reader::new\<close> to a ring its producer has already used.\<close>

inductive ring_init :: "ring_system \<Rightarrow> bool" where
  "0 < cap \<Longrightarrow> cap \<le> 2 ^ 31 \<Longrightarrow> length (published ops) \<le> usize_MAX \<Longrightarrow>
   Reader_new rid ring name (run_ring_ops ops (RingBuffer_new cap)) = (rd, r) \<Longrightarrow>
   ring_init \<lparr>sys_ring = r, sys_reader = rd, sys_published = published ops, sys_start = read_idx rd,
     sys_delivered = [], sys_overflows = 0\<rparr>"

inductive ring_step :: "ring_system \<Rightarrow> ring_system \<Rightarrow> bool" where
  step_produce: "length (sys_published s @ op_packets op) \<le> usize_MAX \<Longrightarrow>
    ring_step s (s\<lparr>sys_ring := apply_ring_op op (sys_ring s),
      sys_published := sys_published s @ op_packets op\<rparr>)"
| step_deliver: "pull (sys_ring s) (sys_reader s) = Some (Inr (Some p), rd) \<Longrightarrow>
    ring_step s (s\<lparr>sys_reader := rd, sys_delivered := sys_delivered s @ [(read_idx rd - 1, p)]\<rparr>)"
| step_empty: "pull (sys_ring s) (sys_reader s) = Some (Inr None, rd) \<Longrightarrow>
    ring_step s (s\<lparr>sys_reader := rd\<rparr>)"
| step_overflow: "pull (sys_ring s) (sys_reader s) = Some (Inl Overflow, rd) \<Longrightarrow>
    ring_step s (s\<lparr>sys_reader := rd, sys_overflows := sys_overflows s + 1\<rparr>)"

inductive_cases ring_stepE: "ring_step s t"

subsection \<open>The invariant\<close>

text \<open>
  From \<open>k\<close> on every packet before \<open>n\<close> was delivered, and \<open>k\<close> is where the reader attached or a
  keyframe: a decoder that got these packets can decode what follows.
\<close>

definition decodable_run :: "ring_system \<Rightarrow> nat \<Rightarrow> nat \<Rightarrow> bool" where
  "decodable_run s k n \<longleftrightarrow>
     (k = sys_start s \<or> k < n \<and> is_video_keyframe (sys_published s ! k)) \<and> {k..<n} \<subseteq> delivered_seqs s"

text \<open>The ring refines the published sequence and the cursor lies within it.\<close>

definition ring_part :: "ring_system \<Rightarrow> bool" where
  "ring_part s \<longleftrightarrow>
     capacity (sys_ring s) \<le> 2 ^ 31 \<and>
     (\<exists>h. ring_ok (sys_ring s) 0 h \<and> map fst h = sys_published s) \<and>
     length (sys_published s) \<le> usize_MAX \<and>
     sys_start s \<le> read_idx (sys_reader s) \<and> read_idx (sys_reader s) \<le> length (sys_published s)"

definition delivered_part :: "ring_system \<Rightarrow> bool" where
  "delivered_part s \<longleftrightarrow>
     sorted_wrt (<) (map fst (sys_delivered s)) \<and>
     (\<forall>(i, p) \<in> set (sys_delivered s). sys_start s \<le> i \<and> i < read_idx (sys_reader s) \<and> p = sys_published s ! i) \<and>
     (sys_overflows s = 0 \<longrightarrow> \<not> awaiting_keyframe (sys_reader s) \<and>
        {sys_start s..<read_idx (sys_reader s)} \<subseteq> delivered_seqs s)"

definition decode_part :: "ring_system \<Rightarrow> bool" where
  "decode_part s \<longleftrightarrow>
     (\<forall>i \<in> delivered_seqs s. is_video_interframe (sys_published s ! i) \<longrightarrow>
        (\<exists>k \<le> i. decodable_run s k (Suc i))) \<and>
     (\<not> awaiting_keyframe (sys_reader s) \<longrightarrow>
        (\<exists>k \<le> read_idx (sys_reader s). decodable_run s k (read_idx (sys_reader s))))"

definition ring_system_inv :: "ring_system \<Rightarrow> bool" where
  "ring_system_inv s \<longleftrightarrow> ring_part s \<and> delivered_part s \<and> decode_part s"

lemma ring_partD:
  assumes "ring_part s"
  obtains h where "ring_ok (sys_ring s) 0 h" and "map fst h = sys_published s"
    and "write_idx (sys_ring s) = length (sys_published s)"
    and "write_idx (sys_ring s) \<le> usize_MAX" and "capacity (sys_ring s) \<le> 2 ^ 31"
    and "read_idx (sys_reader s) \<le> write_idx (sys_ring s)"
proof -
  from assms obtain h where h: "ring_ok (sys_ring s) 0 h" "map fst h = sys_published s"
    by (auto simp: ring_part_def)
  then have "write_idx (sys_ring s) = length (sys_published s)"
    unfolding h(2) [symmetric] by (simp add: ring_ok_def)
  with h assms show thesis by (intro that [of h]) (auto simp: ring_part_def)
qed

lemma delivered_below:
  "delivered_part s \<Longrightarrow> i \<in> delivered_seqs s \<Longrightarrow> i < read_idx (sys_reader s)"
  by (auto simp: delivered_part_def)

lemma inv_produce:
  assumes inv: "ring_system_inv s" and len: "length (sys_published s @ op_packets op) \<le> usize_MAX"
  shows "ring_system_inv (s\<lparr>sys_ring := apply_ring_op op (sys_ring s),
      sys_published := sys_published s @ op_packets op\<rparr>)" (is "ring_system_inv ?t")
proof -
  from inv have part: "ring_part s" "delivered_part s" "decode_part s"
    by (auto simp: ring_system_inv_def)
  from part(1) obtain h where h: "ring_ok (sys_ring s) 0 h" "map fst h = sys_published s"
    by (rule ring_partD)
  have "\<exists>h'. ring_ok (apply_ring_op op (sys_ring s)) 0 h' \<and> map fst h' = sys_published s @ op_packets op"
    using ring_ok_apply(1) [OF h(1), of op] h(2)
    by (intro exI [of _ "h @ map (\<lambda>p. (p, packet_generation (sys_ring s) p)) (op_packets op)"])
      (auto simp: comp_def)
  then have "ring_part ?t"
    using part(1) len ring_ok_apply(2) [OF h(1), of op] by (auto simp: ring_part_def)
  have nth: "(sys_published s @ op_packets op) ! i = sys_published s ! i"
    if "i < read_idx (sys_reader s)" for i
    using that part(1) by (auto simp: ring_part_def nth_append)
  have "delivered_part ?t"
    using part(2) nth by (fastforce simp: delivered_part_def)
  have run: "decodable_run ?t k n" if "decodable_run s k n" "n \<le> read_idx (sys_reader s)" for k n
    using that nth by (auto simp: decodable_run_def)
  have "\<exists>k \<le> i. decodable_run ?t k (Suc i)"
    if i: "i \<in> delivered_seqs s" and inter: "is_video_interframe ((sys_published s @ op_packets op) ! i)" for i
  proof -
    have lt: "i < read_idx (sys_reader s)" using delivered_below [OF part(2) i] .
    with inter i part(3) nth obtain k where "k \<le> i" "decodable_run s k (Suc i)"
      by (auto simp: decode_part_def)
    with run [of k "Suc i"] lt show ?thesis by auto
  qed
  then have "decode_part ?t"
    using part(3) run by (fastforce simp: decode_part_def)
  with \<open>ring_part ?t\<close> \<open>delivered_part ?t\<close> show ?thesis by (simp add: ring_system_inv_def)
qed

lemma inv_deliver:
  assumes inv: "ring_system_inv s" and pull: "pull (sys_ring s) (sys_reader s) = Some (Inr (Some p), rd)"
  shows "ring_system_inv (s\<lparr>sys_reader := rd, sys_delivered := sys_delivered s @ [(read_idx rd - 1, p)]\<rparr>)"
    (is "ring_system_inv ?t")
proof -
  from inv have part: "ring_part s" "delivered_part s" "decode_part s"
    by (auto simp: ring_system_inv_def)
  from part(1) obtain h where h: "ring_ok (sys_ring s) 0 h" "map fst h = sys_published s"
    and w: "write_idx (sys_ring s) = length (sys_published s)" "capacity (sys_ring s) \<le> 2 ^ 31"
      "read_idx (sys_reader s) \<le> write_idx (sys_ring s)"
    by (rule ring_partD)
  have "reader_in_window (sys_ring s) 0 h (sys_reader s)"
    using lags_or_in_window [OF h(1) w(2) _ w(3)] pull pull_lagging by fastforce
  from this pull obtain i where i: "read_idx (sys_reader s) \<le> i" "i < write_idx (sys_ring s)" "read_idx rd = Suc i"
      "fst (h ! (i - 0)) = p" "\<not> awaiting_keyframe (sys_reader s) \<longrightarrow> i = read_idx (sys_reader s)"
      "awaiting_keyframe (sys_reader s) \<longrightarrow> \<not> is_video_interframe p"
      "awaiting_keyframe rd = (awaiting_keyframe (sys_reader s) \<and> \<not> is_video_keyframe p)"
    by (rule pull_delivers)
  have p: "sys_published s ! i = p"
    using i(2,4) w(1) h(2) by (metis diff_zero length_map nth_map)
  have "ring_part ?t" using part(1) i w by (auto simp: ring_part_def)
  have start: "sys_start s \<le> i" using part(1) i(1) by (auto simp: ring_part_def)
  have old: "sys_start s \<le> j" "j < i" "sys_published s ! j = q" if "(j, q) \<in> set (sys_delivered s)" for j q
    using that part(2) i(1) unfolding delivered_part_def by fastforce+
  have "sorted_wrt (<) (map fst (sys_delivered s))" "\<forall>x \<in> set (sys_delivered s). fst x < i"
    using part(2) old(2) by (auto simp: delivered_part_def)
  then have "sorted_wrt (<) (map fst (sys_delivered ?t))"
    using i(3) by (simp add: sorted_wrt_append)
  moreover have "\<forall>(j, q) \<in> set (sys_delivered ?t). sys_start ?t \<le> j \<and> j < read_idx (sys_reader ?t) \<and> q = sys_published ?t ! j"
    using i(3) p start by (auto dest: old less_SucI)
  moreover have "sys_overflows ?t = 0 \<longrightarrow> \<not> awaiting_keyframe (sys_reader ?t) \<and>
      {sys_start ?t..<read_idx (sys_reader ?t)} \<subseteq> delivered_seqs ?t"
    using part(2) i(3,5,7) by (auto simp: delivered_part_def less_Suc_eq)
  ultimately have "delivered_part ?t" unfolding delivered_part_def by blast
  have keep: "decodable_run ?t k n" if "decodable_run s k n" for k n
    using that by (auto simp: decodable_run_def)
  have extend: "\<exists>k \<le> i. decodable_run ?t k (Suc i)" if "\<not> awaiting_keyframe (sys_reader s)"
  proof -
    from that part(3) i(5) obtain k where "k \<le> i" "decodable_run s k i"
      by (auto simp: decode_part_def)
    then show ?thesis
      by (intro exI [of _ k]) (use i(3) in \<open>auto simp: decodable_run_def less_Suc_eq\<close>)
  qed
  have key: "\<exists>k \<le> Suc i. decodable_run ?t k (Suc i)" if "is_video_keyframe p"
    using that p i(3) by (intro exI [of _ i]) (auto simp: decodable_run_def)
  have "\<exists>k \<le> j. decodable_run ?t k (Suc j)"
    if j: "j \<in> delivered_seqs ?t" and inter: "is_video_interframe (sys_published ?t ! j)" for j
  proof (cases "j = i")
    case True
    with inter p i(6) extend show ?thesis by auto
  next
    case False
    with j i(3) have "j \<in> delivered_seqs s" by auto
    with inter part(3) obtain k where "k \<le> j" "decodable_run s k (Suc j)"
      by (auto simp: decode_part_def)
    with keep show ?thesis by blast
  qed
  moreover have "\<exists>k \<le> Suc i. decodable_run ?t k (Suc i)" if "\<not> awaiting_keyframe rd"
    using that i(7) key extend le_SucI by blast
  ultimately have "decode_part ?t"
    unfolding decode_part_def by (simp add: i(3))
  with \<open>ring_part ?t\<close> \<open>delivered_part ?t\<close> show ?thesis by (simp add: ring_system_inv_def)
qed

lemma pull_inv_cases:
  assumes "ring_part s"
  obtains (lagging) "pull (sys_ring s) (sys_reader s) =
      Some (Inl Overflow, resync (sys_ring s) (write_idx (sys_ring s)) (sys_reader s))"
    and "read_idx (sys_reader s) \<le> fast_forward (sys_ring s) (write_idx (sys_ring s))"
    and "fast_forward (sys_ring s) (write_idx (sys_ring s)) \<le> length (sys_published s)"
  | (window) h where "ring_ok (sys_ring s) 0 h" and "map fst h = sys_published s"
    and "reader_in_window (sys_ring s) 0 h (sys_reader s)"
proof -
  from assms obtain h where h: "ring_ok (sys_ring s) 0 h" "map fst h = sys_published s"
    and w: "write_idx (sys_ring s) = length (sys_published s)" "write_idx (sys_ring s) \<le> usize_MAX"
      "capacity (sys_ring s) \<le> 2 ^ 31" "read_idx (sys_reader s) \<le> write_idx (sys_ring s)"
    by (rule ring_partD)
  show thesis
  proof (cases "lags_a_lap (sys_ring s) (write_idx (sys_ring s)) (sys_reader s)")
    case True
    show ?thesis
    proof (rule lagging)
      show "pull (sys_ring s) (sys_reader s) =
          Some (Inl Overflow, resync (sys_ring s) (write_idx (sys_ring s)) (sys_reader s))"
        using True by (rule pull_lagging)
      show "read_idx (sys_reader s) \<le> fast_forward (sys_ring s) (write_idx (sys_ring s))"
        using resync_forward [OF h(1) w(2) True] by simp
      show "fast_forward (sys_ring s) (write_idx (sys_ring s)) \<le> length (sys_published s)"
        using resync_in_window [OF h(1) w(2,3), of "sys_reader s"] w(1) by (simp add: reader_in_window_def)
    qed
  next
    case False
    with lags_or_in_window [OF h(1) w(3) _ w(4)] have "reader_in_window (sys_ring s) 0 h (sys_reader s)"
      by simp
    with h show ?thesis by (rule window)
  qed
qed

lemma inv_overflow:
  assumes inv: "ring_system_inv s" and pull: "pull (sys_ring s) (sys_reader s) = Some (Inl Overflow, rd)"
  shows "ring_system_inv (s\<lparr>sys_reader := rd, sys_overflows := sys_overflows s + 1\<rparr>)"
proof -
  from inv have part: "ring_part s" "delivered_part s" "decode_part s"
    by (auto simp: ring_system_inv_def)
  have rd: "awaiting_keyframe rd \<and> read_idx (sys_reader s) \<le> read_idx rd \<and> read_idx rd \<le> length (sys_published s)"
    using part(1)
  proof (cases rule: pull_inv_cases)
    case lagging
    with pull show ?thesis by auto
  next
    case (window h)
    with pull_spec [OF window(3)] pull show ?thesis by auto
  qed
  have "delivered_part (s\<lparr>sys_reader := rd, sys_overflows := sys_overflows s + 1\<rparr>)"
    using part(2) rd by (fastforce simp: delivered_part_def)
  with part rd show ?thesis
    by (auto simp: ring_system_inv_def ring_part_def decode_part_def decodable_run_def)
qed

lemma inv_empty:
  assumes inv: "ring_system_inv s" and pull: "pull (sys_ring s) (sys_reader s) = Some (Inr None, rd)"
  shows "ring_system_inv (s\<lparr>sys_reader := rd\<rparr>)"
proof -
  from inv have part: "ring_part s" "delivered_part s" "decode_part s"
    by (auto simp: ring_system_inv_def)
  have rd: "awaiting_keyframe rd = awaiting_keyframe (sys_reader s) \<and> read_idx (sys_reader s) \<le> read_idx rd \<and>
      read_idx rd \<le> length (sys_published s) \<and> (\<not> awaiting_keyframe rd \<longrightarrow> read_idx rd = read_idx (sys_reader s))"
    using part(1)
  proof (cases rule: pull_inv_cases)
    case lagging
    with pull show ?thesis by auto
  next
    case (window h)
    have w: "write_idx (sys_ring s) = length (sys_published s)"
      using window by (metis length_map ring_ok_def add_0)
    from pull_spec [OF window(3)] pull
    have nd: "next_deliverable (awaiting_keyframe (sys_reader s)) (pending 0 h (sys_reader s)) = None"
      and aw: "awaiting_keyframe rd = awaiting_keyframe (sys_reader s)" "read_idx rd = write_idx (sys_ring s)"
        "read_idx (sys_reader s) \<le> read_idx rd"
      by (auto split: option.splits)
    have "read_idx (sys_reader s) = read_idx rd" if "\<not> awaiting_keyframe rd"
      using nd that aw pending_Nil [OF window(1), of "sys_reader s"]
      by (cases "pending 0 h (sys_reader s)") auto
    with aw w show ?thesis by auto
  qed
  have "delivered_part (s\<lparr>sys_reader := rd\<rparr>)"
    using part(2) rd by (fastforce simp: delivered_part_def)
  with part rd show ?thesis
    by (auto simp: ring_system_inv_def ring_part_def decode_part_def decodable_run_def)
qed

lemma inv_start:
  assumes "ring_init s"
  shows "ring_system_inv s"
  using assms
proof cases
  case (1 cap ops rid ring name rd r)
  let ?r = "run_ring_ops ops (RingBuffer_new cap)"
  note ok = ring_ok_run_new [OF 1(2), of ops]
  have r: "r = ?r\<lparr>readers := readers ?r @ [rid]\<rparr>" and rd: "read_idx rd = fast_forward ?r (write_idx ?r)"
      "\<not> awaiting_keyframe rd"
    using 1(5) by (auto simp: Reader_new_def register_def)
  have "ring_ok r 0 (ops_entries ops (RingBuffer_new cap))"
    using ok(1) unfolding r by (simp add: ring_ok_def ring_core_def slot_at_def)
  moreover have "read_idx rd \<le> write_idx ?r"
    using resync_in_window [OF ok(1), of rd] 1 ok rd by (simp add: reader_in_window_def)
  ultimately show ?thesis
    using 1 ok rd(2)
    by (auto simp: ring_system_inv_def ring_part_def delivered_part_def decode_part_def decodable_run_def
        map_fst_ops_entries r intro!: exI [of _ "ops_entries ops (RingBuffer_new cap)"])
qed

lemma inv_ring_step: "ring_system_inv s \<Longrightarrow> ring_step s t \<Longrightarrow> ring_system_inv t"
  by (erule ring_stepE)
    (simp_all add: inv_produce inv_deliver [simplified] inv_empty inv_overflow [simplified])

interpretation ring_sys: inductive_invariant ring_init ring_step ring_system_inv
  by unfold_locales (fact inv_start, fact inv_ring_step)

subsection \<open>What a reader sees\<close>


text \<open>
  C12. A reader that never overflowed has delivered everything published from where it attached
  up to its cursor, audio and video, in order.
\<close>

theorem reader_gapless:
  assumes "reachable ring_init ring_step s" and "sys_overflows s = 0"
  shows "map snd (sys_delivered s) =
    drop (sys_start s) (take (read_idx (sys_reader s)) (sys_published s))"
proof -
  have inv: "ring_part s" "delivered_part s"
    using ring_sys.reachable_inv [OF assms(1)] by (auto simp: ring_system_inv_def)
  let ?n = "read_idx (sys_reader s)" and ?i = "map fst (sys_delivered s)"
  have "set ?i = {sys_start s..<?n}"
    using inv(2) assms(2) by (fastforce simp: delivered_part_def)
  moreover have "sorted_wrt (<) ?i" using inv(2) by (simp add: delivered_part_def)
  ultimately have i: "?i = [sys_start s..<?n]"
    by (intro sorted_distinct_set_unique) (auto simp: strict_sorted_iff)
  have "map snd (sys_delivered s) = map (\<lambda>j. sys_published s ! j) ?i"
    using inv(2) by (auto simp: delivered_part_def)
  also have "\<dots> = drop (sys_start s) (take ?n (sys_published s))"
    unfolding i using inv(1) by (intro nth_equalityI) (auto simp: ring_part_def)
  finally show ?thesis .
qed


subsection \<open>A concrete run\<close>

abbreviation run_ops :: "ring_op list" where
  "run_ops \<equiv> [Push 0 (sample_packet Video True 0), Push 0 (sample_packet Video False 1)]"

abbreviation run_ring :: ring_buffer where
  "run_ring \<equiv> snd (Reader_new 0 0 ''r'' (run_ring_ops run_ops (RingBuffer_new 4)))"

abbreviation run_reader :: reader where
  "run_reader \<equiv> fst (Reader_new 0 0 ''r'' (run_ring_ops run_ops (RingBuffer_new 4)))"

abbreviation run_end :: ring_system where
  "run_end \<equiv> \<lparr>sys_ring = run_ring, sys_reader = set_read_idx (set_read_idx run_reader 1) 2,
     sys_published = published run_ops, sys_start = 0,
     sys_delivered = [(0, sample_packet Video True 0), (1, sample_packet Video False 1)], sys_overflows = 0\<rparr>"

lemmas run_eval = Reader_new_def register_def fast_forward_def read_at_def ring_eval configs_eval
  unpack_pack_self usize_MAX_def set_read_idx_def lags_a_lap_def is_video_interframe_def ReaderInfo_new_def

lemma run_pulls:
  "read_idx run_reader = 0"
  "pull run_ring run_reader = Some (Inr (Some (sample_packet Video True 0)), set_read_idx run_reader 1)"
  "pull run_ring (set_read_idx run_reader 1) =
     Some (Inr (Some (sample_packet Video False 1)), set_read_idx (set_read_idx run_reader 1) 2)"
  by (simp_all add: pull.simps run_eval)

lemma run_reachable: "reachable ring_init ring_step run_end"
proof -
  let ?s0 = "\<lparr>sys_ring = run_ring, sys_reader = run_reader, sys_published = published run_ops,
      sys_start = read_idx run_reader, sys_delivered = [], sys_overflows = 0\<rparr>"
  let ?s1 = "?s0\<lparr>sys_reader := set_read_idx run_reader 1,
      sys_delivered := [(0, sample_packet Video True 0)]\<rparr>"
  have "ring_init ?s0"
    by (rule ring_init.intros [of 4]) (auto simp: usize_MAX_def)
  then have "reachable ring_init ring_step ?s0" by (rule reachable_init)
  moreover have "ring_step ?s0 ?s1"
    using step_deliver [of ?s0 "sample_packet Video True 0" "set_read_idx run_reader 1"] run_pulls by simp
  ultimately have "reachable ring_init ring_step ?s1" by (rule reachable_step)
  moreover have "ring_step ?s1 run_end"
    using step_deliver [of ?s1 "sample_packet Video False 1" "set_read_idx (set_read_idx run_reader 1) 2"] run_pulls
    by simp
  ultimately show ?thesis by (rule reachable_step)
qed


theorem reader_gapless_witness:
  "map snd (sys_delivered run_end) = drop 0 (take 2 (sys_published run_end))"
  using reader_gapless [OF run_reachable] by simp


end
