(* ===== verification/Bit_Reader.thy ===== *)
theory Bit_Reader
  imports Restream_Prelude
begin

text \<open>
  The checked bit reader of \<open>crates/restream-core/src/codec/bits.rs\<close>: single bits, fixed-width
  fields, the two Exp-Golomb codes, and the removal of emulation-prevention bytes.

  A reader stands for the bits it has not consumed. Each kind of field is shown to decode
  exactly its own code words (locale \<open>bit_code\<close>), which makes it prefix-free and lets a
  sequence of fields be read back in order.
\<close>

unbundle bit_operations_syntax

subsection \<open>The reader\<close>

record bit_reader =
  br_data :: bytes
  br_mask :: u8

definition BitReader_new :: "bytes \<Rightarrow> bit_reader" where
  "BitReader_new data = \<lparr>br_data = data, br_mask = 0x80\<rparr>"

definition read_bit :: "bit_reader \<Rightarrow> (bool \<times> bit_reader) option" where
  "read_bit r =
     (case br_data r of
        [] \<Rightarrow> None
      | byte # rest \<Rightarrow>
          let b = (byte AND br_mask r \<noteq> 0)
          in Some (b, if br_mask r = 0x01 then r\<lparr>br_mask := 0x80, br_data := rest\<rparr>
                      else r\<lparr>br_mask := br_mask r div 2\<rparr>))"

text \<open>The loop of \<open>read_bits\<close>; the value is checked against \<open>u32\<close> at every doubling.\<close>

fun read_bits_loop :: "nat \<Rightarrow> nat \<Rightarrow> bit_reader \<Rightarrow> (nat \<times> bit_reader) option" where
  "read_bits_loop 0 value r = Some (value, r)"
| "read_bits_loop (Suc n) value r =
     (if value * 2 \<le> u32_MAX then
        case read_bit r of
          None \<Rightarrow> None
        | Some (b, r) \<Rightarrow> read_bits_loop n ((value * 2) OR of_bool b) r
      else None)"

definition read_bits :: "nat \<Rightarrow> bit_reader \<Rightarrow> (nat \<times> bit_reader) option" where
  "read_bits n r = (if n > 32 then None else read_bits_loop n 0 r)"

fun skip :: "nat \<Rightarrow> bit_reader \<Rightarrow> (unit \<times> bit_reader) option" where
  "skip 0 r = Some ((), r)"
| "skip (Suc n) r = (case read_bit r of None \<Rightarrow> None | Some (_, r) \<Rightarrow> skip n r)"

function leading_zeros_loop :: "nat \<Rightarrow> bit_reader \<Rightarrow> (nat \<times> bit_reader) option" where
  "leading_zeros_loop zeros r =
     (case read_bit r of
        None \<Rightarrow> None
      | Some (b, r) \<Rightarrow>
          if b then Some (zeros, r)
          else if zeros + 1 > 31 then None
          else leading_zeros_loop (zeros + 1) r)"
  by pat_completeness auto
termination by (relation "measure (\<lambda>(zeros, r). 32 - zeros)") auto

declare leading_zeros_loop.simps [simp del]

definition read_ue :: "bit_reader \<Rightarrow> (nat \<times> bit_reader) option" where
  "read_ue r = do {
     (leading_zeros, r) \<leftarrow> leading_zeros_loop 0 r;
     if leading_zeros = 0 then Some (0, r)
     else do {
       (suffix, r) \<leftarrow> read_bits leading_zeros r;
       v \<leftarrow> (if 2 ^ leading_zeros - 1 + suffix \<le> u32_MAX then Some (2 ^ leading_zeros - 1 + suffix) else None);
       Some (v, r)
     }
   }"

definition read_se :: "bit_reader \<Rightarrow> (int \<times> bit_reader) option" where
  "read_se r = do {
     (code, r) \<leftarrow> read_ue r;
     let magnitude = (int code + 1) div 2;
     let value = (if odd code then magnitude else - magnitude);
     if - (2 ^ 31) \<le> value \<and> value < 2 ^ 31 then Some (value, r) else None
   }"

fun rbsp_loop :: "nat \<Rightarrow> bytes \<Rightarrow> bytes" where
  "rbsp_loop zeros [] = []"
| "rbsp_loop zeros (byte # data) =
     (if zeros \<ge> 2 \<and> byte = 3 then rbsp_loop 0 data
      else byte # rbsp_loop (if byte = 0 then saturating_add 255 zeros 1 else 0) data)"

definition rbsp :: "bytes \<Rightarrow> bytes" where
  "rbsp data = rbsp_loop 0 data"

subsection \<open>The unread bits\<close>

definition byte_bits :: "u8 \<Rightarrow> bool list" where
  "byte_bits b = map (bit b) [7, 6, 5, 4, 3, 2, 1, 0]"

abbreviation bytes_bits :: "bytes \<Rightarrow> bool list" where
  "bytes_bits bs \<equiv> concat (map byte_bits bs)"

definition reader_wf :: "bit_reader \<Rightarrow> bool" where
  "reader_wf r \<longleftrightarrow> (\<exists>k < 8. br_mask r = 2 ^ k \<and> (br_data r = [] \<longrightarrow> k = 7))"

definition mask_index :: "u8 \<Rightarrow> nat" where
  "mask_index m = the (List.find (\<lambda>k. m = 2 ^ k) [0, 1, 2, 3, 4, 5, 6, 7])"

definition reader_bits :: "bit_reader \<Rightarrow> bool list" where
  "reader_bits r =
     (case br_data r of
        [] \<Rightarrow> []
      | byte # rest \<Rightarrow> drop (7 - mask_index (br_mask r)) (byte_bits byte) @ bytes_bits rest)"

lemma nat_less_8_cases: "(k :: nat) < 8 \<Longrightarrow> k \<in> {0, 1, 2, 3, 4, 5, 6, 7}"
  by auto

lemma mask_index_power: "k < 8 \<Longrightarrow> mask_index (2 ^ k) = k"
  using nat_less_8_cases [of k] by (auto simp: mask_index_def)

lemma and_power_neq_0: "(b :: u8) AND 2 ^ k \<noteq> 0 \<longleftrightarrow> bit b k"
  by (simp add: and_exp_eq_0_iff_not_bit)

lemma reader_wf_new [simp]: "reader_wf (BitReader_new data)"
  by (auto simp: reader_wf_def BitReader_new_def intro: exI [of _ 7])

lemma reader_bits_new [simp]: "reader_bits (BitReader_new data) = bytes_bits data"
  by (auto simp: reader_bits_def BitReader_new_def mask_index_def split: list.splits)

lemma length_byte_bits [simp]: "length (byte_bits b) = 8"
  by (simp add: byte_bits_def)

lemma byte_bits_nth: "k < 8 \<Longrightarrow> drop (7 - k) (byte_bits b) = bit b k # drop (8 - k) (byte_bits b)"
  using nat_less_8_cases [of k] by (auto simp: byte_bits_def)

text \<open>Reading a bit takes the first of the unread bits.\<close>

lemma read_bit_None: "reader_wf r \<Longrightarrow> read_bit r = None \<longleftrightarrow> reader_bits r = []"
  by (auto simp: read_bit_def reader_bits_def reader_wf_def mask_index_power Let_def split: list.splits)

lemma read_bit_Some:
  assumes "reader_wf r" and "read_bit r = Some (b, r')"
  shows "reader_wf r' \<and> reader_bits r = b # reader_bits r'"
proof -
  from assms obtain k byte rest where k: "k < 8" "br_mask r = 2 ^ k" and data: "br_data r = byte # rest"
    and b: "b = bit byte k"
    and r': "r' = (if br_mask r = 1 then r\<lparr>br_mask := 0x80, br_data := rest\<rparr> else r\<lparr>br_mask := br_mask r div 2\<rparr>)"
    by (auto simp: reader_wf_def read_bit_def Let_def and_power_neq_0 split: list.splits)
  have bits: "reader_bits r = bit byte k # drop (8 - k) (byte_bits byte) @ bytes_bits rest"
    using k data by (simp add: reader_bits_def mask_index_power byte_bits_nth)
  show ?thesis
  proof (cases k)
    case 0
    then have "r' = r\<lparr>br_mask := 2 ^ 7, br_data := rest\<rparr>" using k r' by simp
    then show ?thesis
      using bits b 0 mask_index_power [of 7]
      by (auto simp: reader_wf_def reader_bits_def split: list.splits intro!: exI [of _ 7])
  next
    case (Suc j)
    then have "j \<in> {0, 1, 2, 3, 4, 5, 6}" using k(1) by auto
    then have "br_mask r \<noteq> 1" "br_mask r div 2 = 2 ^ j" using k(2) Suc by auto
    then have "r' = r\<lparr>br_mask := 2 ^ j\<rparr>" using r' by simp
    then show ?thesis
      using bits b Suc k(1) data by (auto simp: reader_wf_def reader_bits_def mask_index_power intro!: exI [of _ j])
  qed
qed

lemma read_bit_Cons:
  assumes "reader_wf r" and "reader_bits r = b # bs"
  obtains r' where "read_bit r = Some (b, r')" and "reader_wf r'" and "reader_bits r' = bs"
proof -
  from read_bit_None [OF assms(1)] assms(2) obtain b' r' where r': "read_bit r = Some (b', r')" by fastforce
  from read_bit_Some [OF assms(1) this] assms(2) r' show thesis by (intro that) auto
qed

subsection \<open>Codes\<close>

text \<open>A field: its code words, its decoder on a reader, and the values it can take.\<close>

locale bit_code =
  fixes enc :: "'a \<Rightarrow> bool list"
    and dec :: "bit_reader \<Rightarrow> ('a \<times> bit_reader) option"
    and ok :: "'a \<Rightarrow> bool"
  assumes dec_enc: "reader_wf r \<Longrightarrow> ok a \<Longrightarrow> reader_bits r = enc a @ rest \<Longrightarrow>
      \<exists>r'. dec r = Some (a, r') \<and> reader_wf r' \<and> reader_bits r' = rest"
    and dec_sound: "reader_wf r \<Longrightarrow> dec r = Some (a, r') \<Longrightarrow>
      ok a \<and> reader_wf r' \<and> reader_bits r = enc a @ reader_bits r'"
begin

lemma dec_iff:
  assumes "reader_wf r"
  shows "(\<exists>r'. dec r = Some (a, r') \<and> reader_bits r' = rest) \<longleftrightarrow> ok a \<and> reader_bits r = enc a @ rest"
  using dec_enc [OF assms] dec_sound [OF assms] by metis

lemma bind_dec:
  assumes "reader_wf r" and "ok a" and "reader_bits r = enc a @ rest"
    and "\<And>r'. reader_wf r' \<Longrightarrow> reader_bits r' = rest \<Longrightarrow> f (a, r') = x"
  shows "Option.bind (dec r) f = x"
  using dec_enc [OF assms(1-3)] assms(4) by auto

lemma take_n_enc:
  "reader_wf r \<Longrightarrow> list_all ok as \<Longrightarrow> reader_bits r = concat (map enc as) @ rest \<Longrightarrow>
     \<exists>r'. take_n dec (length as) r = Some (as, r') \<and> reader_wf r' \<and> reader_bits r' = rest"
proof (induction as arbitrary: r)
  case (Cons a as)
  from dec_enc [OF Cons.prems(1), of a "concat (map enc as) @ rest"] Cons.prems
  obtain q where q: "dec r = Some (a, q)" "reader_wf q" "reader_bits q = concat (map enc as) @ rest" by auto
  with Cons.IH [OF q(2)] Cons.prems(2) show ?case by auto
qed simp

lemma take_n_dec_sound:
  "reader_wf r \<Longrightarrow> take_n dec n r = Some (as, r') \<Longrightarrow>
     list_all ok as \<and> reader_wf r' \<and> reader_bits r = concat (map enc as) @ reader_bits r'"
proof (induction n arbitrary: r as)
  case (Suc n)
  then obtain a q as' where q: "dec r = Some (a, q)" "take_n dec n q = Some (as', r')" "as = a # as'"
    by (auto simp: bind_eq_Some_conv split: option.splits)
  from dec_sound [OF Suc.prems(1) q(1)] Suc.IH [OF _ q(2)] q(3) show ?case by auto
qed simp

end

subsection \<open>Fixed-width fields\<close>

fun nat_bits :: "nat \<Rightarrow> nat \<Rightarrow> bool list" where
  "nat_bits 0 v = []"
| "nat_bits (Suc n) v = nat_bits n (v div 2) @ [odd v]"

definition bits_value :: "bool list \<Rightarrow> nat" where
  "bits_value bs = foldl (\<lambda>v b. 2 * v + of_bool b) 0 bs"

lemma bits_value_Nil [simp]: "bits_value [] = 0"
  by (simp add: bits_value_def)

lemma bits_value_snoc [simp]: "bits_value (bs @ [b]) = 2 * bits_value bs + of_bool b"
  by (simp add: bits_value_def)

lemma length_nat_bits [simp]: "length (nat_bits n v) = n"
  by (induction n arbitrary: v) auto

lemma bits_value_bound: "bits_value bs < 2 ^ length bs"
  by (induction bs rule: rev_induct) auto

lemma bits_value_nat_bits: "v < 2 ^ n \<Longrightarrow> bits_value (nat_bits n v) = v"
  by (induction n arbitrary: v) auto

lemma nat_bits_value: "nat_bits (length bs) (bits_value bs) = bs"
  by (induction bs rule: rev_induct) auto

lemma double_or_bit: "(v * 2 :: nat) OR of_bool b = 2 * v + of_bool b"
  by (cases b) (simp_all add: or_Suc_0_eq)

lemma read_bits_loop_value:
  assumes "reader_wf r" and "(value + 1) * 2 ^ n \<le> 2 ^ 32" and "reader_bits r = bs @ rest" and "length bs = n"
  shows "\<exists>r'. read_bits_loop n value r = Some (foldl (\<lambda>v b. 2 * v + of_bool b) value bs, r') \<and>
    reader_wf r' \<and> reader_bits r' = rest"
  using assms
proof (induction n arbitrary: "value" r bs)
  case (Suc n)
  then obtain b bs' where bs: "bs = b # bs'" "length bs' = n" by (cases bs) auto
  from Suc.prems(1,3) bs obtain r' where r': "read_bit r = Some (b, r')" "reader_wf r'" "reader_bits r' = bs' @ rest"
    by (auto elim: read_bit_Cons)
  have "(2 * value + of_bool b + 1) * 2 ^ n \<le> (2 * value + 2) * 2 ^ n"
    by (intro mult_le_mono1) (simp split: if_splits)
  then have step: "(2 * value + of_bool b + 1) * 2 ^ n \<le> 2 ^ 32"
    using Suc.prems(2) by (simp add: algebra_simps)
  have "(value + 1) * 2 * 1 \<le> (value + 1) * 2 * 2 ^ n" by (intro mult_le_mono2) simp
  then have "value * 2 \<le> u32_MAX"
    using Suc.prems(2) by (simp add: u32_MAX_def algebra_simps)
  with Suc.IH [OF r'(2) step r'(3) bs(2)] r'(1) bs(1) show ?case
    by (simp add: double_or_bit)
qed auto

lemma read_bits_loop_short:
  "reader_wf r \<Longrightarrow> length (reader_bits r) < n \<Longrightarrow> read_bits_loop n value r = None"
proof (induction n arbitrary: "value" r)
  case (Suc n)
  show ?case
  proof (cases "read_bit r")
    case (Some p)
    with read_bit_Some [OF Suc.prems(1), of "fst p" "snd p"] Suc.prems Suc.IH [of "snd p"] show ?thesis
      by (cases p) simp
  qed simp
qed simp

lemma read_bits_eq:
  assumes "reader_wf r" and "n \<le> 32"
  shows "(\<exists>r'. length bs = n \<and> reader_bits r = bs @ rest \<and> read_bits n r = Some (bits_value bs, r') \<and>
      reader_wf r' \<and> reader_bits r' = rest) \<longleftrightarrow> length bs = n \<and> reader_bits r = bs @ rest"
proof -
  have "(0 + 1) * 2 ^ n \<le> (2 ^ 32 :: nat)"
    using power_increasing [OF assms(2), of "2 :: nat"] by simp
  from read_bits_loop_value [OF assms(1) this] assms(2) show ?thesis
    by (auto simp: read_bits_def bits_value_def)
qed

lemma read_bits_code:
  assumes "n \<le> 32"
  shows "bit_code (nat_bits n) (read_bits n) (\<lambda>v. v < 2 ^ n)"
proof
  fix r a rest assume wf: "reader_wf r" and "a < 2 ^ n" and "reader_bits r = nat_bits n a @ rest"
  with read_bits_eq [OF wf assms, of "nat_bits n a" rest]
  show "\<exists>r'. read_bits n r = Some (a, r') \<and> reader_wf r' \<and> reader_bits r' = rest"
    by (auto simp: bits_value_nat_bits)
next
  fix r a r' assume wf: "reader_wf r" and dec: "read_bits n r = Some (a, r')"
  have "n \<le> length (reader_bits r)"
    using dec read_bits_loop_short [OF wf, of n 0] assms by (force simp: read_bits_def)
  then obtain bs rest where split: "length bs = n" "reader_bits r = bs @ rest"
    by (metis append_take_drop_id length_take min.absorb2)
  with read_bits_eq [OF wf assms, of bs rest] dec
  show "a < 2 ^ n \<and> reader_wf r' \<and> reader_bits r = nat_bits n a @ reader_bits r'"
    using bits_value_bound [of bs] nat_bits_value [of bs] by auto
qed

interpretation flag: bit_code "nat_bits 1" "read_bits 1" "\<lambda>v. v < 2 ^ 1"
  by (rule read_bits_code) simp

interpretation byte_field: bit_code "nat_bits 8" "read_bits 8" "\<lambda>v. v < 2 ^ 8"
  by (rule read_bits_code) simp

interpretation word_field: bit_code "nat_bits 32" "read_bits 32" "\<lambda>v. v < 2 ^ 32"
  by (rule read_bits_code) simp

text \<open>Skipping bits: the code words are all the strings of that length.\<close>

lemma skip_bits:
  assumes "reader_wf r" and "reader_bits r = bs @ rest" and "length bs = n"
  shows "\<exists>r'. skip n r = Some ((), r') \<and> reader_wf r' \<and> reader_bits r' = rest"
  using assms
proof (induction n arbitrary: r bs)
  case (Suc n)
  then obtain b bs' where bs: "bs = b # bs'" "length bs' = n" by (cases bs) auto
  with Suc.prems obtain r' where "read_bit r = Some (b, r')" "reader_wf r'" "reader_bits r' = bs' @ rest"
    by (auto elim: read_bit_Cons)
  with Suc.IH bs(2) show ?case by auto
qed simp

declare skip.simps [simp del]

lemma bind_skip:
  assumes "reader_wf r" and "reader_bits r = bs @ rest" and "length bs = n"
    and "\<And>r'. reader_wf r' \<Longrightarrow> reader_bits r' = rest \<Longrightarrow> f ((), r') = x"
  shows "Option.bind (skip n r) f = x"
  using skip_bits [OF assms(1-3)] assms(4) by auto

subsection \<open>Exp-Golomb codes\<close>

text \<open>The number of leading zeros of a code word: the base-two logarithm of the code number plus one.\<close>

fun ue_zeros :: "nat \<Rightarrow> nat" where
  "ue_zeros v = (if v = 0 then 0 else Suc (ue_zeros ((v - 1) div 2)))"

declare ue_zeros.simps [simp del]

definition ue_bits :: "nat \<Rightarrow> bool list" where
  "ue_bits v = replicate (ue_zeros v) False @ True # nat_bits (ue_zeros v) (v + 1 - 2 ^ ue_zeros v)"

definition se_code :: "int \<Rightarrow> nat" where
  "se_code v = (if v > 0 then nat (2 * v - 1) else nat (- 2 * v))"

definition se_bits :: "int \<Rightarrow> bool list" where
  "se_bits v = ue_bits (se_code v)"

lemma doubled_between:
  "P \<le> d + 1 \<Longrightarrow> d + 1 < 2 * P \<Longrightarrow> 2 * (d + 1) \<le> v + 1 \<Longrightarrow> v + 1 < 2 * (d + 2) \<Longrightarrow>
     2 * P \<le> v + 1 \<and> v + 1 < 2 * (2 * P :: nat)"
  by simp

lemma ue_zeros_bounds: "2 ^ ue_zeros v \<le> v + 1 \<and> v + 1 < 2 * 2 ^ ue_zeros v"
proof (induction v rule: ue_zeros.induct)
  case (1 v)
  show ?case
  proof (cases "v = 0")
    case False
    then have "2 ^ ue_zeros v = (2 * 2 ^ ue_zeros ((v - 1) div 2) :: nat)" by (simp add: ue_zeros.simps [of v])
    moreover have "2 ^ ue_zeros ((v - 1) div 2) \<le> (v - 1) div 2 + 1" "(v - 1) div 2 + 1 < 2 * 2 ^ ue_zeros ((v - 1) div 2)"
      using 1 False by simp_all
    moreover have "2 * ((v - 1) div 2 + 1) \<le> v + 1" "v + 1 < 2 * ((v - 1) div 2 + 2)"
      using False by presburger+
    ultimately show ?thesis by (simp only: doubled_between)
  qed (simp add: ue_zeros.simps [of 0])
qed

lemma power2_between_unique:
  assumes "(2 :: nat) ^ j \<le> n" "n < 2 * 2 ^ j" "2 ^ k \<le> n" "n < 2 * 2 ^ k"
  shows "j = k"
proof -
  have "2 ^ j < (2 :: nat) ^ Suc k" "2 ^ k < (2 :: nat) ^ Suc j" using assms by auto
  then have "j < Suc k" "k < Suc j" by (simp_all only: power_strict_increasing_iff)
  then show ?thesis by simp
qed

lemma ue_zeros_eq: "2 ^ k \<le> v + 1 \<Longrightarrow> v + 1 < 2 * 2 ^ k \<Longrightarrow> ue_zeros v = k"
  using ue_zeros_bounds [of v] by (intro power2_between_unique [of _ "v + 1"]) auto

lemma ue_zeros_le_31:
  assumes "v \<le> 2 ^ 32 - 2"
  shows "ue_zeros v \<le> 31"
proof -
  have "v + 1 < 2 ^ 32" using assms by simp
  with conjunct1 [OF ue_zeros_bounds [of v]] have "(2 :: nat) ^ ue_zeros v < 2 ^ 32" by (rule le_less_trans)
  then have "ue_zeros v < 32" by (simp only: power_strict_increasing_iff)
  then show ?thesis by simp
qed

lemma leading_zeros_loop_count:
  assumes "reader_wf r" and "zeros + k \<le> 31" and "reader_bits r = replicate k False @ True # rest"
  shows "\<exists>r'. leading_zeros_loop zeros r = Some (zeros + k, r') \<and> reader_wf r' \<and> reader_bits r' = rest"
  using assms
proof (induction k arbitrary: zeros r)
  case 0
  then obtain r' where "read_bit r = Some (True, r')" "reader_wf r'" "reader_bits r' = rest"
    by (auto elim: read_bit_Cons)
  then show ?case by (simp add: leading_zeros_loop.simps [of _ r])
next
  case (Suc k)
  then obtain r' where "read_bit r = Some (False, r')" "reader_wf r'" "reader_bits r' = replicate k False @ True # rest"
    by (auto elim: read_bit_Cons)
  with Suc.IH [of r' "zeros + 1"] Suc.prems(2) show ?case
    by (simp add: leading_zeros_loop.simps [of _ r])
qed

lemma leading_zeros_loop_sound:
  "reader_wf r \<Longrightarrow> zeros \<le> 31 \<Longrightarrow> leading_zeros_loop zeros r = Some (n, r') \<Longrightarrow>
     \<exists>k. n = zeros + k \<and> n \<le> 31 \<and> reader_wf r' \<and> reader_bits r = replicate k False @ True # reader_bits r'"
proof (induction zeros r arbitrary: n r' rule: leading_zeros_loop.induct)
  case (1 zeros r)
  from 1(4) obtain b q where q: "read_bit r = Some (b, q)"
    by (auto simp: leading_zeros_loop.simps [of _ r] split: option.splits)
  from read_bit_Some [OF 1(2) q] have bits: "reader_wf q" "reader_bits r = b # reader_bits q" by auto
  show ?case
  proof (cases b)
    case True
    with 1(3,4) q bits show ?thesis
      by (intro exI [of _ 0]) (auto simp: leading_zeros_loop.simps [of _ r])
  next
    case False
    with 1(4) q have "\<not> zeros + 1 > 31" "leading_zeros_loop (zeros + 1) q = Some (n, r')"
      by (auto simp: leading_zeros_loop.simps [of _ r] split: if_splits)
    with 1(1) [OF q refl False] bits(1) obtain k where
      "n = zeros + 1 + k" "n \<le> 31" "reader_wf r'" "reader_bits q = replicate k False @ True # reader_bits r'"
      by auto
    with bits(2) False show ?thesis by (intro exI [of _ "Suc k"]) auto
  qed
qed

lemma ue_value_le: "k \<le> 31 \<Longrightarrow> s < 2 ^ k \<Longrightarrow> 2 ^ k - 1 + s \<le> (2 ^ 32 - 2 :: nat)"
  using power_increasing [of k 31 "2 :: nat"] by simp

lemma read_ue_enc:
  assumes wf: "reader_wf r" and v: "v \<le> 2 ^ 32 - 2" and bits: "reader_bits r = ue_bits v @ rest"
  shows "\<exists>r'. read_ue r = Some (v, r') \<and> reader_wf r' \<and> reader_bits r' = rest"
proof -
  let ?k = "ue_zeros v" and ?s = "v + 1 - 2 ^ ue_zeros v"
  have k: "?k \<le> 31" using ue_zeros_le_31 [OF v] .
  have s: "?s < 2 ^ ?k" "2 ^ ?k - 1 + ?s = v" using ue_zeros_bounds [of v] by auto
  from leading_zeros_loop_count [OF wf, of 0 ?k "nat_bits ?k ?s @ rest"] k bits
  obtain q where q: "leading_zeros_loop 0 r = Some (?k, q)" "reader_wf q" "reader_bits q = nat_bits ?k ?s @ rest"
    by (auto simp: ue_bits_def)
  show ?thesis
  proof (cases "?k = 0")
    case True
    with s have "v = 0" by simp
    with True q show ?thesis by (simp add: read_ue_def)
  next
    case False
    have "bit_code (nat_bits ?k) (read_bits ?k) (\<lambda>v. v < 2 ^ ?k)"
      using k by (intro read_bits_code) simp
    from bit_code.dec_enc [OF this q(2) s(1) q(3)] obtain r' where
      "read_bits ?k q = Some (?s, r')" "reader_wf r'" "reader_bits r' = rest" by auto
    moreover have "2 ^ ?k - 1 + ?s \<le> u32_MAX"
      using v unfolding s(2) by (simp add: u32_MAX_def)
    ultimately show ?thesis
      using False q(1) s(2) by (simp add: read_ue_def)
  qed
qed

lemma read_ue_sound:
  assumes wf: "reader_wf r" and dec: "read_ue r = Some (v, r')"
  shows "v \<le> 2 ^ 32 - 2 \<and> reader_wf r' \<and> reader_bits r = ue_bits v @ reader_bits r'"
proof -
  from dec obtain k q where loop: "leading_zeros_loop 0 r = Some (k, q)"
    by (auto simp: read_ue_def bind_eq_Some_conv)
  from dec have tail: "if k = 0 then v = 0 \<and> r' = q else \<exists>s. read_bits k q = Some (s, r') \<and> v = 2 ^ k - 1 + s"
    by (cases "k = 0") (auto simp: read_ue_def loop bind_eq_Some_conv simp del: One_nat_def split: if_splits)
  from leading_zeros_loop_sound [OF wf _ loop] have k: "k \<le> 31" "reader_wf q"
    and bits: "reader_bits r = replicate k False @ True # reader_bits q" by auto
  show ?thesis
  proof (cases "k = 0")
    case True
    with tail bits k show ?thesis by (simp add: ue_bits_def ue_zeros.simps [of 0])
  next
    case False
    with tail obtain s where s: "read_bits k q = Some (s, r')" "v = 2 ^ k - 1 + s" by auto
    have "bit_code (nat_bits k) (read_bits k) (\<lambda>v. v < 2 ^ k)"
      using k by (intro read_bits_code) simp
    from bit_code.dec_sound [OF this k(2) s(1)] have sb: "s < 2 ^ k" "reader_wf r'"
      "reader_bits q = nat_bits k s @ reader_bits r'" by auto
    have v1: "v + 1 = 2 ^ k + s" using s(2) by simp
    then have zeros: "ue_zeros v = k" using sb(1) by (intro ue_zeros_eq) auto
    with v1 bits sb(2,3) ue_value_le [OF k(1) sb(1)] s(2) show ?thesis
      by (simp add: ue_bits_def)
  qed
qed

interpretation ue: bit_code ue_bits read_ue "\<lambda>v. v \<le> 2 ^ 32 - 2"
  by unfold_locales (blast intro: read_ue_enc dest: read_ue_sound)+

lemma se_code_le: "\<bar>v\<bar> \<le> 2 ^ 31 - 1 \<Longrightarrow> se_code v \<le> 2 ^ 32 - 2"
  by (auto simp: se_code_def abs_le_iff)

lemma se_code_decode:
  "(if odd (se_code v) then (int (se_code v) + 1) div 2 else - ((int (se_code v) + 1) div 2)) = v"
proof (cases "v > 0")
  case True
  then obtain n where "v = int n" "n > 0" by (metis zero_less_imp_eq_int)
  then show ?thesis by (auto simp: se_code_def nat_diff_distrib' nat_mult_distrib)
next
  case False
  then obtain n where "v = - int n" by (metis nonpos_int_cases not_less)
  then show ?thesis by (auto simp: se_code_def nat_mult_distrib)
qed

lemma se_code_surj:
  assumes "code \<le> 2 ^ 32 - 2"
    and "v = (if odd code then (int code + 1) div 2 else - ((int code + 1) div 2))"
  shows "se_code v = code \<and> \<bar>v\<bar> \<le> 2 ^ 31 - 1"
proof (cases "odd code")
  case True
  then obtain k where "code = 2 * k + 1" by (elim oddE)
  with assms show ?thesis by (auto simp: se_code_def nat_add_distrib nat_mult_distrib)
next
  case False
  then obtain k where "code = 2 * k" by (auto elim: evenE)
  with assms show ?thesis by (auto simp: se_code_def nat_mult_distrib)
qed

interpretation se: bit_code se_bits read_se "\<lambda>v. \<bar>v\<bar> \<le> 2 ^ 31 - 1"
proof
  fix r v rest assume wf: "reader_wf r" and v: "\<bar>v\<bar> \<le> 2 ^ 31 - 1" and bits: "reader_bits r = se_bits v @ rest"
  from ue.dec_enc [OF wf se_code_le [OF v]] bits obtain r' where
    r': "read_ue r = Some (se_code v, r')" "reader_wf r'" "reader_bits r' = rest"
    by (auto simp: se_bits_def)
  have "read_se r = Some (v, r')"
    using v unfolding read_se_def r'(1) by (simp add: Let_def se_code_decode abs_le_iff)
  with r' show "\<exists>r'. read_se r = Some (v, r') \<and> reader_wf r' \<and> reader_bits r' = rest" by blast
next
  fix r v r' assume wf: "reader_wf r" and dec: "read_se r = Some (v, r')"
  then obtain code where ue: "read_ue r = Some (code, r')"
    and v: "v = (if odd code then (int code + 1) div 2 else - ((int code + 1) div 2))"
    by (auto simp: read_se_def Let_def bind_eq_Some_conv split: if_splits)
  from ue.dec_sound [OF wf ue] have "code \<le> 2 ^ 32 - 2" "reader_wf r'" "reader_bits r = ue_bits code @ reader_bits r'"
    by auto
  with se_code_surj [OF this(1) v] show "\<bar>v\<bar> \<le> 2 ^ 31 - 1 \<and> reader_wf r' \<and> reader_bits r = se_bits v @ reader_bits r'"
    by (simp add: se_bits_def)
qed

subsection \<open>Reading a layout\<close>

text \<open>
  A parser reads a bit string as a value: started there, it answers the value and stops right
  after the string. The rules compose such facts along the structure of a parser.
\<close>

definition reads :: "(bit_reader \<Rightarrow> ('a \<times> bit_reader) option) \<Rightarrow> bool list \<Rightarrow> 'a \<Rightarrow> bool" where
  "reads d bs a \<longleftrightarrow> (\<forall>r rest. reader_wf r \<longrightarrow> reader_bits r = bs @ rest \<longrightarrow>
     (\<exists>r'. d r = Some (a, r') \<and> reader_wf r' \<and> reader_bits r' = rest))"

lemma readsE:
  assumes "reads d bs a" and "reader_wf r" and "reader_bits r = bs @ rest"
  obtains r' where "d r = Some (a, r')" and "reader_wf r'" and "reader_bits r' = rest"
  using assms by (auto simp: reads_def)

lemma reads_return: "reads (\<lambda>r. Some (a, r)) [] a"
  by (simp add: reads_def)

lemma reads_bind:
  assumes "reads d bs a" and "reads (f a) cs b"
  shows "reads (\<lambda>r. Option.bind (d r) (\<lambda>(x, r). f x r)) (bs @ cs) b"
  unfolding reads_def
proof (intro allI impI)
  fix r rest assume wf: "reader_wf r" and bits: "reader_bits r = (bs @ cs) @ rest"
  from assms(1) wf bits obtain q where q: "d r = Some (a, q)" "reader_wf q" "reader_bits q = cs @ rest"
    by (auto elim: readsE [of d bs a r "cs @ rest"])
  with assms(2) show "\<exists>r'. Option.bind (d r) (\<lambda>(x, r). f x r) = Some (b, r') \<and> reader_wf r' \<and> reader_bits r' = rest"
    by (auto simp: reads_def)
qed

lemma bind_reads:
  assumes "reads d bs a" and "reader_wf r" and "reader_bits r = bs @ rest"
    and "\<And>r'. reader_wf r' \<Longrightarrow> reader_bits r' = rest \<Longrightarrow> f a r' = x"
  shows "Option.bind (d r) (\<lambda>(a, r). f a r) = x"
  using assms by (auto elim!: readsE)

lemma reads_ue: "v \<le> 2 ^ 32 - 2 \<Longrightarrow> reads read_ue (ue_bits v) v"
  by (simp add: reads_def ue.dec_enc)

lemma reads_se: "\<bar>v\<bar> \<le> 2 ^ 31 - 1 \<Longrightarrow> reads read_se (se_bits v) v"
  by (simp add: reads_def se.dec_enc)

lemma reads_bits: "n \<le> 32 \<Longrightarrow> v < 2 ^ n \<Longrightarrow> reads (read_bits n) (nat_bits n v) v"
  using bit_code.dec_enc [OF read_bits_code [of n]] by (simp add: reads_def)

lemma reads_flag: "reads (read_bits 1) [b] (of_bool b)"
  using reads_bits [of 1 "of_bool b"] by (cases b) simp_all

lemma reads_skip: "length bs = n \<Longrightarrow> reads (skip n) bs ()"
  using skip_bits by (auto simp: reads_def)

lemma reads_take_n:
  "(\<And>a. a \<in> set as \<Longrightarrow> reads d (enc a) a) \<Longrightarrow> n = length as \<Longrightarrow> reads (take_n d n) (concat (map enc as)) as"
proof (induction as arbitrary: n)
  case Nil
  then show ?case by (simp add: reads_return)
next
  case (Cons a as)
  let ?k = "\<lambda>x s. Option.bind (take_n d (length as) s) (\<lambda>(xs, s). Some (x # xs, s))"
  have "reads (take_n d (length as)) (concat (map enc as)) as" using Cons by simp
  from reads_bind [OF this, of "\<lambda>xs s. Some (a # xs, s)" "[]" "a # as"]
  have "reads (?k a) (concat (map enc as)) (a # as)" by (simp add: reads_return)
  from reads_bind [of d "enc a" a ?k, OF _ this] Cons.prems(1)
  have "reads (\<lambda>r. Option.bind (d r) (\<lambda>(x, s). ?k x s)) (enc a @ concat (map enc as)) (a # as)" by simp
  with Cons.prems(2) show ?case by simp
qed

text \<open>An optional part: a presence flag, then its bits.\<close>

definition opt_bits :: "('a \<Rightarrow> bool list) \<Rightarrow> 'a option \<Rightarrow> bool list" where
  "opt_bits enc x = (case x of None \<Rightarrow> [False] | Some a \<Rightarrow> True # enc a)"

lemma reads_opt:
  assumes "\<And>a. x = Some a \<Longrightarrow> reads d (enc a) u" and "reads (k u) cs c"
  shows "reads (\<lambda>r. Option.bind (read_bits 1 r) (\<lambda>(flag, r).
      Option.bind (if flag = 1 then d r else Some (u, r)) (\<lambda>(b, r). k b r))) (opt_bits enc x @ cs) c"
proof (cases x)
  case None
  have "reads (\<lambda>r. Option.bind (if (0 :: nat) = 1 then d r else Some (u, r)) (\<lambda>(b, r). k b r)) ([] @ cs) c"
    by (rule reads_bind [of _ _ u]) (simp_all add: reads_return assms(2))
  from reads_bind [OF reads_flag [of False], of "\<lambda>flag r. Option.bind (if flag = 1 then d r else Some (u, r)) (\<lambda>(b, r). k b r)"] this
  show ?thesis by (simp add: None opt_bits_def)
next
  case (Some a)
  have "reads (\<lambda>r. Option.bind (if (1 :: nat) = 1 then d r else Some (u, r)) (\<lambda>(b, r). k b r)) (enc a @ cs) c"
    by (rule reads_bind [of _ _ u]) (simp_all add: assms Some)
  from reads_bind [OF reads_flag [of True], of "\<lambda>flag r. Option.bind (if flag = 1 then d r else Some (u, r)) (\<lambda>(b, r). k b r)"] this
  show ?thesis by (simp add: Some opt_bits_def)
qed

subsection \<open>Emulation prevention\<close>

text \<open>The encoder's side: a 3 before any byte up to 3 that follows two zero bytes.\<close>

fun escape_loop :: "nat \<Rightarrow> bytes \<Rightarrow> bytes" where
  "escape_loop zeros [] = []"
| "escape_loop zeros (b # bs) =
     (if zeros \<ge> 2 \<and> b \<le> 3 then 3 # b # escape_loop (if b = 0 then 1 else 0) bs
      else b # escape_loop (if b = 0 then zeros + 1 else 0) bs)"

definition escape :: "bytes \<Rightarrow> bytes" where
  "escape data = escape_loop 0 data"

definition no_start_code :: "bytes \<Rightarrow> bool" where
  "no_start_code bs \<longleftrightarrow> (\<forall>i. take 3 (drop i bs) \<noteq> [0, 0, 1])"

lemma rbsp_escape_loop: "zeros \<le> 2 \<Longrightarrow> rbsp_loop zeros (escape_loop zeros data) = data"
proof (induction zeros data rule: escape_loop.induct)
  case (2 zeros b bs)
  show ?case
  proof (cases "zeros \<ge> 2 \<and> b \<le> 3")
    case True
    with 2(1) show ?thesis by (cases "b = 0") (simp_all add: saturating_add_eq)
  next
    case False
    then have "zeros \<ge> 2 \<longrightarrow> b \<noteq> 0 \<and> b \<noteq> 3" by auto
    with 2(2,3) False show ?thesis by (cases "b = 0") (auto simp: saturating_add_eq)
  qed
qed simp

lemma no_start_code_Cons:
  "no_start_code (b # bs) \<longleftrightarrow> take 3 (b # bs) \<noteq> [0, 0, 1] \<and> no_start_code bs"
proof
  assume *: "no_start_code (b # bs)"
  have "take 3 (drop i bs) \<noteq> [0, 0, 1]" for i
    using * [unfolded no_start_code_def, rule_format, of "Suc i"] by simp
  with * [unfolded no_start_code_def, rule_format, of 0]
  show "take 3 (b # bs) \<noteq> [0, 0, 1] \<and> no_start_code bs" by (simp add: no_start_code_def)
next
  assume *: "take 3 (b # bs) \<noteq> [0, 0, 1] \<and> no_start_code bs"
  have "take 3 (drop i (b # bs)) \<noteq> [0, 0, 1]" for i
    using * by (cases i) (simp_all add: no_start_code_def)
  then show "no_start_code (b # bs)" by (simp add: no_start_code_def)
qed

lemma no_start_code_Nil [simp]: "no_start_code []"
  by (simp add: no_start_code_def)

lemma take_3_start_code: "take 3 (b # bs) = [0, 0, 1] \<longleftrightarrow> b = 0 \<and> (\<exists>cs. bs = 0 # 1 # (cs :: bytes))"
  by (cases bs; cases "tl bs") auto

lemma escape_loop_first_two:
  "zeros \<ge> 2 \<Longrightarrow> escape_loop zeros bs = c # cs \<Longrightarrow> c \<noteq> 1"
  "zeros \<ge> 1 \<Longrightarrow> escape_loop zeros bs = 0 # c # cs \<Longrightarrow> c \<noteq> 1"
  by (cases bs; cases "tl bs"; auto split: if_splits)+

lemma no_start_code_escape_loop: "no_start_code (escape_loop zeros bs)"
proof (induction zeros bs rule: escape_loop.induct)
  case (2 zeros b bs)
  have "take 3 (b # escape_loop (if b = 0 then Suc n else 0) bs) \<noteq> [0, 0, 1]" for n
    unfolding take_3_start_code using escape_loop_first_two(2) [of "Suc n" bs] by auto
  from this [of 0] this [of zeros] 2 show ?case
    by (cases "zeros \<ge> 2 \<and> b \<le> 3") (auto simp: no_start_code_Cons)
qed simp

text \<open>
  C24. Removing the emulation-prevention bytes undoes the encoder's insertion, and an escaped
  payload contains no start code, so it can be framed.
\<close>

theorem rbsp_escape: "rbsp (escape data) = data \<and> no_start_code (escape data)"
  by (simp add: rbsp_def escape_def rbsp_escape_loop no_start_code_escape_loop)

text \<open>
  C25. The Exp-Golomb readers return exactly the coded values: a run of unsigned codes reads
  back in order and leaves the reader after it, and nothing else reads as those values.
\<close>

theorem read_ue_sequence:
  assumes "reader_wf r"
  shows "(\<exists>r'. take_n read_ue (length vs) r = Some (vs, r') \<and> reader_bits r' = rest) \<longleftrightarrow>
    (\<forall>v \<in> set vs. v \<le> 2 ^ 32 - 2) \<and> reader_bits r = concat (map ue_bits vs) @ rest"
  using ue.take_n_enc [OF assms, of vs rest] ue.take_n_dec_sound [OF assms, of "length vs" vs]
  unfolding list_all_iff by metis

theorem read_ue_sequence_witness:
  "\<exists>r'. take_n read_ue 4 (BitReader_new [0xA6, 0x40]) = Some ([0, 1, 2, 3], r') \<and>
     reader_bits r' = replicate 4 False"
proof -
  have len: "length [0, 1, 2, 3 :: nat] = 4" by simp
  have "bytes_bits [0xA6, 0x40] = concat (map ue_bits [0, 1, 2, 3]) @ replicate 4 False"
    by code_simp
  then have "(\<forall>v \<in> set [0, 1, 2, 3 :: nat]. v \<le> 2 ^ 32 - 2) \<and>
      reader_bits (BitReader_new [0xA6, 0x40]) = concat (map ue_bits [0, 1, 2, 3]) @ replicate 4 False"
    by (simp only: reader_bits_new) simp
  then show ?thesis
    by (simp only: read_ue_sequence [OF reader_wf_new, symmetric] len)
qed

text \<open>
  C26. A signed Exp-Golomb code reads as a value exactly when the reader is at that value's code
  word; every code of up to 31 leading zeros is covered and none wraps.
\<close>

theorem read_se_exact:
  assumes "reader_wf r"
  shows "(\<exists>r'. read_se r = Some (v, r') \<and> reader_bits r' = rest) \<longleftrightarrow>
    \<bar>v\<bar> \<le> 2 ^ 31 - 1 \<and> reader_bits r = se_bits v @ rest"
  by (rule se.dec_iff [OF assms])

theorem read_se_exact_witness:
  "\<exists>r'. read_se (BitReader_new [0x4C]) = Some (1, r') \<and> reader_bits r' = [False, True, True, False, False]"
proof -
  have "bytes_bits [0x4C] = se_bits 1 @ [False, True, True, False, False]" by code_simp
  then show ?thesis
    using read_se_exact [OF reader_wf_new, of "[0x4C]" 1 "[False, True, True, False, False]"] by simp
qed

end
