(* ===== verification/Annexb.thy ===== *)
theory Annexb
  imports Bit_Reader
begin

text \<open>
  Annex B and AVCC framing of \<open>crates/restream-core/src/codec/video.rs\<close>: the start-code walk,
  parameter-set extraction, the AVC decoder configuration record, and the conversions between
  start codes and length prefixes.

  The substring search is the \<open>memchr\<close> crate's: it is the argument \<open>find_iter\<close> of the
  definitions, and \<open>finds_start_codes\<close> states its documented behaviour, all occurrences of
  \<open>00 00 01\<close> in order. Whatever it finds, walking a stream is visiting the list
  \<open>split_annexb_nalus\<close>; with the documented search that list is the inverse of joining NAL units
  with start codes.
\<close>

unbundle bit_operations_syntax

subsection \<open>The start-code walk\<close>

definition start_code_span :: "bytes \<Rightarrow> nat \<Rightarrow> nat \<times> nat" where
  "start_code_span data idx =
     (let zeros = (if idx \<le> length data then length (takeWhile (\<lambda>b. b = 0) (rev (take idx data))) else 0)
      in (idx - zeros, idx + 3))"

text \<open>
  The loop of \<open>for_each_annexb_nalu\<close>: \<open>visit\<close> answers whether to break, and threads the
  closure's captured state.
\<close>

fun annexb_loop ::
    "bytes \<Rightarrow> (bytes \<Rightarrow> 's \<Rightarrow> bool \<times> 's) \<Rightarrow> nat list \<Rightarrow> nat option \<Rightarrow> 's \<Rightarrow> bool \<times> 's" where
  "annexb_loop data visit [] current st =
     (case current of
        None \<Rightarrow> (False, st)
      | Some nalu_start \<Rightarrow>
          (case slice_from nalu_start data of
             Some nalu \<Rightarrow> if nalu \<noteq> [] then visit nalu st else (False, st)
           | None \<Rightarrow> (False, st)))"
| "annexb_loop data visit (idx # idxs) current st =
     (let (start, payload_start) = start_code_span data idx;
          (stop, st) =
            (case current of
               None \<Rightarrow> (False, st)
             | Some nalu_start \<Rightarrow>
                 (case slice_get nalu_start start data of
                    Some nalu \<Rightarrow> if nalu \<noteq> [] then visit nalu st else (False, st)
                  | None \<Rightarrow> (False, st)))
      in if stop then (True, st) else annexb_loop data visit idxs (Some payload_start) st)"

definition for_each_annexb_nalu ::
    "(bytes \<Rightarrow> nat list) \<Rightarrow> bytes \<Rightarrow> (bytes \<Rightarrow> 's \<Rightarrow> bool \<times> 's) \<Rightarrow> 's \<Rightarrow> bool \<times> 's" where
  "for_each_annexb_nalu find_iter data visit st = annexb_loop data visit (find_iter data) None st"

definition split_annexb_nalus :: "(bytes \<Rightarrow> nat list) \<Rightarrow> bytes \<Rightarrow> bytes list" where
  "split_annexb_nalus find_iter data =
     snd (for_each_annexb_nalu find_iter data (\<lambda>nalu nalus. (False, nalus @ [nalu])) [])"

subsection \<open>Walking is visiting the split list\<close>

fun visit_all :: "(bytes \<Rightarrow> 's \<Rightarrow> bool \<times> 's) \<Rightarrow> bytes list \<Rightarrow> 's \<Rightarrow> bool \<times> 's" where
  "visit_all visit [] st = (False, st)"
| "visit_all visit (nalu # nalus) st =
     (let (stop, st) = visit nalu st in if stop then (True, st) else visit_all visit nalus st)"

text \<open>The NAL units that the loop visits from a position on.\<close>

fun loop_nalus :: "bytes \<Rightarrow> nat list \<Rightarrow> nat option \<Rightarrow> bytes list" where
  "loop_nalus data [] current =
     (case current of
        None \<Rightarrow> []
      | Some nalu_start \<Rightarrow>
          (case slice_from nalu_start data of Some nalu \<Rightarrow> if nalu \<noteq> [] then [nalu] else [] | None \<Rightarrow> []))"
| "loop_nalus data (idx # idxs) current =
     (case current of
        None \<Rightarrow> []
      | Some nalu_start \<Rightarrow>
          (case slice_get nalu_start (fst (start_code_span data idx)) data of
             Some nalu \<Rightarrow> if nalu \<noteq> [] then [nalu] else [] | None \<Rightarrow> []))
     @ loop_nalus data idxs (Some (idx + 3))"

lemma snd_start_code_span [simp]: "snd (start_code_span data idx) = idx + 3"
  by (simp add: start_code_span_def Let_def)

lemma annexb_loop_visit_all:
  "annexb_loop data visit idxs current st = visit_all visit (loop_nalus data idxs current) st"
proof (induction idxs arbitrary: current st)
  case Nil
  then show ?case by (auto split: option.splits prod.splits)
next
  case (Cons idx idxs)
  then show ?case
    by (cases "start_code_span data idx")
      (auto simp: Let_def split: option.splits prod.splits dest: arg_cong [of _ _ snd])
qed

lemma visit_all_collect:
  "visit_all (\<lambda>nalu nalus. (False, nalus @ [nalu])) nalus acc = (False, acc @ nalus)"
  by (induction nalus arbitrary: acc) simp_all

lemma split_annexb_nalus_eq: "split_annexb_nalus find_iter data = loop_nalus data (find_iter data) None"
  by (simp add: split_annexb_nalus_def for_each_annexb_nalu_def annexb_loop_visit_all visit_all_collect)

lemma for_each_annexb_nalu_eq:
  "for_each_annexb_nalu find_iter data visit st = visit_all visit (split_annexb_nalus find_iter data) st"
  by (simp add: for_each_annexb_nalu_def annexb_loop_visit_all split_annexb_nalus_eq)

subsection \<open>The search\<close>

text \<open>
  The documented behaviour of the substring search for \<open>00 00 01\<close>: its occurrences, which
  cannot overlap, from left to right.
\<close>

definition finds_start_codes :: "(bytes \<Rightarrow> nat list) \<Rightarrow> bool" where
  "finds_start_codes find_iter \<longleftrightarrow> (\<forall>data. sorted_wrt (<) (find_iter data) \<and>
     set (find_iter data) = {i. take 3 (drop i data) = [0, 0, 1]})"

text \<open>A search with that behaviour.\<close>

fun scan_start_codes :: "nat \<Rightarrow> bytes \<Rightarrow> nat list" where
  "scan_start_codes i [] = []"
| "scan_start_codes i (b # bs) =
     (if take 3 (b # bs) = [0, 0, 1] then i # scan_start_codes (Suc i) bs else scan_start_codes (Suc i) bs)"

lemma set_scan: "set (scan_start_codes i bs) = {i + j |j. take 3 (drop j bs) = [0, 0, 1]}"
proof (induction i bs rule: scan_start_codes.induct)
  case (2 i b bs)
  have "{i + j |j. take 3 (drop j (b # bs)) = [0, 0, 1]} =
      (if take 3 (b # bs) = [0, 0, 1] then {i} else {}) \<union> {Suc i + j |j. take 3 (drop j bs) = [0, 0, 1]}"
    (is "?l = ?r")
  proof
    show "?l \<subseteq> ?r"
    proof
      fix k assume "k \<in> ?l"
      then obtain j where j: "k = i + j" "take 3 (drop j (b # bs)) = [0, 0, 1]" by blast
      then show "k \<in> ?r" by (cases j) auto
    qed
    show "?r \<subseteq> ?l"
      by (auto split: if_splits intro: exI [of _ "Suc j" for j] exI [of _ 0])
  qed
  with 2 show ?case by simp
qed simp

lemma sorted_scan: "sorted_wrt (<) (scan_start_codes i bs)"
  by (induction i bs rule: scan_start_codes.induct) (auto simp: set_scan)

lemma finds_scan: "finds_start_codes (scan_start_codes 0)"
  by (simp add: finds_start_codes_def sorted_scan set_scan)

lemma finds_eq_scan: "finds_start_codes find_iter \<Longrightarrow> find_iter data = scan_start_codes 0 data"
  using sorted_scan [of 0 data] set_scan [of 0 data]
  by (intro sorted_distinct_set_unique) (auto simp: finds_start_codes_def strict_sorted_iff)

subsection \<open>Joining and splitting\<close>

definition annexb_nalu :: "bytes \<Rightarrow> bytes" where
  "annexb_nalu nalu = [0, 0, 0, 1] @ nalu"

abbreviation join_nalus :: "bytes list \<Rightarrow> bytes" where
  "join_nalus nalus \<equiv> concat (map annexb_nalu nalus)"

definition nalu_ok :: "bytes \<Rightarrow> bool" where
  "nalu_ok n \<longleftrightarrow> n \<noteq> [] \<and> no_start_code n"

text \<open>
  NAL units that can be framed: none empty, none containing a start code, and only the last
  may end in a zero byte (trailing zeros belong to the next start code).
\<close>

fun framed :: "bytes list \<Rightarrow> bool" where
  "framed [] \<longleftrightarrow> True"
| "framed [n] \<longleftrightarrow> nalu_ok n"
| "framed (n # m # ns) \<longleftrightarrow> nalu_ok n \<and> last n \<noteq> 0 \<and> framed (m # ns)"

lemma framed_Cons: "framed (n # ns) \<longleftrightarrow> nalu_ok n \<and> (ns \<noteq> [] \<longrightarrow> last n \<noteq> 0) \<and> framed ns"
  by (cases ns) auto

lemma scan_join: "scan_start_codes i (annexb_nalu rest) = Suc i # scan_start_codes (i + 4) rest"
  by (simp add: annexb_nalu_def numeral_eq_Suc)

lemma scan_no_start_code: "no_start_code bs \<Longrightarrow> scan_start_codes i bs = []"
  using set_scan [of i bs] by (auto simp: no_start_code_def)

lemma scan_nalu:
  assumes "no_start_code n" and "n \<noteq> [] \<longrightarrow> last n \<noteq> 0"
  shows "scan_start_codes i (n @ annexb_nalu rest) = scan_start_codes (i + length n) (annexb_nalu rest)"
  using assms
proof (induction n arbitrary: i)
  case (Cons b n)
  have "take 3 (b # n @ annexb_nalu rest) \<noteq> [0, 0, 1]"
    using Cons.prems
    by (cases n; cases "tl n") (auto simp: take_3_start_code no_start_code_Cons annexb_nalu_def)
  with Cons show ?case by (auto simp: no_start_code_Cons split: if_splits)
qed simp

lemma scan_nalu_join:
  assumes "nalu_ok m" and "ms \<noteq> [] \<longrightarrow> last m \<noteq> 0"
  shows "scan_start_codes i (m @ join_nalus ms) = scan_start_codes (i + length m) (join_nalus ms)"
proof (cases ms)
  case Nil
  with assms show ?thesis by (simp add: scan_no_start_code nalu_ok_def)
next
  case (Cons k ks)
  then have "join_nalus ms = annexb_nalu (k @ join_nalus ks)" by (simp add: annexb_nalu_def)
  with scan_nalu [of m i "k @ join_nalus ks"] assms Cons show ?thesis by (simp add: nalu_ok_def)
qed

lemma start_code_span_after:
  assumes "n \<noteq> []" and "last n \<noteq> 0"
  shows "start_code_span (pre @ n @ 0 # rest) (Suc (length pre + length n)) =
    (length pre + length n, length pre + length n + 4)"
proof -
  obtain ms m where n: "n = ms @ [m]" "m \<noteq> 0" using assms by (cases n rule: rev_cases) auto
  then show ?thesis by (simp add: start_code_span_def)
qed

lemma loop_nalus_join:
  assumes "framed (n # ns)"
  shows "loop_nalus (pre @ n @ join_nalus ns) (scan_start_codes (length pre + length n) (join_nalus ns))
    (Some (length pre)) = n # ns"
  using assms
proof (induction ns arbitrary: pre n)
  case Nil
  then show ?case by (simp add: slice_from_def nalu_ok_def)
next
  case (Cons m ms)
  let ?pre = "pre @ n @ [0, 0, 0, 1]" and ?L = "length pre + length n"
  from Cons.prems have n: "nalu_ok n" "last n \<noteq> 0" "n \<noteq> []" and m: "framed (m # ms)"
    by (auto simp: framed_Cons nalu_ok_def)
  have join: "join_nalus (m # ms) = annexb_nalu (m @ join_nalus ms)" by (simp add: annexb_nalu_def)
  have scan: "scan_start_codes ?L (join_nalus (m # ms)) =
      Suc ?L # scan_start_codes (length ?pre + length m) (join_nalus ms)"
    unfolding join scan_join using m scan_nalu_join [of m ms "?L + 4"]
    by (simp add: framed_Cons numeral_eq_Suc)
  have data: "pre @ n @ join_nalus (m # ms) = ?pre @ m @ join_nalus ms"
    by (simp add: annexb_nalu_def)
  have span: "fst (start_code_span (?pre @ m @ join_nalus ms) (Suc ?L)) = ?L"
    using start_code_span_after [OF n(3,2), of pre "[0, 0, 1] @ m @ join_nalus ms"] by simp
  have slice: "slice_get (length pre) ?L (?pre @ m @ join_nalus ms) = Some n"
    by (simp add: slice_get_def)
  have IH: "loop_nalus (?pre @ m @ join_nalus ms) (scan_start_codes (length ?pre + length m) (join_nalus ms))
      (Some (length ?pre)) = m # ms"
    using Cons.IH [OF m] .
  have "length ?pre = Suc ?L + 3" by simp
  with IH show ?case
    unfolding data scan by (simp only: loop_nalus.simps span slice option.case n(3)) simp
qed

lemma split_join_nalus:
  assumes "finds_start_codes find_iter" and "framed nalus"
  shows "split_annexb_nalus find_iter (join_nalus nalus) = nalus"
proof (cases nalus)
  case Nil
  then show ?thesis by (simp add: split_annexb_nalus_eq finds_eq_scan [OF assms(1)])
next
  case (Cons n ns)
  have join: "join_nalus nalus = annexb_nalu (n @ join_nalus ns)" by (simp add: Cons annexb_nalu_def)
  have n: "nalu_ok n" "ns \<noteq> [] \<longrightarrow> last n \<noteq> 0" using assms(2) Cons by (auto simp: framed_Cons)
  have scan: "scan_start_codes 0 (join_nalus nalus) = 1 # scan_start_codes (4 + length n) (join_nalus ns)"
    unfolding join scan_join using scan_nalu_join [OF n, of 4] by simp
  have "loop_nalus ([0, 0, 0, 1] @ n @ join_nalus ns) (scan_start_codes (4 + length n) (join_nalus ns)) (Some 4) = n # ns"
    using loop_nalus_join [of n ns "[0, 0, 0, 1]"] assms(2) Cons by (simp add: numeral_eq_Suc)
  then show ?thesis
    unfolding split_annexb_nalus_eq finds_eq_scan [OF assms(1)] scan by (simp add: join annexb_nalu_def Cons numeral_eq_Suc)
qed

text \<open>Whatever the stream, the units split off can be framed again.\<close>

lemma occurrence_next:
  assumes "take 3 (drop i (bs :: bytes)) = [0, 0, 1]" and "take 3 (drop j bs) = [0, 0, 1]" and "i < j"
  shows "i + 3 \<le> j"
proof -
  have nth: "bs ! (k + l) = [0, 0, 1] ! l" if "take 3 (drop k bs) = [0, 0, 1]" "l < 3" for k l
  proof -
    have "length (take 3 (drop k bs)) = 3" using that(1) by simp
    then have "k + 3 \<le> length bs" by simp
    with that show ?thesis by (metis add_leE nth_drop nth_take)
  qed
  have "bs ! (i + 1) = 0" "bs ! (i + 2) = 1" "bs ! j = 0" "bs ! (j + 1) = 0"
    using nth [OF assms(1), of 1] nth [OF assms(1), of 2] nth [OF assms(2), of 0] nth [OF assms(2), of 1] by simp_all
  then have "j \<noteq> i + 1" "j \<noteq> i + 2" by auto
  with assms(3) show ?thesis by simp
qed

lemma no_start_code_slice:
  assumes "\<And>j. a \<le> j \<Longrightarrow> j + 3 \<le> b \<Longrightarrow> take 3 (drop j bs) \<noteq> [0, 0, 1]" and "b \<le> length bs"
  shows "no_start_code (take (b - a) (drop a bs))"
  unfolding no_start_code_def
proof
  fix i
  show "take 3 (drop i (take (b - a) (drop a bs))) \<noteq> [0, 0, 1]"
  proof
    assume eq: "take 3 (drop i (take (b - a) (drop a bs))) = [0, 0, 1]"
    then have "length (take 3 (drop i (take (b - a) (drop a bs)))) = 3" by simp
    then have le: "i + 3 \<le> b - a" using assms(2) by simp
    then have "min 3 (b - a - i) = 3" by simp
    then have "take 3 (drop (i + a) bs) = [0, 0, 1]"
      using eq by (simp only: drop_take take_take drop_drop)
    moreover have "i + a + 3 \<le> b" using le by linarith
    ultimately show False using assms(1) [of "i + a"] by simp
  qed
qed

lemma start_code_span_before:
  assumes "idx \<le> length data" and "start = fst (start_code_span data idx)"
  shows "start \<le> idx" and "0 < start \<Longrightarrow> data ! (start - 1) \<noteq> 0"
proof -
  let ?z = "takeWhile (\<lambda>b. b = 0) (rev (take idx data))"
  have start: "start = idx - length ?z" using assms by (simp add: start_code_span_def)
  then show "start \<le> idx" by simp
  assume pos: "0 < start"
  then have lt: "length ?z < length (rev (take idx data))" using start assms(1) by simp
  then have "rev (take idx data) ! length ?z \<noteq> 0" by (rule nth_length_takeWhile)
  moreover have "rev (take idx data) ! length ?z = data ! (idx - 1 - length ?z)"
    using lt assms(1) by (simp add: rev_nth)
  ultimately show "data ! (start - 1) \<noteq> 0" using start by simp
qed

lemma loop_nalus_framed:
  assumes "sorted_wrt (<) idxs" and "set idxs = {i. lo \<le> i \<and> take 3 (drop i data) = [0, 0, 1]}"
  shows "framed (loop_nalus data idxs (Some lo))"
  using assms
proof (induction idxs arbitrary: lo)
  case Nil
  then have "no_start_code (take (length data - lo) (drop lo data))"
    by (intro no_start_code_slice) auto
  then show ?case by (simp add: slice_from_def nalu_ok_def)
next
  case (Cons idx idxs)
  let ?start = "fst (start_code_span data idx)"
  have idx: "lo \<le> idx" "take 3 (drop idx data) = [0, 0, 1]" using Cons.prems(2) by auto
  then have "length (take 3 (drop idx data)) = 3" by simp
  then have len: "idx + 3 \<le> length data" by simp
  have first: "idx \<le> i" if "lo \<le> i" "take 3 (drop i data) = [0, 0, 1]" for i
    using Cons.prems that by (fastforce simp: less_imp_le)
  have rest: "set idxs = {i. idx + 3 \<le> i \<and> take 3 (drop i data) = [0, 0, 1]}" (is "_ = ?R")
  proof
    show "set idxs \<subseteq> ?R"
      using Cons.prems occurrence_next [OF idx(2)] by auto
    show "?R \<subseteq> set idxs"
    proof
      fix i assume "i \<in> ?R"
      with idx(1) have "i \<in> set (idx # idxs)" "i \<noteq> idx" unfolding Cons.prems(2) by auto
      then show "i \<in> set idxs" by simp
    qed
  qed
  have IH: "framed (loop_nalus data idxs (Some (idx + 3)))"
    using Cons.IH [OF _ rest] Cons.prems(1) by simp
  note before = start_code_span_before [of idx data ?start, OF _ refl]
  have "framed (n # loop_nalus data idxs (Some (idx + 3)))"
    if n: "slice_get lo ?start data = Some n" "n \<noteq> []" for n
  proof -
    have eq: "n = take (?start - lo) (drop lo data)" and le: "lo < ?start" "?start \<le> length data"
      using n by (auto simp: slice_get_def split: if_splits)
    have "no_start_code n"
      unfolding eq using le first before(1) len by (intro no_start_code_slice) fastforce+
    moreover have "length n = ?start - lo" using le unfolding eq by simp
    then have "last n = data ! (?start - 1)"
      using n(2) le by (simp add: last_conv_nth eq)
    ultimately show ?thesis
      using IH n(2) before(2) le len by (auto simp: framed_Cons nalu_ok_def)
  qed
  with IH show ?case by (auto split: option.splits)
qed

lemma split_annexb_framed:
  assumes "finds_start_codes find_iter"
  shows "framed (split_annexb_nalus find_iter data)"
proof (cases "find_iter data")
  case Nil
  then show ?thesis by (simp add: split_annexb_nalus_eq)
next
  case (Cons idx idxs)
  have spec: "sorted_wrt (<) (idx # idxs)" "set (idx # idxs) = {i. take 3 (drop i data) = [0, 0, 1]}"
    using assms by (auto simp: finds_start_codes_def Cons [symmetric])
  have "set idxs = {i. idx + 3 \<le> i \<and> take 3 (drop i data) = [0, 0, 1]}" (is "_ = ?R")
  proof
    have "take 3 (drop idx data) = [0, 0, 1]" using spec(2) by auto
    with spec show "set idxs \<subseteq> ?R" using occurrence_next [of idx data] by auto
    show "?R \<subseteq> set idxs"
    proof
      fix i assume "i \<in> ?R"
      then have "i \<in> set (idx # idxs)" "i \<noteq> idx" unfolding spec(2) by auto
      then show "i \<in> set idxs" by simp
    qed
  qed
  with spec(1) have "framed (loop_nalus data idxs (Some (idx + 3)))"
    by (intro loop_nalus_framed) auto
  then show ?thesis by (simp add: split_annexb_nalus_eq Cons)
qed

text \<open>
  C23. Splitting undoes joining: a stream of NAL units behind start codes splits into exactly
  those units, and whatever a stream contains, the units split off can be framed again and
  split the same way.
\<close>

theorem split_annexb_normalises:
  assumes "finds_start_codes find_iter"
  shows "(framed nalus \<longrightarrow> split_annexb_nalus find_iter (join_nalus nalus) = nalus) \<and>
    split_annexb_nalus find_iter (join_nalus (split_annexb_nalus find_iter data)) = split_annexb_nalus find_iter data"
  using split_join_nalus [OF assms] split_annexb_framed [OF assms] by blast

theorem split_annexb_normalises_witness:
  "split_annexb_nalus (scan_start_codes 0) (join_nalus [[0x67, 1], [0x68, 2], [0x65, 0]]) = [[0x67, 1], [0x68, 2], [0x65, 0]]"
proof -
  have "framed [[0x67, 1], [0x68, 2], [0x65, 0]]"
    by (simp add: nalu_ok_def no_start_code_Cons)
  with split_annexb_normalises [OF finds_scan] show ?thesis by blast
qed

end
