(* ===== verification/Avcc.thy ===== *)
theory Avcc
  imports Annexb
begin

text \<open>
  The AVC side of \<open>crates/restream-core/src/codec/video.rs\<close>: parameter-set extraction from an
  Annex B payload, the decoder configuration record, and the conversions between start codes
  and length-prefixed NAL units.

  The two length-prefixed formats are instances of the framing interfaces of the prelude: an
  item with a 16-bit length inside the record, and a NAL unit with a length of one to four
  bytes inside an access unit.
\<close>

unbundle bit_operations_syntax

subsection \<open>Parameter sets\<close>

datatype annexb_codec_kind = Kind_Unknown | Kind_H264 | Kind_H265

record param_accumulator =
  acc_kind :: annexb_codec_kind
  h264_sps :: "bytes option"
  h264_pps :: "bytes option"
  h265_vps :: "bytes option"
  h265_sps :: "bytes option"
  h265_pps :: "bytes option"

definition acc_default :: param_accumulator where
  "acc_default = \<lparr>acc_kind = Kind_Unknown, h264_sps = None, h264_pps = None, h265_vps = None,
     h265_sps = None, h265_pps = None\<rparr>"

text \<open>\<open>switch_kind\<close> always answers true; a change of codec drops everything collected.\<close>

definition switch_kind :: "annexb_codec_kind \<Rightarrow> param_accumulator \<Rightarrow> param_accumulator" where
  "switch_kind kind acc =
     (if acc_kind acc = Kind_Unknown then acc\<lparr>acc_kind := kind\<rparr>
      else if acc_kind acc = kind then acc
      else acc_default\<lparr>acc_kind := kind\<rparr>)"

definition h265_param_type :: "bytes \<Rightarrow> u8" where
  "h265_param_type nalu =
     (case nalu of
        first # second # _ \<Rightarrow>
          if first AND 0x81 = 0 \<and> 1 \<le> second \<and> second \<le> 7 then drop_bit 1 first AND 0x3F else 0
      | _ \<Rightarrow> 0)"

definition push_nalu :: "bytes \<Rightarrow> param_accumulator \<Rightarrow> param_accumulator" where
  "push_nalu nalu acc =
     (case nalu of
        [] \<Rightarrow> acc
      | first # _ \<Rightarrow>
          let h264_type = first AND 0x1F;
              h265_type = h265_param_type nalu
          in if 32 \<le> h265_type \<and> h265_type \<le> 34 then
               let acc = switch_kind Kind_H265 acc
               in if h265_type = 32 then acc\<lparr>h265_vps := Some (annexb_nalu nalu)\<rparr>
                  else if h265_type = 33 then acc\<lparr>h265_sps := Some (annexb_nalu nalu)\<rparr>
                  else acc\<lparr>h265_pps := Some (annexb_nalu nalu)\<rparr>
             else if acc_kind acc \<noteq> Kind_H265 \<and> (h264_type = 7 \<or> h264_type = 8) then
               let acc = switch_kind Kind_H264 acc
               in if h264_type = 7 then acc\<lparr>h264_sps := Some (annexb_nalu nalu)\<rparr>
                  else acc\<lparr>h264_pps := Some (annexb_nalu nalu)\<rparr>
             else acc)"

definition complete :: "param_accumulator \<Rightarrow> bytes option" where
  "complete acc =
     (case acc_kind acc of
        Kind_Unknown \<Rightarrow> None
      | Kind_H264 \<Rightarrow>
          (case (h264_sps acc, h264_pps acc) of (Some sps, Some pps) \<Rightarrow> Some (sps @ pps) | _ \<Rightarrow> None)
      | Kind_H265 \<Rightarrow>
          (case (h265_vps acc, h265_sps acc, h265_pps acc) of
             (Some vps, Some sps, Some pps) \<Rightarrow> Some (vps @ sps @ pps) | _ \<Rightarrow> None))"

definition push_payload ::
    "(bytes \<Rightarrow> nat list) \<Rightarrow> bytes \<Rightarrow> param_accumulator \<Rightarrow> bytes option \<times> param_accumulator" where
  "push_payload find_iter payload acc =
     (let acc = snd (for_each_annexb_nalu find_iter payload (\<lambda>nalu acc. (False, push_nalu nalu acc)) acc)
      in (complete acc, acc))"

definition annexb_parameter_sets :: "(bytes \<Rightarrow> nat list) \<Rightarrow> bytes \<Rightarrow> bytes option" where
  "annexb_parameter_sets find_iter payload = fst (push_payload find_iter payload acc_default)"

definition nalu_is_keyframe :: "bytes \<Rightarrow> bool" where
  "nalu_is_keyframe nalu =
     (case nalu of
        [] \<Rightarrow> False
      | first # rest \<Rightarrow>
          if first AND 0x1F = 5 then True
          else rest \<noteq> [] \<and> 16 \<le> drop_bit 1 first AND 0x3F \<and> drop_bit 1 first AND 0x3F \<le> 23)"

definition raw_annexb_is_keyframe :: "(bytes \<Rightarrow> nat list) \<Rightarrow> bytes \<Rightarrow> bool" where
  "raw_annexb_is_keyframe find_iter payload =
     fst (for_each_annexb_nalu find_iter payload (\<lambda>nalu st. (nalu_is_keyframe nalu, st)) ())"

subsection \<open>The decoder configuration record\<close>

definition take_u16_prefixed :: "bytes \<Rightarrow> (bytes \<times> bytes) option" where
  "take_u16_prefixed rest = do {
     (len, tail) \<leftarrow> split_first_chunk 2 rest;
     (item, tail) \<leftarrow> split_at_checked (be_fold len) tail;
     Some (item, tail)
   }"

record avcc_record_t =
  length_size_minus_one :: u8
  rec_sps :: "bytes list"
  rec_pps :: "bytes list"

definition avcc_record :: "bytes \<Rightarrow> avcc_record_t option" where
  "avcc_record rec = do {
     (head, rest) \<leftarrow> split_first_chunk 6 rec;
     let length_byte = head ! 4;
     let sps_byte = head ! 5;
     (sps, rest) \<leftarrow> take_n take_u16_prefixed (unat (sps_byte AND 0x1F)) rest;
     (count, rest) \<leftarrow> (case rest of [] \<Rightarrow> None | b # tail \<Rightarrow> Some (b, tail));
     (pps, rest) \<leftarrow> take_n take_u16_prefixed (unat count) rest;
     Some \<lparr>length_size_minus_one = length_byte AND 0x03, rec_sps = sps, rec_pps = pps\<rparr>
   }"

definition parse_avcc_config :: "bytes \<Rightarrow> nat \<times> bytes" where
  "parse_avcc_config data =
     (if length data < 8 then (4, [])
      else (unat (data ! 4 AND 0x03) + 1,
            case avcc_record data of
              None \<Rightarrow> []
            | Some r \<Rightarrow> concat (map (\<lambda>nalu. [0, 0, 0, 1] @ nalu) (rec_sps r @ rec_pps r))))"

definition nal_type_is :: "u8 \<Rightarrow> bytes \<Rightarrow> bool" where
  "nal_type_is t nalu \<longleftrightarrow> (case nalu of [] \<Rightarrow> False | first # _ \<Rightarrow> first AND 0x1F = t)"

abbreviation put_u16 :: "bytes \<Rightarrow> bytes" where
  "put_u16 item \<equiv> to_be16 (length item) @ item"

definition write_avcc_record_into :: "(bytes \<Rightarrow> nat list) \<Rightarrow> bytes \<Rightarrow> bytes option" where
  "write_avcc_record_into find_iter annexb_data =
     (let nalus = split_annexb_nalus find_iter annexb_data;
          sps_list = filter (nal_type_is 7) nalus;
          pps_list = filter (nal_type_is 8) nalus
      in case sps_list of
           (_ # profile # compatibility # level # _) # _ \<Rightarrow>
             if length sps_list > 0x1F then None
             else if length pps_list > 255 then None
             else if \<exists>nalu \<in> set (sps_list @ pps_list). length nalu > 65535 then None
             else Some ([1, profile, compatibility, level, 0xFF, 0xE0 OR of_nat (length sps_list)]
               @ concat (map put_u16 sps_list) @ [of_nat (length pps_list)] @ concat (map put_u16 pps_list))
         | _ \<Rightarrow> None)"

definition build_avcc_record :: "(bytes \<Rightarrow> nat list) \<Rightarrow> bytes \<Rightarrow> bytes option" where
  "build_avcc_record find_iter annexb_data = write_avcc_record_into find_iter annexb_data"

definition build_avcc_sequence_header :: "(bytes \<Rightarrow> nat list) \<Rightarrow> bytes \<Rightarrow> bytes option" where
  "build_avcc_sequence_header find_iter annexb_data =
     map_option (\<lambda>body. [0x17, 0x00, 0x00, 0x00, 0x00] @ body) (write_avcc_record_into find_iter annexb_data)"

subsection \<open>Length-prefixed access units\<close>

text \<open>One NAL unit with a length of \<open>n\<close> bytes; a length of zero is refused.\<close>

definition take_length_prefixed :: "nat \<Rightarrow> bytes \<Rightarrow> (bytes \<times> bytes) option" where
  "take_length_prefixed n rest = do {
     (len, tail) \<leftarrow> split_at_checked n rest;
     (nalu, tail) \<leftarrow> split_at_checked (be_fold len) tail;
     if be_fold len > 0 then Some (nalu, tail) else None
   }"

lemma take_length_prefixed_shorter:
  "take_length_prefixed n au = Some (nalu, rest) \<Longrightarrow> length rest < length au"
  by (auto simp: take_length_prefixed_def bind_eq_Some_conv split_at_checked_Some_iff split: if_splits)

text \<open>The loop of \<open>avcc_to_annexb_into\<close>: it stops quietly at the first broken unit.\<close>

function avcc_to_annexb_loop :: "nat \<Rightarrow> bytes \<Rightarrow> bytes \<Rightarrow> bytes" where
  "avcc_to_annexb_loop n rest out =
     (case take_length_prefixed n rest of
        None \<Rightarrow> out
      | Some (nalu, tail) \<Rightarrow> avcc_to_annexb_loop n tail (out @ [0, 0, 0, 1] @ nalu))"
  by pat_completeness auto
termination
  by (relation "measure (\<lambda>(n, rest, out). length rest)") (auto dest: take_length_prefixed_shorter)

declare avcc_to_annexb_loop.simps [simp del]

definition avcc_to_annexb_into :: "bytes \<Rightarrow> nat \<Rightarrow> bytes \<Rightarrow> bytes" where
  "avcc_to_annexb_into data nalu_len_size out =
     (if 1 \<le> nalu_len_size \<and> nalu_len_size \<le> 4 then avcc_to_annexb_loop nalu_len_size data out else out)"

definition avcc_to_annexb :: "bytes \<Rightarrow> nat \<Rightarrow> bytes" where
  "avcc_to_annexb data nalu_len_size = avcc_to_annexb_into data nalu_len_size []"

definition annexb_to_avcc_visit :: "bytes \<Rightarrow> bool \<times> bytes \<Rightarrow> bool \<times> (bool \<times> bytes)" where
  "annexb_to_avcc_visit nalu = (\<lambda>(has_vcl, out).
     case nalu of
       [] \<Rightarrow> (False, (has_vcl, out))
     | first # _ \<Rightarrow>
         let nal_type = first AND 0x1F
         in if 7 \<le> nal_type \<and> nal_type \<le> 9 then (False, (has_vcl, out))
            else (False, (has_vcl \<or> (1 \<le> nal_type \<and> nal_type \<le> 5),
                          out @ to_be32 (length nalu) @ nalu)))"

definition annexb_to_avcc_into :: "(bytes \<Rightarrow> nat list) \<Rightarrow> bytes \<Rightarrow> bytes \<Rightarrow> bool \<times> bytes" where
  "annexb_to_avcc_into find_iter data out =
     snd (for_each_annexb_nalu find_iter data annexb_to_avcc_visit (False, out))"

text \<open>A signed 24-bit composition time, clamped; the casts keep the low byte of each shift.\<close>

definition signed_be24 :: "int \<Rightarrow> bytes" where
  "signed_be24 value =
     (let v = max (- 8388608) (min 8388607 value)
      in [of_int (v div 2 ^ 16), of_int (v div 2 ^ 8), of_int v])"

definition video_for_rtmp_with_composition_into ::
    "(bytes \<Rightarrow> nat list) \<Rightarrow> bytes \<Rightarrow> bool \<Rightarrow> int \<Rightarrow> bool \<times> bytes" where
  "video_for_rtmp_with_composition_into find_iter payload is_key composition_time_ms =
     annexb_to_avcc_into find_iter payload
       ([if is_key then 0x17 else 0x27, 1] @ signed_be24 composition_time_ms)"

definition video_for_rtmp_into :: "(bytes \<Rightarrow> nat list) \<Rightarrow> bytes \<Rightarrow> bool \<Rightarrow> bool \<times> bytes" where
  "video_for_rtmp_into find_iter payload is_key =
     video_for_rtmp_with_composition_into find_iter payload is_key 0"

function for_each_length_prefixed ::
    "nat \<Rightarrow> bytes \<Rightarrow> (bytes \<Rightarrow> 's \<Rightarrow> 's) \<Rightarrow> 's \<Rightarrow> bool \<times> 's" where
  "for_each_length_prefixed n au visit st =
     (if \<not> (1 \<le> n \<and> n \<le> 4) then (False, st)
      else if au = [] then (True, st)
      else case take_length_prefixed n au of
        None \<Rightarrow> (False, st)
      | Some (nalu, rest) \<Rightarrow> for_each_length_prefixed n rest visit (visit nalu st))"
  by pat_completeness auto
termination
  by (relation "measure (\<lambda>(n, au, visit, st). length au)") (auto dest: take_length_prefixed_shorter)

declare for_each_length_prefixed.simps [simp del]

subsection \<open>The framings\<close>

interpretation u16_item: prefix_framing put_u16 take_u16_prefixed "\<lambda>item. length item < 2 ^ 16"
proof
  fix item rest :: bytes assume "length item < 2 ^ 16"
  then show "take_u16_prefixed (put_u16 item @ rest) = Some (item, rest)"
    using split_at_checked_append [of "to_be16 (length item)" "item @ rest"]
      split_at_checked_append [of item rest]
    by (simp add: take_u16_prefixed_def be_fold_to_be16)
next
  fix bs item rest assume "take_u16_prefixed bs = Some (item, rest)"
  then obtain len where len: "length len = 2" "bs = len @ item @ rest" "length item = be_fold len"
    by (auto simp: take_u16_prefixed_def bind_eq_Some_conv split_at_checked_Some_iff)
  with be_fold_bound [of len] be_bytes_be_fold [of len]
  show "length item < 2 ^ 16 \<and> bs = put_u16 item @ rest"
    by (simp add: to_be16_be_bytes)
qed (simp add: to_be16_def)

definition put_nalu :: "nat \<Rightarrow> bytes \<Rightarrow> bytes" where
  "put_nalu n nalu = be_bytes n (length nalu) @ nalu"

definition fits :: "nat \<Rightarrow> bytes \<Rightarrow> bool" where
  "fits n nalu \<longleftrightarrow> nalu \<noteq> [] \<and> length nalu < 256 ^ n"

text \<open>The units of a well-formed access unit, as \<open>for_each_length_prefixed\<close> visits them.\<close>

definition length_prefixed_units :: "nat \<Rightarrow> bytes \<Rightarrow> bytes list option" where
  "length_prefixed_units n au =
     (case for_each_length_prefixed n au (\<lambda>nalu nalus. nalus @ [nalu]) [] of
        (True, nalus) \<Rightarrow> Some nalus | (False, _) \<Rightarrow> None)"

lemma for_each_length_prefixed_collect:
  "for_each_length_prefixed n au (\<lambda>nalu nalus. nalus @ [nalu]) acc =
     (case for_each_length_prefixed n au (\<lambda>nalu nalus. nalus @ [nalu]) [] of (b, nalus) \<Rightarrow> (b, acc @ nalus))"
proof (induction "length au" arbitrary: au acc rule: less_induct)
  case less
  show ?case
  proof (cases "take_length_prefixed n au")
    case (Some p)
    obtain nalu rest where p: "p = (nalu, rest)" by (cases p)
    from take_length_prefixed_shorter Some p have "length rest < length au" by simp
    from less.hyps [OF this, of "acc @ [nalu]"] less.hyps [OF this, of "[nalu]"] Some p show ?thesis
      by (subst (1 2) for_each_length_prefixed.simps) (auto split: prod.splits)
  qed (simp add: for_each_length_prefixed.simps [of n au])
qed

lemma take_put_nalu: "fits n nalu \<Longrightarrow> take_length_prefixed n (put_nalu n nalu @ rest) = Some (nalu, rest)"
  using split_at_checked_append [of "be_bytes n (length nalu)" "nalu @ rest"]
    split_at_checked_append [of nalu rest]
  by (simp add: take_length_prefixed_def put_nalu_def fits_def be_fold_be_bytes)

lemma length_prefixed_framing:
  assumes "1 \<le> n" and "n \<le> 4"
  shows "framing_loop (put_nalu n) (take_length_prefixed n) (fits n) (length_prefixed_units n)"
proof
  fix nalu rest assume "fits n nalu"
  then show "take_length_prefixed n (put_nalu n nalu @ rest) = Some (nalu, rest)"
    by (rule take_put_nalu)
next
  fix bs nalu rest assume "take_length_prefixed n bs = Some (nalu, rest)"
  then obtain len where len: "length len = n" "bs = len @ nalu @ rest" "length nalu = be_fold len" "be_fold len > 0"
    by (auto simp: take_length_prefixed_def bind_eq_Some_conv split_at_checked_Some_iff split: if_splits)
  with be_fold_bound [of len] be_bytes_be_fold [of len]
  show "fits n nalu \<and> bs = put_nalu n nalu @ rest"
    by (auto simp: fits_def put_nalu_def)
next
  fix nalu show "put_nalu n nalu \<noteq> []"
    using assms(1) length_be_bytes [of n "length nalu"] by (auto simp: put_nalu_def simp del: length_be_bytes)
next
  show "length_prefixed_units n [] = Some []"
    using assms by (simp add: length_prefixed_units_def for_each_length_prefixed.simps [of n "[]"])
next
  fix bs :: bytes assume "bs \<noteq> []"
  then show "length_prefixed_units n bs = (case take_length_prefixed n bs of
      None \<Rightarrow> None | Some (a, rest) \<Rightarrow> map_option ((#) a) (length_prefixed_units n rest))"
    using assms for_each_length_prefixed_collect [of n _ "[a]" for a]
    by (auto simp: length_prefixed_units_def for_each_length_prefixed.simps [of n bs] split: option.splits prod.splits bool.splits)
qed

interpretation nalu4: framing_loop "put_nalu 4" "take_length_prefixed 4" "fits 4" "length_prefixed_units 4"
  by (rule length_prefixed_framing) simp_all

subsection \<open>Access units\<close>

text \<open>
  C22. An access unit with lengths of one to four bytes is accepted exactly when it is the
  concatenation of non-empty NAL units behind lengths that fit, and the units visited are those:
  truncated or zero-length framing is refused as a whole.
\<close>

theorem length_prefixed_units_iff:
  assumes "1 \<le> n" and "n \<le> 4"
  shows "length_prefixed_units n au = Some nalus \<longleftrightarrow>
    list_all (fits n) nalus \<and> au = concat (map (put_nalu n) nalus)"
  by (rule framing_loop.decode_all_iff [OF length_prefixed_framing [OF assms]])

theorem length_prefixed_units_iff_witness:
  "length_prefixed_units 2 [0, 2, 9, 8, 0, 1, 7] = Some [[9, 8], [7]]"
  using length_prefixed_units_iff [of 2 "[0, 2, 9, 8, 0, 1, 7]" "[[9, 8], [7]]"]
  by (simp add: fits_def put_nalu_def numeral_2_eq_2)

lemma avcc_to_annexb_loop_units:
  assumes "list_all (fits n) nalus" and "1 \<le> n"
  shows "avcc_to_annexb_loop n (concat (map (put_nalu n) nalus)) out = out @ join_nalus nalus"
  using assms(1)
proof (induction nalus arbitrary: out)
  case Nil
  have "take_length_prefixed n [] = None"
    using assms(2) by (simp add: take_length_prefixed_def split_at_checked_def)
  then show ?case by (simp add: avcc_to_annexb_loop.simps [of n "[]"])
next
  case (Cons nalu nalus)
  then show ?case
    by (subst avcc_to_annexb_loop.simps) (simp add: take_put_nalu annexb_nalu_def [of nalu])
qed

definition kept_nalu :: "bytes \<Rightarrow> bool" where
  "kept_nalu nalu \<longleftrightarrow> (case nalu of [] \<Rightarrow> False | first # _ \<Rightarrow> \<not> (7 \<le> first AND 0x1F \<and> first AND 0x1F \<le> 9))"

definition vcl_nalu :: "bytes \<Rightarrow> bool" where
  "vcl_nalu nalu \<longleftrightarrow> (case nalu of [] \<Rightarrow> False | first # _ \<Rightarrow> 1 \<le> first AND 0x1F \<and> first AND 0x1F \<le> 5)"

lemma vcl_kept: "vcl_nalu nalu \<Longrightarrow> kept_nalu nalu"
proof (cases nalu)
  case (Cons first rest)
  assume "vcl_nalu nalu"
  then show ?thesis
    using order_trans [of 7 "first AND 0x1F" 5] by (auto simp: Cons vcl_nalu_def kept_nalu_def)
qed (simp add: vcl_nalu_def)

lemma annexb_to_avcc_visit_eq:
  "annexb_to_avcc_visit nalu (has_vcl, out) =
     (False, (has_vcl \<or> vcl_nalu nalu, if kept_nalu nalu then out @ put_nalu 4 nalu else out))"
  using vcl_kept [of nalu]
  by (cases nalu)
    (auto simp: annexb_to_avcc_visit_def vcl_nalu_def kept_nalu_def put_nalu_def to_be32_be_bytes Let_def)

lemma visit_all_to_avcc:
  "visit_all annexb_to_avcc_visit nalus (has_vcl, out) =
     (False, (has_vcl \<or> (\<exists>n \<in> set nalus. vcl_nalu n), out @ concat (map (put_nalu 4) (filter kept_nalu nalus))))"
  by (induction nalus arbitrary: has_vcl out) (auto simp: annexb_to_avcc_visit_eq)

lemma framed_all: "framed ns \<Longrightarrow> n \<in> set ns \<Longrightarrow> nalu_ok n"
  by (induction ns rule: framed.induct) auto

lemma framed_filter: "framed ns \<Longrightarrow> framed (filter P ns)"
proof (induction ns)
  case (Cons n ns)
  then show ?case by (cases "filter P ns = []") (auto simp: framed_Cons filter_empty_conv)
qed simp

text \<open>
  C9. Converting an Annex B payload to length prefixes and back keeps exactly the NAL units
  that are not parameter sets or delimiters, in order, and reports whether a slice was among
  them: splitting the converted stream gives those units again.
\<close>

theorem annexb_avcc_roundtrip:
  assumes "finds_start_codes find_iter" and "\<forall>n \<in> set (split_annexb_nalus find_iter data). length n < 2 ^ 32"
    and "annexb_to_avcc_into find_iter data [] = (has_vcl, avcc)"
  shows "split_annexb_nalus find_iter (avcc_to_annexb avcc 4) = filter kept_nalu (split_annexb_nalus find_iter data) \<and>
    has_vcl = (\<exists>n \<in> set (split_annexb_nalus find_iter data). vcl_nalu n)"
proof -
  let ?ns = "split_annexb_nalus find_iter data"
  have framed: "framed ?ns" using split_annexb_framed [OF assms(1)] .
  have avcc: "avcc = concat (map (put_nalu 4) (filter kept_nalu ?ns))" and vcl: "has_vcl = (\<exists>n \<in> set ?ns. vcl_nalu n)"
    using assms(3) by (auto simp: annexb_to_avcc_into_def for_each_annexb_nalu_eq visit_all_to_avcc)
  have "list_all (fits 4) (filter kept_nalu ?ns)"
    using assms(2) framed_all [OF framed] by (auto simp: list_all_iff fits_def nalu_ok_def)
  then have "avcc_to_annexb avcc 4 = join_nalus (filter kept_nalu ?ns)"
    unfolding avcc avcc_to_annexb_def avcc_to_annexb_into_def by (simp add: avcc_to_annexb_loop_units)
  with split_join_nalus [OF assms(1) framed_filter [OF framed, of kept_nalu]] vcl show ?thesis by simp
qed

theorem annexb_avcc_roundtrip_witness:
  "split_annexb_nalus (scan_start_codes 0) (avcc_to_annexb (snd (annexb_to_avcc_into (scan_start_codes 0)
     [0, 0, 1, 0x67, 9, 0, 0, 0, 1, 0x65, 5] [])) 4) = [[0x65, 5]]"
proof -
  let ?d = "[0, 0, 1, 0x67, 9, 0, 0, 0, 1, 0x65, 5] :: bytes"
  have split: "split_annexb_nalus (scan_start_codes 0) ?d = [[0x67, 9], [0x65, 5]]"
    by code_simp
  show ?thesis
    using annexb_avcc_roundtrip [OF finds_scan, of ?d "fst (annexb_to_avcc_into (scan_start_codes 0) ?d [])"
        "snd (annexb_to_avcc_into (scan_start_codes 0) ?d [])"]
    unfolding split by (simp add: kept_nalu_def)
qed

subsection \<open>The record round trip\<close>

lemma sps_count_field:
  assumes "n \<le> 31"
  shows "unat ((0xE0 OR of_nat n :: u8) AND 0x1F) = n"
proof -
  have "list_all (\<lambda>n. unat ((0xE0 OR of_nat n :: u8) AND 0x1F) = n) [0..<32]" by code_simp
  with assms show ?thesis by (simp add: list_all_iff)
qed

lemma write_avcc_record_Some:
  assumes "write_avcc_record_into find_iter data = Some rec"
    and "sps = filter (nal_type_is 7) (split_annexb_nalus find_iter data)"
    and "pps = filter (nal_type_is 8) (split_annexb_nalus find_iter data)"
  obtains a b c where "rec = [1, a, b, c, 0xFF, 0xE0 OR of_nat (length sps)] @ concat (map put_u16 sps)
      @ [of_nat (length pps)] @ concat (map put_u16 pps)"
    and "sps \<noteq> []" and "length sps \<le> 31" and "length pps \<le> 255"
    and "list_all (\<lambda>item. length item < 2 ^ 16) sps" and "list_all (\<lambda>item. length item < 2 ^ 16) pps"
proof -
  let ?body = "\<lambda>a b c. [1, a, b, c, 0xFF, 0xE0 OR of_nat (length sps)] @ concat (map put_u16 sps)
      @ [of_nat (length pps)] @ concat (map put_u16 pps)"
  have w: "(case sps of (_ # a # b # c # _) # _ \<Rightarrow>
        if length sps > 0x1F then None else if length pps > 255 then None
        else if \<exists>nalu \<in> set (sps @ pps). length nalu > 65535 then None else Some (?body a b c)
      | _ \<Rightarrow> None) = Some rec"
    using assms(1) unfolding write_avcc_record_into_def Let_def assms(2,3) .
  then obtain x a b c y zs where sps: "sps = (x # a # b # c # y) # zs"
    by (auto split: list.splits)
  have "rec = ?body a b c \<and> length sps \<le> 31 \<and> length pps \<le> 255 \<and> \<not> (\<exists>nalu \<in> set (sps @ pps). length nalu > 65535)"
    using w by (subst (asm) (1) sps) (simp only: list.case split: if_splits, auto)
  moreover from this have "\<forall>item \<in> set (sps @ pps). length item < 2 ^ 16" by force
  ultimately show thesis by (intro that [of a b c]) (simp_all add: list_all_iff, simp add: sps)
qed

lemma avcc_record_encoded:
  assumes "length sps \<le> 31" and "length pps \<le> 255"
    and "list_all (\<lambda>item. length item < 2 ^ 16) sps" and "list_all (\<lambda>item. length item < 2 ^ 16) pps"
  shows "avcc_record ([1, a, b, c, 0xFF, 0xE0 OR of_nat (length sps)] @ concat (map put_u16 sps)
      @ [of_nat (length pps)] @ concat (map put_u16 pps)) =
    Some \<lparr>length_size_minus_one = 3, rec_sps = sps, rec_pps = pps\<rparr>"
proof -
  have split: "split_first_chunk 6 ([1, a, b, c, 0xFF, 0xE0 OR of_nat (length sps)] @ rest) =
      Some ([1, a, b, c, 0xFF, 0xE0 OR of_nat (length sps)], rest)" for rest
    by (simp add: split_at_checked_def)
  have "unat (of_nat (length pps) :: u8) = length pps" using assms(2) by simp
  moreover have "take_n take_u16_prefixed (length pps) (concat (map put_u16 pps)) = Some (pps, [])"
    using u16_item.take_n_put [OF assms(4), of "[]"] by simp
  ultimately show ?thesis
    unfolding avcc_record_def split
    by (simp add: sps_count_field [OF assms(1)] u16_item.take_n_put [OF assms(3)] del: unat_of_nat_u8)
qed

text \<open>
  C16. A decoder configuration record built from an Annex B payload parses back to the payload's
  sequence and picture parameter sets, in order, with four-byte lengths; the Annex B form
  recovered from it is those sets behind start codes.
\<close>

theorem avcc_record_roundtrip:
  assumes "build_avcc_record find_iter data = Some rec"
    and "sps = filter (nal_type_is 7) (split_annexb_nalus find_iter data)"
    and "pps = filter (nal_type_is 8) (split_annexb_nalus find_iter data)"
  shows "avcc_record rec = Some \<lparr>length_size_minus_one = 3, rec_sps = sps, rec_pps = pps\<rparr> \<and>
    parse_avcc_config rec = (4, join_nalus (sps @ pps))"
proof -
  obtain a b c where rec: "rec = [1, a, b, c, 0xFF, 0xE0 OR of_nat (length sps)] @ concat (map put_u16 sps)
      @ [of_nat (length pps)] @ concat (map put_u16 pps)" and "sps \<noteq> []"
    and ok: "length sps \<le> 31" "length pps \<le> 255" "list_all (\<lambda>item. length item < 2 ^ 16) sps"
      "list_all (\<lambda>item. length item < 2 ^ 16) pps"
    by (rule write_avcc_record_Some [OF assms(1) [unfolded build_avcc_record_def] assms(2,3)])
  have avcc: "avcc_record rec = Some \<lparr>length_size_minus_one = 3, rec_sps = sps, rec_pps = pps\<rparr>"
    unfolding rec by (rule avcc_record_encoded [OF ok])
  have "2 \<le> length (concat (map put_u16 sps))" using \<open>sps \<noteq> []\<close> by (cases sps) auto
  then have "8 \<le> length rec" by (simp add: rec)
  moreover have "rec ! 4 = 0xFF" by (simp add: rec)
  moreover have "annexb_nalu = (@) [0, 0, 0, 1]"
    by (simp only: fun_eq_iff annexb_nalu_def) simp
  ultimately show ?thesis
    using avcc by (simp add: parse_avcc_config_def)
qed

theorem avcc_record_roundtrip_witness:
  "parse_avcc_config [1, 66, 0, 31, 0xFF, 0xE1, 0, 4, 0x67, 66, 0, 31, 1, 0, 2, 0x68, 5] =
     (4, join_nalus [[0x67, 66, 0, 31], [0x68, 5]])"
proof -
  let ?d = "join_nalus [[0x67, 66, 0, 31], [0x68, 5]]"
  have split: "split_annexb_nalus (scan_start_codes 0) ?d = [[0x67, 66, 0, 31], [0x68, 5]]"
    by (intro split_join_nalus [OF finds_scan]) (simp add: nalu_ok_def no_start_code_Cons)
  have "build_avcc_record (scan_start_codes 0) ?d =
      Some [1, 66, 0, 31, 0xFF, 0xE1, 0, 4, 0x67, 66, 0, 31, 1, 0, 2, 0x68, 5]"
    unfolding build_avcc_record_def write_avcc_record_into_def split
    by (simp add: nal_type_is_def to_be16_def)
  from avcc_record_roundtrip [OF this refl refl] show ?thesis
    unfolding split by (simp add: nal_type_is_def)
qed

subsection \<open>Keyframes and parameter sets\<close>

lemma visit_all_any: "visit_all (\<lambda>nalu st. (P nalu, st)) nalus st = (\<exists>n \<in> set nalus. P n, st)"
  by (induction nalus) auto

lemma raw_annexb_is_keyframe_iff:
  "raw_annexb_is_keyframe find_iter payload \<longleftrightarrow> (\<exists>n \<in> set (split_annexb_nalus find_iter payload). nalu_is_keyframe n)"
  by (simp add: raw_annexb_is_keyframe_def for_each_annexb_nalu_eq visit_all_any)

text \<open>
  C27. An H.264 slice of a non-IDR picture whose header has \<open>nal_ref_idc\<close> one (first byte 0x21)
  is reported as a keyframe: its header byte read as an H.265 header falls in the range of the
  random-access types. The test does not know the codec.
\<close>

theorem reference_slice_read_as_keyframe:
  assumes "finds_start_codes find_iter" and "no_start_code (b # rest)"
  shows "0x21 AND 0x1F \<noteq> (5 :: u8) \<and>
    raw_annexb_is_keyframe find_iter (join_nalus [0x21 # b # rest])"
proof -
  have "framed [0x21 # b # rest]"
    using assms(2) by (simp add: nalu_ok_def no_start_code_Cons [of "0x21"] take_3_start_code)
  from split_join_nalus [OF assms(1) this] show ?thesis
    by (simp add: raw_annexb_is_keyframe_iff nalu_is_keyframe_def)
qed

theorem reference_slice_read_as_keyframe_witness:
  "raw_annexb_is_keyframe (scan_start_codes 0) [0, 0, 0, 1, 0x21, 0xE0]"
  using reference_slice_read_as_keyframe [OF finds_scan, of "0xE0" "[]"]
  by (simp add: no_start_code_Cons annexb_nalu_def)

text \<open>The last NAL unit of a kind.\<close>

definition find_last :: "(bytes \<Rightarrow> bool) \<Rightarrow> bytes list \<Rightarrow> bytes option" where
  "find_last P ns = (if filter P ns = [] then None else Some (last (filter P ns)))"

lemma find_last_Nil [simp]: "find_last P [] = None"
  by (simp add: find_last_def)

lemma find_last_snoc [simp]: "find_last P (ns @ [n]) = (if P n then Some n else find_last P ns)"
  by (simp add: find_last_def)

lemma find_last_None: "find_last P ns = None \<longleftrightarrow> (\<forall>n \<in> set ns. \<not> P n)"
  by (auto simp: find_last_def filter_empty_conv)

definition is_h265_param :: "bytes \<Rightarrow> bool" where
  "is_h265_param n \<longleftrightarrow> 32 \<le> h265_param_type n \<and> h265_param_type n \<le> 34"

definition h265_is :: "u8 \<Rightarrow> bytes \<Rightarrow> bool" where
  "h265_is t n \<longleftrightarrow> n \<noteq> [] \<and> h265_param_type n = t"

text \<open>
  What the parameter sets of a sequence of NAL units are: with any H.265 parameter set among
  them, the last VPS, SPS and PPS; otherwise the last H.264 SPS and PPS.
\<close>

definition parameter_sets_spec :: "bytes list \<Rightarrow> bytes option" where
  "parameter_sets_spec ns =
     (if \<exists>n \<in> set ns. is_h265_param n then
        (case (find_last (h265_is 32) ns, find_last (h265_is 33) ns, find_last (h265_is 34) ns) of
           (Some v, Some s, Some p) \<Rightarrow> Some (join_nalus [v, s, p]) | _ \<Rightarrow> None)
      else
        (case (find_last (nal_type_is 7) ns, find_last (nal_type_is 8) ns) of
           (Some s, Some p) \<Rightarrow> Some (join_nalus [s, p]) | _ \<Rightarrow> None))"

definition acc_spec :: "bytes list \<Rightarrow> param_accumulator" where
  "acc_spec ns =
     (if \<exists>n \<in> set ns. is_h265_param n then
        \<lparr>acc_kind = Kind_H265, h264_sps = None, h264_pps = None,
         h265_vps = map_option annexb_nalu (find_last (h265_is 32) ns),
         h265_sps = map_option annexb_nalu (find_last (h265_is 33) ns),
         h265_pps = map_option annexb_nalu (find_last (h265_is 34) ns)\<rparr>
      else
        \<lparr>acc_kind = (if \<exists>n \<in> set ns. nal_type_is 7 n \<or> nal_type_is 8 n then Kind_H264 else Kind_Unknown),
         h264_sps = map_option annexb_nalu (find_last (nal_type_is 7) ns),
         h264_pps = map_option annexb_nalu (find_last (nal_type_is 8) ns),
         h265_vps = None, h265_sps = None, h265_pps = None\<rparr>)"

lemma h265_is_imp_param:
  "h265_is 32 n \<Longrightarrow> is_h265_param n" "h265_is 33 n \<Longrightarrow> is_h265_param n" "h265_is 34 n \<Longrightarrow> is_h265_param n"
  by (simp_all add: h265_is_def is_h265_param_def)

lemma is_h265_param_cases:
  assumes "is_h265_param n"
  shows "h265_is 32 n \<or> h265_is 33 n \<or> h265_is 34 n"
proof -
  let ?t = "h265_param_type n"
  from assms have "32 \<le> unat ?t" "unat ?t \<le> 34"
    by (auto simp: is_h265_param_def word_le_nat_alt)
  then have "unat ?t = 32 \<or> unat ?t = 33 \<or> unat ?t = 34" by auto
  then have "?t = 32 \<or> ?t = 33 \<or> ?t = 34" by (auto simp: word_unat_eq_iff)
  moreover have "n \<noteq> []" using assms by (auto simp: is_h265_param_def h265_param_type_def)
  ultimately show ?thesis by (auto simp: h265_is_def)
qed

lemma find_last_h265_None:
  "\<forall>n \<in> set ns. \<not> is_h265_param n \<Longrightarrow> find_last (h265_is 32) ns = None \<and> find_last (h265_is 33) ns = None \<and> find_last (h265_is 34) ns = None"
  by (auto simp: find_last_None dest: h265_is_imp_param)

lemma push_nalu_h265:
  assumes "is_h265_param n"
  shows "push_nalu n acc =
    (let acc = switch_kind Kind_H265 acc
     in if h265_is 32 n then acc\<lparr>h265_vps := Some (annexb_nalu n)\<rparr>
        else if h265_is 33 n then acc\<lparr>h265_sps := Some (annexb_nalu n)\<rparr>
        else acc\<lparr>h265_pps := Some (annexb_nalu n)\<rparr>)"
  using assms by (cases n) (auto simp: push_nalu_def is_h265_param_def h265_is_def Let_def h265_param_type_def)

lemma push_nalu_other:
  assumes "\<not> is_h265_param n"
  shows "push_nalu n acc =
    (if acc_kind acc \<noteq> Kind_H265 \<and> (nal_type_is 7 n \<or> nal_type_is 8 n) then
       let acc = switch_kind Kind_H264 acc
       in if nal_type_is 7 n then acc\<lparr>h264_sps := Some (annexb_nalu n)\<rparr>
          else acc\<lparr>h264_pps := Some (annexb_nalu n)\<rparr>
     else acc)"
  using assms by (cases n) (auto simp: push_nalu_def is_h265_param_def nal_type_is_def Let_def)

lemma fold_push_nalu: "fold push_nalu ns acc_default = acc_spec ns"
proof (induction ns rule: rev_induct)
  case Nil
  then show ?case by (simp add: acc_default_def acc_spec_def)
next
  case (snoc n ns)
  have excl: "h265_is 32 n \<Longrightarrow> \<not> h265_is 33 n \<and> \<not> h265_is 34 n" "h265_is 33 n \<Longrightarrow> \<not> h265_is 34 n"
    by (auto simp: h265_is_def)
  show ?case
  proof (cases "is_h265_param n")
    case True
    show ?thesis
    proof (cases "\<exists>m \<in> set ns. is_h265_param m")
      case old: True
      with True is_h265_param_cases [OF True] excl snoc show ?thesis
        by (auto simp: push_nalu_h265 acc_spec_def switch_kind_def Let_def)
    next
      case old: False
      with True is_h265_param_cases [OF True] excl snoc find_last_h265_None [of ns] show ?thesis
        by (auto simp: push_nalu_h265 acc_spec_def switch_kind_def acc_default_def Let_def find_last_None)
    qed
  next
    case False
    then have no: "\<not> h265_is 32 n" "\<not> h265_is 33 n" "\<not> h265_is 34 n" by (auto dest: h265_is_imp_param)
    have "nal_type_is 7 n \<Longrightarrow> \<not> nal_type_is 8 n" by (cases n) (auto simp: nal_type_is_def)
    with False no snoc show ?thesis
      by (auto simp: push_nalu_other acc_spec_def switch_kind_def Let_def find_last_None)
  qed
qed

lemma visit_all_fold: "visit_all (\<lambda>n st. (False, f n st)) ns st = (False, fold f ns st)"
  by (induction ns arbitrary: st) simp_all

text \<open>
  C21. The parameter sets extracted from a payload are those of the specification: the last
  complete set of H.265 parameter sets when the payload has any, otherwise of H.264, and none
  when one of them is missing.
\<close>

theorem annexb_parameter_sets_spec:
  "annexb_parameter_sets find_iter payload = parameter_sets_spec (split_annexb_nalus find_iter payload)"
proof -
  let ?ns = "split_annexb_nalus find_iter payload"
  have "annexb_parameter_sets find_iter payload = complete (acc_spec ?ns)"
    by (simp add: annexb_parameter_sets_def push_payload_def for_each_annexb_nalu_eq visit_all_fold fold_push_nalu Let_def)
  also have "\<dots> = parameter_sets_spec ?ns"
  proof (cases "\<exists>n \<in> set ?ns. is_h265_param n")
    case True
    show ?thesis
      unfolding complete_def acc_spec_def parameter_sets_spec_def if_P [OF True]
      by (cases "find_last (h265_is 32) ?ns"; cases "find_last (h265_is 33) ?ns"; cases "find_last (h265_is 34) ?ns")
        simp_all
  next
    case False
    have none: "find_last (nal_type_is 7) ?ns = None" if "\<not> (\<exists>n \<in> set ?ns. nal_type_is 7 n \<or> nal_type_is 8 n)"
      using that by (simp add: find_last_None)
    show ?thesis
      unfolding complete_def acc_spec_def parameter_sets_spec_def if_not_P [OF False]
      using none
      by (cases "find_last (nal_type_is 7) ?ns"; cases "find_last (nal_type_is 8) ?ns") auto
  qed
  finally show ?thesis .
qed

end
