(* ===== verification/Ring_Stats.thy ===== *)
theory Ring_Stats
  imports Ring_Reader Avcc
begin

text \<open>
  The rest of \<open>crates/restream-sync/src/ring_buffer.rs\<close>: publication that records in-band
  configurations, the payload statistics and bitrate estimates over the retained packets, the reader
  snapshots and the DTS enforcer, and the wake subscribers of
  \<open>crates/restream-sync/src/subscribers.rs\<close>.

  Readers are handles; \<open>infos\<close> answers the shared information of a handle whose reader is still
  alive, as upgrading the source's weak reference does. \<open>now\<close> is the clock reading of the
  operation. The mean burst size, a quotient of floating-point numbers, is kept as its operands.
\<close>

subsection \<open>Recording in-band configurations\<close>

definition record_in_band_config :: "(bytes \<Rightarrow> nat list) \<Rightarrow> ring_buffer \<Rightarrow> media_packet \<Rightarrow> ring_buffer" where
  "record_in_band_config find_iter r p =
     (if media_type p = Video \<and> format p = Raw
      then (case annexb_parameter_sets find_iter (payload p) of
              None \<Rightarrow> r
            | Some parameter_sets \<Rightarrow> snd (set_track_config r Video (track_index p) parameter_sets))
      else r)"

definition push_batch_recording_config ::
    "(bytes \<Rightarrow> nat list) \<Rightarrow> nat \<Rightarrow> media_packet list \<Rightarrow> ring_buffer \<Rightarrow> nat \<times> ring_buffer" where
  "push_batch_recording_config find_iter = push_batch_with (record_in_band_config find_iter)"

definition push_drained_batch_recording_config ::
    "(bytes \<Rightarrow> nat list) \<Rightarrow> (nat \<Rightarrow> nat) \<Rightarrow> media_packet list \<Rightarrow> ring_buffer \<Rightarrow> nat \<times> ring_buffer" where
  "push_drained_batch_recording_config find_iter clock packets r =
     push_drained_with (record_in_band_config find_iter) clock 0 packets r"

text \<open>Recording keeps the published history, so such batches are ordinary publications.\<close>

lemma inspect_ok_recording: "inspect_ok (record_in_band_config find_iter)"
proof -
  have "ring_core (snd (set_track_config r mt track bs)) base h \<and> write_idx (snd (set_track_config r mt track bs)) = write_idx r"
    if "ring_core r base h" for r mt track bs base h
    using ring_core_configs [OF that configs_wf_set [OF ring_core_wf [OF that], of mt track bs]] that
    by (auto simp: set_track_config_def Let_def wake_metadata_subscribers_def ring_core_def slot_at_def
        split: option.splits prod.splits)
  then show ?thesis by (auto simp: inspect_ok_def record_in_band_config_def split: option.splits)
qed

lemma push_batch_recording_history:
  "ring_ok r base h \<Longrightarrow> ring_ok (snd (push_batch_recording_config find_iter now ps r)) base
     (h @ batch_entries (record_in_band_config find_iter) (max now 1) (write_idx r) ps r)"
  unfolding push_batch_recording_config_def by (rule ring_ok_push_batch_with [OF inspect_ok_recording])

subsection \<open>Wake subscribers\<close>

text \<open>A subscriber is its handle; two handles are the same subscriber when they are equal.\<close>

type_synonym subscriber_list = "nat list"

definition subscribe :: "nat \<Rightarrow> subscriber_list \<Rightarrow> subscriber_list" where
  "subscribe s xs = (if s \<in> set xs then xs else xs @ [s])"

definition unsubscribe :: "nat \<Rightarrow> subscriber_list \<Rightarrow> subscriber_list" where
  "unsubscribe s xs = filter (\<lambda>x. x \<noteq> s) xs"

definition wake_all :: "subscriber_list \<Rightarrow> nat list \<Rightarrow> nat list" where
  "wake_all xs woken = foldl (\<lambda>w s. w @ [s]) woken xs"

lemma subscribers_distinct:
  "distinct xs \<Longrightarrow> distinct (subscribe s xs)" "distinct xs \<Longrightarrow> distinct (unsubscribe s xs)"
  by (simp_all add: subscribe_def unsubscribe_def)

lemma wake_all_once: "wake_all xs woken = woken @ xs"
  by (induction xs arbitrary: woken) (simp_all add: wake_all_def)

subsection \<open>Packet rate\<close>

text \<open>Rust's \<open>round\<close> and the saturating cast to \<open>u32\<close>.\<close>

fun round_u32 :: "float_value \<Rightarrow> nat" where
  "round_u32 (Finite m e) =
     (if m < 0 then 0
      else min u32_MAX (if 0 \<le> e then nat m * 2 ^ nat e else (2 * nat m + 2 ^ nat (- e)) div (2 * 2 ^ nat (- e))))"
| "round_u32 (Infinite neg) = (if neg then 0 else u32_MAX)"
| "round_u32 Not_A_Number = 0"

definition set_estimated_pkt_rate :: "float_value \<Rightarrow> ring_buffer \<Rightarrow> ring_buffer" where
  "set_estimated_pkt_rate rate r = r\<lparr>estimated_pkt_rate := round_u32 rate\<rparr>"

definition buffer_depth_secs :: "ring_buffer \<Rightarrow> (nat \<times> nat) option" where
  "buffer_depth_secs r =
     (if estimated_pkt_rate r = 0 then None else Some (capacity r, estimated_pkt_rate r))"

subsection \<open>Readers\<close>

definition active_reader_count :: "(nat \<Rightarrow> reader_info option) \<Rightarrow> ring_buffer \<Rightarrow> nat \<times> ring_buffer" where
  "active_reader_count infos r =
     (let alive = filter (\<lambda>h. infos h \<noteq> None) (readers r) in (length alive, r\<lparr>readers := alive\<rparr>))"

definition fill_and_capacity :: "(nat \<Rightarrow> reader_info option) \<Rightarrow> ring_buffer \<Rightarrow> nat \<times> nat" where
  "fill_and_capacity infos r =
     (let (min_idx, has_readers) =
        fold (\<lambda>h (min_idx, has_readers).
            case infos h of
              None \<Rightarrow> (min_idx, has_readers)
            | Some i \<Rightarrow> (min min_idx (info_read_idx i), True)) (readers r) (write_idx r, False);
          fill = (if has_readers then min (write_idx r - min_idx) (capacity r) else min (write_idx r) (capacity r))
      in (fill, capacity r))"

record reader_snapshot =
  rs_name :: string
  rs_read_idx :: nat
  rs_write_idx :: nat
  rs_lag_slots :: nat
  rs_overflow_count :: u64
  rs_packet_age_ms :: "nat option"
  rs_burst_count :: u64
  rs_avg_burst_size :: "u64 \<times> u64"
  rs_median_burst_size :: nat

definition reader_snapshot_of :: "nat \<Rightarrow> ring_buffer \<Rightarrow> reader_info \<Rightarrow> reader_snapshot" where
  "reader_snapshot_of now r i =
     (let read_idx = info_read_idx i;
          lag_slots = write_idx r - read_idx;
          packet_age_ms =
            (if lag_slots = 0 \<or> lag_slots \<ge> capacity r then None
             else
               let slot = slot_at r read_idx
               in if slot_data slot \<noteq> None \<and> slot_published_at_us slot > 0
                  then Some ((now - slot_published_at_us slot) div 1000) else None)
      in \<lparr>rs_name = info_name i, rs_read_idx = read_idx, rs_write_idx = write_idx r, rs_lag_slots = lag_slots,
          rs_overflow_count = overflow_count i, rs_packet_age_ms = packet_age_ms, rs_burst_count = burst_count i,
          rs_avg_burst_size = (packet_sum i, burst_count i), rs_median_burst_size = burst_median i\<rparr>)"

definition reader_snapshots ::
    "(nat \<Rightarrow> reader_info option) \<Rightarrow> nat \<Rightarrow> ring_buffer \<Rightarrow> reader_snapshot list \<times> ring_buffer" where
  "reader_snapshots infos now r =
     (map (reader_snapshot_of now r) (List.map_filter infos (readers r)),
      r\<lparr>readers := filter (\<lambda>h. infos h \<noteq> None) (readers r)\<rparr>)"

subsection \<open>Payload statistics\<close>

record payload_stats =
  st_slots :: nat
  st_payload_bytes :: nat
  st_video_bytes :: nat
  st_audio_bytes :: nat
  st_min_payload_bytes :: nat
  st_max_payload_bytes :: nat

definition payload_stats_step :: "ring_slot \<Rightarrow> payload_stats \<times> nat \<Rightarrow> payload_stats \<times> nat" where
  "payload_stats_step slot = (\<lambda>(stats, min_payload).
     case slot_data slot of
       None \<Rightarrow> (stats, min_payload)
     | Some p \<Rightarrow>
         let len = length (payload p);
             stats = stats\<lparr>st_slots := st_slots stats + 1,
               st_payload_bytes := saturating_add usize_MAX (st_payload_bytes stats) len,
               st_max_payload_bytes := max (st_max_payload_bytes stats) len\<rparr>
         in (case media_type p of
               Video \<Rightarrow> stats\<lparr>st_video_bytes := saturating_add usize_MAX (st_video_bytes stats) len\<rparr>
             | Audio \<Rightarrow> stats\<lparr>st_audio_bytes := saturating_add usize_MAX (st_audio_bytes stats) len\<rparr>,
             min min_payload len))"

definition payload_stats_of :: "ring_buffer \<Rightarrow> payload_stats" where
  "payload_stats_of r =
     (case fold payload_stats_step (slots r)
         (\<lparr>st_slots = 0, st_payload_bytes = 0, st_video_bytes = 0, st_audio_bytes = 0, st_min_payload_bytes = 0,
           st_max_payload_bytes = 0\<rparr>, usize_MAX) of
        (stats, min_payload) \<Rightarrow>
          if st_slots stats > 0 then stats\<lparr>st_min_payload_bytes := min_payload\<rparr> else stats)"

subsection \<open>Bitrate estimates\<close>

type_synonym dts_sample = "int \<times> nat"

definition dts_samples :: "ring_buffer \<Rightarrow> dts_sample list" where
  "dts_samples r = map (\<lambda>p. (dts p, length (payload p))) (List.map_filter slot_data (slots r))"

definition group_step :: "dts_sample list \<Rightarrow> dts_sample \<Rightarrow> dts_sample list" where
  "group_step grouped sample =
     (if grouped \<noteq> [] \<and> fst (last grouped) = fst sample
      then butlast grouped @ [(fst (last grouped), saturating_add u64_MAX (snd (last grouped)) (snd sample))]
      else grouped @ [sample])"

definition payload_by_dts :: "ring_buffer \<Rightarrow> dts_sample list" where
  "payload_by_dts r = foldl group_step [] (sort_key fst (dts_samples r))"

definition bits_per_second :: "nat \<Rightarrow> int \<Rightarrow> nat" where
  "bits_per_second payload_bytes span_ms =
     div_ceil (saturating_mul u64_MAX (saturating_mul u64_MAX payload_bytes 8) 1000) (nat span_ms)"

definition MIN_OBSERVATION_MS :: int where
  "MIN_OBSERVATION_MS = 250"

definition average_payload_bps :: "dts_sample list \<Rightarrow> nat option" where
  "average_payload_bps grouped =
     (if length grouped < 2 then None
      else
        let span_ms = fst (last grouped) - fst (hd grouped);
            payload_bytes = foldl (\<lambda>acc s. saturating_add u64_MAX acc (snd s)) 0 grouped
        in if span_ms < i64_MIN \<or> i64_MAX < span_ms then None
           else if payload_bytes = 0 \<or> span_ms < MIN_OBSERVATION_MS then None
           else Some (bits_per_second payload_bytes span_ms))"

definition retained_payload_bitrate_bps :: "ring_buffer \<Rightarrow> nat option" where
  "retained_payload_bitrate_bps r = average_payload_bps (payload_by_dts r)"

definition PEAK_WINDOW_MS :: int where
  "PEAK_WINDOW_MS = 250"

function extend_window :: "dts_sample list \<Rightarrow> int \<Rightarrow> nat \<Rightarrow> nat \<Rightarrow> nat \<times> nat" where
  "extend_window grouped window_end_dts stop window_bytes =
     (if stop < length grouped \<and> fst (grouped ! stop) < window_end_dts
      then extend_window grouped window_end_dts (stop + 1) (saturating_add u64_MAX window_bytes (snd (grouped ! stop)))
      else (stop, window_bytes))"
  by pat_completeness auto
termination
  by (relation "measure (\<lambda>(grouped, limit, stop, bytes). length grouped - stop)") auto

declare extend_window.simps [simp del]

definition saturating_sub_i64 :: "int \<Rightarrow> int \<Rightarrow> int" where
  "saturating_sub_i64 a b = max i64_MIN (min i64_MAX (a - b))"

definition peak_step :: "dts_sample list \<Rightarrow> nat \<Rightarrow> nat \<times> nat \<times> nat \<Rightarrow> nat \<times> nat \<times> nat" where
  "peak_step grouped start = (\<lambda>(peak_bps, window_bytes, stop).
     let window_end_dts = saturating_add_i64 (fst (grouped ! start)) PEAK_WINDOW_MS;
         (stop, window_bytes) = extend_window grouped window_end_dts stop window_bytes;
         peak_bps =
           (if window_bytes > 0 then
              let effective_span_ms =
                max (saturating_sub_i64 (fst (grouped ! (stop - 1))) (fst (grouped ! start))) PEAK_WINDOW_MS
              in max peak_bps (bits_per_second window_bytes effective_span_ms)
            else peak_bps)
     in (peak_bps, window_bytes - snd (grouped ! start), stop))"

definition observed_payload_bitrate_bps :: "ring_buffer \<Rightarrow> nat option" where
  "observed_payload_bitrate_bps r =
     (let grouped = payload_by_dts r
      in case average_payload_bps grouped of
           None \<Rightarrow> None
         | Some average_bps \<Rightarrow>
             (case fold (peak_step grouped) [0..<length grouped] (0, 0, 0) of
                (peak_bps, _, _) \<Rightarrow> Some (max average_bps peak_bps)))"

subsection \<open>The DTS enforcer\<close>

definition DtsEnforcer_new :: "nat \<Rightarrow> int list" where
  "DtsEnforcer_new num_streams = replicate num_streams i64_MIN"

definition enforce :: "nat \<Rightarrow> int \<Rightarrow> int \<Rightarrow> int list \<Rightarrow> (int \<times> int) \<times> int list" where
  "enforce stream_idx p d last_dts =
     (let d = (case list_get last_dts stream_idx of
                 Some prev \<Rightarrow> if d \<le> prev then saturating_add_i64 prev 1 else d
               | None \<Rightarrow> d);
          p = (if p < d then d else p)
      in ((p, d), last_dts[stream_idx := d]))"

subsection \<open>The estimates against their definition\<close>

definition sample_bytes :: "dts_sample list \<Rightarrow> nat" where
  "sample_bytes xs = sum_list (map snd xs)"

definition bytes_where :: "(int \<Rightarrow> bool) \<Rightarrow> dts_sample list \<Rightarrow> nat" where
  "bytes_where P xs = sample_bytes (filter (\<lambda>s. P (fst s)) xs)"

lemma sample_bytes_simps [simp]:
  "sample_bytes [] = 0" "sample_bytes (x # xs) = snd x + sample_bytes xs"
  "sample_bytes (xs @ ys) = sample_bytes xs + sample_bytes ys"
  by (simp_all add: sample_bytes_def)

lemma bytes_where_simps [simp]:
  "bytes_where P [] = 0" "bytes_where P (x # xs) = (if P (fst x) then snd x else 0) + bytes_where P xs"
  "bytes_where P (xs @ ys) = bytes_where P xs + bytes_where P ys"
  by (simp_all add: bytes_where_def)

lemma bytes_where_le: "bytes_where P xs \<le> sample_bytes xs"
  by (induction xs) auto

lemma bytes_where_True [simp]: "bytes_where (\<lambda>_. True) xs = sample_bytes xs"
  by (simp add: bytes_where_def)

text \<open>Grouping a sorted list merges the samples of one time and loses no bytes.\<close>

lemma grouped_samples:
  assumes "sorted (map fst xs)" and "sample_bytes xs \<le> u64_MAX"
  defines "g \<equiv> foldl group_step [] xs"
  shows "sorted_wrt (<) (map fst g) \<and> fst ` set g = fst ` set xs \<and> (\<forall>P. bytes_where P g = bytes_where P xs) \<and>
    (xs \<noteq> [] \<longrightarrow> g \<noteq> [] \<and> fst (last g) = fst (last xs))"
  using assms(1,2) unfolding g_def
proof (induction xs rule: rev_induct)
  case (snoc x xs)
  define h where "h = foldl group_step [] xs"
  have IH: "sorted_wrt (<) (map fst h)" "fst ` set h = fst ` set xs" "\<And>P. bytes_where P h = bytes_where P xs"
    "xs \<noteq> [] \<Longrightarrow> h \<noteq> [] \<and> fst (last h) = fst (last xs)"
    using snoc by (auto simp: sorted_append h_def)
  have le: "fst y \<le> fst x" if "y \<in> set xs" for y using snoc.prems(1) that by (auto simp: sorted_append)
  show ?case
  proof (cases "h \<noteq> [] \<and> fst (last h) = fst x")
    case True
    then obtain k b where h: "h = k @ [(fst x, b)]" by (metis append_butlast_last_id prod.collapse)
    have "b \<le> sample_bytes xs" using IH(3) [of "\<lambda>_. True"] by (simp add: h)
    then have "saturating_add u64_MAX b (snd x) = b + snd x" using snoc.prems(2) by (simp add: saturating_add_def)
    then have g: "foldl group_step [] (xs @ [x]) = k @ [(fst x, b + snd x)]"
      by (simp add: h_def [symmetric] group_step_def True) (simp add: h)
    have "bytes_where P (k @ [(fst x, b + snd x)]) = bytes_where P (xs @ [x])" for P
      using IH(3) [of P] by (auto simp: h split: if_splits)
    moreover have "sorted_wrt (<) (map fst (k @ [(fst x, b + snd x)]))" using IH(1) by (simp add: h)
    moreover have "fst ` set (k @ [(fst x, b + snd x)]) = fst ` set (xs @ [x])" using IH(2) by (auto simp: h)
    ultimately show ?thesis unfolding g by simp
  next
    case False
    then have g: "foldl group_step [] (xs @ [x]) = h @ [x]" by (auto simp: h_def [symmetric] group_step_def)
    have "fst y < fst x" if "y \<in> set h" for y
    proof -
      from that have "xs \<noteq> []" using IH(2) by auto
      then have last: "h \<noteq> []" "fst (last h) = fst (last xs)" using IH(4) by auto
      then have "fst (last h) < fst x" using le [of "last xs"] False \<open>xs \<noteq> []\<close> by force
      moreover have "fst y \<le> fst (last h)"
      proof -
        obtain k l where h: "h = k @ [l]" using last(1) by (metis append_butlast_last_id)
        then show ?thesis using IH(1) that by (auto simp: sorted_wrt_append)
      qed
      ultimately show ?thesis by simp
    qed
    then have "sorted_wrt (<) (map fst (h @ [x]))" using IH(1) by (auto simp: sorted_wrt_append)
    moreover have "fst ` set (h @ [x]) = fst ` set (xs @ [x])" using IH(2) by auto
    ultimately show ?thesis unfolding g using IH(3) by simp
  qed
qed simp

lemma extend_window_eq:
  assumes "window_bytes + sample_bytes (drop stop g) \<le> u64_MAX"
  shows "extend_window g limit stop window_bytes =
    (stop + length (takeWhile (\<lambda>s. fst s < limit) (drop stop g)),
     window_bytes + sample_bytes (takeWhile (\<lambda>s. fst s < limit) (drop stop g)))"
  using assms
proof (induction g limit stop window_bytes rule: extend_window.induct)
  case (1 g limit stop window_bytes)
  show ?case
  proof (cases "stop < length g \<and> fst (g ! stop) < limit")
    case True
    then have d: "drop stop g = g ! stop # drop (stop + 1) g" by (simp add: Cons_nth_drop_Suc)
    have "saturating_add u64_MAX window_bytes (snd (g ! stop)) = window_bytes + snd (g ! stop)"
      using "1.prems" unfolding d by (simp add: saturating_add_def)
    moreover from this have "extend_window g limit (stop + 1) (window_bytes + snd (g ! stop)) =
        (stop + 1 + length (takeWhile (\<lambda>s. fst s < limit) (drop (stop + 1) g)),
         window_bytes + snd (g ! stop) + sample_bytes (takeWhile (\<lambda>s. fst s < limit) (drop (stop + 1) g)))"
      using "1.IH" [OF True] "1.prems" unfolding d by (simp add: add.assoc)
    ultimately show ?thesis using True
      by (subst extend_window.simps) (simp only: d if_True takeWhile.simps simp_thms, simp)
  next
    case False
    then have "takeWhile (\<lambda>s. fst s < limit) (drop stop g) = []"
      by (cases "stop < length g") (auto simp: takeWhile_eq_Nil_iff hd_drop_conv_nth)
    with False show ?thesis by (subst extend_window.simps) auto
  qed
qed

definition window_bytes_at :: "dts_sample list \<Rightarrow> int \<Rightarrow> nat" where
  "window_bytes_at xs t = bytes_where (\<lambda>d. t \<le> d \<and> d < t + PEAK_WINDOW_MS) xs"

lemma split_at_two:
  assumes "n \<le> m"
  shows "g = take n g @ take (m - n) (drop n g) @ drop m g"
proof -
  have "drop m g = drop (m - n) (drop n g)" using assms by simp
  then show ?thesis by (simp only: append_take_drop_id)
qed

lemma window_split:
  assumes "sorted_wrt (<) (map fst g)" and "n < length g" and "n \<le> stop"
    and "\<forall>j < stop. j < length g \<longrightarrow> fst (g ! j) < fst (g ! n) + PEAK_WINDOW_MS"
    and "stop < length g \<longrightarrow> fst (g ! n) + PEAK_WINDOW_MS \<le> fst (g ! stop)"
  shows "window_bytes_at g (fst (g ! n)) = sample_bytes (take (stop - n) (drop n g))"
proof -
  let ?P = "\<lambda>s. fst (g ! n) \<le> fst s \<and> fst s < fst (g ! n) + PEAK_WINDOW_MS"
  have less: "fst (g ! i) < fst (g ! j)" if "i < j" "j < length g" for i j
    using sorted_wrt_nth_less [OF assms(1), of i j] that by simp
  have a: "filter ?P (take n g) = []"
    using less [of _ n] assms(2) by (force simp: filter_empty_conv in_set_conv_nth)
  have b: "filter ?P (take (stop - n) (drop n g)) = take (stop - n) (drop n g)"
  proof (rule filter_True, rule ballI)
    fix x assume "x \<in> set (take (stop - n) (drop n g))"
    then obtain k where k: "k < stop - n" "n + k < length g" "x = g ! (n + k)" by (auto simp: in_set_conv_nth)
    then show "?P x" using less [of n "n + k"] assms(4) by (cases "k = 0") auto
  qed
  have c: "filter ?P (drop stop g) = []"
  proof -
    have "fst (g ! n) + PEAK_WINDOW_MS \<le> fst (g ! (stop + k))" if "stop + k < length g" for k
      using assms(5) less [of stop "stop + k"] that by (cases "k = 0") auto
    moreover have "\<exists>k. stop + k < length g \<and> x = g ! (stop + k)" if "x \<in> set (drop stop g)" for x
    proof -
      from that obtain k where "k < length g - stop" "x = g ! (stop + k)" by (auto simp: in_set_conv_nth)
      then show ?thesis by (intro exI [of _ k]) simp
    qed
    ultimately have "\<forall>x \<in> set (drop stop g). \<not> ?P x" by fastforce
    then show ?thesis by (simp add: filter_empty_conv)
  qed
  have "filter ?P g = take (stop - n) (drop n g)"
    using arg_cong [OF split_at_two [OF assms(3), of g], of "filter ?P"] by (simp only: filter_append a b c append_Nil append_Nil2)
  then show ?thesis by (simp add: window_bytes_at_def bytes_where_def)
qed

lemma peak_rate: "w * 8000 \<le> u64_MAX \<Longrightarrow> bits_per_second w PEAK_WINDOW_MS = 32 * w"
  by (simp add: bits_per_second_def saturating_mul_def PEAK_WINDOW_MS_def div_ceil_def)

definition peak_upto :: "dts_sample list \<Rightarrow> nat \<Rightarrow> nat" where
  "peak_upto g n = Max (insert 0 ((\<lambda>i. 32 * window_bytes_at g (fst (g ! i))) ` {..<n}))"

lemma peak_upto_Suc: "peak_upto g (Suc n) = max (peak_upto g n) (32 * window_bytes_at g (fst (g ! n)))"
  unfolding peak_upto_def lessThan_Suc image_insert
  by (subst insert_commute, subst Max_insert) (simp_all only: finite_insert finite_imageI finite_lessThan max.commute insert_not_empty not_False_eq_True)

text \<open>The loop state before the window that starts at \<open>n\<close>.\<close>

definition peak_inv :: "dts_sample list \<Rightarrow> nat \<Rightarrow> nat \<times> nat \<times> nat \<Rightarrow> bool" where
  "peak_inv g n = (\<lambda>(peak, bytes, stop). peak = peak_upto g n \<and> n \<le> stop \<and> stop \<le> length g \<and>
     bytes = sample_bytes (take (stop - n) (drop n g)) \<and>
     (\<forall>j < stop. \<forall>i. n \<le> i \<and> i < length g \<longrightarrow> fst (g ! j) < fst (g ! i) + PEAK_WINDOW_MS))"

lemma peak_step_inv:
  assumes "sorted_wrt (<) (map fst g)" and "sample_bytes g * 8000 \<le> u64_MAX"
    and "\<forall>s \<in> set g. i64_MIN \<le> fst s \<and> fst s \<le> i64_MAX - PEAK_WINDOW_MS"
    and "peak_inv g n st" and "n < length g"
  shows "peak_inv g (Suc n) (peak_step g n st)"
proof -
  obtain peak bytes stop where st: "st = (peak, bytes, stop)" by (cases st)
  have inv: "peak = peak_upto g n" "n \<le> stop" "stop \<le> length g" "bytes = sample_bytes (take (stop - n) (drop n g))"
    "\<And>j i. j < stop \<Longrightarrow> n \<le> i \<Longrightarrow> i < length g \<Longrightarrow> fst (g ! j) < fst (g ! i) + PEAK_WINDOW_MS"
    using assms(4) by (auto simp: peak_inv_def st)
  define t where "t = fst (g ! n)"
  have less: "fst (g ! i) < fst (g ! j)" if "i < j" "j < length g" for i j
    using sorted_wrt_nth_less [OF assms(1), of i j] that by simp
  have total: "sample_bytes g = sample_bytes (take n g) + bytes + sample_bytes (drop stop g)"
    using arg_cong [OF split_at_two [OF inv(2), of g], of sample_bytes] by (simp only: sample_bytes_simps inv(4) add.assoc)
  let ?W = "takeWhile (\<lambda>s. fst s < t + PEAK_WINDOW_MS) (drop stop g)"
  define stop' where "stop' = stop + length ?W"
  have limit: "saturating_add_i64 t PEAK_WINDOW_MS = t + PEAK_WINDOW_MS"
  proof -
    have "i64_MIN \<le> t \<and> t \<le> i64_MAX - PEAK_WINDOW_MS" using assms(3,5) nth_mem [of n g] unfolding t_def by blast
    then show ?thesis by (simp add: saturating_add_i64_def PEAK_WINDOW_MS_def max_defs)
  qed
  have "extend_window g (t + PEAK_WINDOW_MS) stop bytes = (stop', bytes + sample_bytes ?W)"
  proof -
    have "bytes + sample_bytes (drop stop g) \<le> u64_MAX" using total assms(2) by linarith
    then show ?thesis unfolding stop'_def by (rule extend_window_eq)
  qed
  have "?W = take (stop' - stop) (drop stop g)" by (simp only: stop'_def add_diff_cancel_left') (rule takeWhile_eq_take)
  moreover have "take (stop - n) (drop n g) @ take (stop' - stop) (drop stop g) = take (stop' - n) (drop n g)"
    using inv(2) take_add [of "stop - n" "stop' - stop" "drop n g"] by (simp add: stop'_def)
  ultimately have "bytes + sample_bytes ?W = sample_bytes (take (stop' - n) (drop n g))"
    by (metis inv(4) sample_bytes_simps(3))
  with \<open>extend_window g (t + PEAK_WINDOW_MS) stop bytes = (stop', bytes + sample_bytes ?W)\<close>
  have extend: "extend_window g (t + PEAK_WINDOW_MS) stop bytes =
      (stop', sample_bytes (take (stop' - n) (drop n g)))" by simp
  have below: "fst (g ! j) < t + PEAK_WINDOW_MS" if "j < stop'" for j
  proof (cases "j < stop")
    case False
    then have "j - stop < length ?W" using that by (simp add: stop'_def)
    moreover from this have "?W ! (j - stop) = g ! j" using False inv(3) by (simp add: takeWhile_nth)
    ultimately show ?thesis by (metis nth_mem set_takeWhileD)
  qed (use inv(5) [of j n] assms(5) in \<open>simp add: t_def\<close>)
  have above: "stop' < length g \<longrightarrow> t + PEAK_WINDOW_MS \<le> fst (g ! stop')"
    using nth_length_takeWhile [of "\<lambda>s. fst s < t + PEAK_WINDOW_MS" "drop stop g"] inv(3)
    by (simp add: stop'_def less_diff_conv2 add.commute not_less)
  have stop': "n < stop'" "stop' \<le> length g"
  proof -
    have "0 < length ?W" if "stop = n"
      using that assms(5) by (simp add: t_def Cons_nth_drop_Suc [symmetric] PEAK_WINDOW_MS_def)
    then show "n < stop'" using inv(2) by (cases "stop = n") (auto simp: stop'_def)
    show "stop' \<le> length g" using inv(3) length_takeWhile_le [of _ "drop stop g"] by (simp add: stop'_def le_diff_conv2 add.commute)
  qed
  have window: "sample_bytes (take (stop' - n) (drop n g)) = window_bytes_at g t"
    using window_split [OF assms(1,5), of stop'] below above stop' by (simp add: t_def)
  have span: "max (saturating_sub_i64 (fst (g ! (stop' - 1))) t) PEAK_WINDOW_MS = PEAK_WINDOW_MS"
    using below [of "stop' - 1"] stop' by (auto simp: saturating_sub_i64_def PEAK_WINDOW_MS_def max_defs)
  have rate: "bits_per_second (window_bytes_at g t) PEAK_WINDOW_MS = 32 * window_bytes_at g t"
    using bytes_where_le assms(2) by (intro peak_rate) (metis window_bytes_at_def le_trans mult_le_mono1)
  have next_bytes: "window_bytes_at g t - snd (g ! n) = sample_bytes (take (stop' - Suc n) (drop (Suc n) g))"
  proof -
    have "take (stop' - n) (drop n g) = g ! n # take (stop' - Suc n) (drop (Suc n) g)"
      using stop' assms(5) by (simp add: Cons_nth_drop_Suc [symmetric] take_Cons' Suc_diff_Suc)
    then show ?thesis using window by simp
  qed
  have "peak_step g n st = (peak_upto g (Suc n), window_bytes_at g t - snd (g ! n), stop')"
    by (auto simp: peak_step_def st t_def [symmetric] limit extend window span rate Let_def peak_upto_Suc inv(1)
        simp del: One_nat_def)
  moreover have "fst (g ! j) < fst (g ! i) + PEAK_WINDOW_MS" if "j < stop'" "Suc n \<le> i" "i < length g" for i j
    using below [OF that(1)] less [of n i] that by (simp add: t_def)
  ultimately show ?thesis using stop' next_bytes by (auto simp: peak_inv_def)
qed

lemma peak_fold:
  assumes "sorted_wrt (<) (map fst g)" and "sample_bytes g * 8000 \<le> u64_MAX"
    and "\<forall>s \<in> set g. i64_MIN \<le> fst s \<and> fst s \<le> i64_MAX - PEAK_WINDOW_MS" and "n \<le> length g"
  shows "peak_inv g n (fold (peak_step g) [0..<n] (0, 0, 0))"
  using assms(4)
proof (induction n)
  case 0
  then show ?case by (simp add: peak_inv_def peak_upto_def)
next
  case (Suc n)
  then show ?case using peak_step_inv [OF assms(1-3), of n] by simp
qed

lemma total_bytes_foldl: "acc + sample_bytes g \<le> u64_MAX \<Longrightarrow>
    foldl (\<lambda>acc s. saturating_add u64_MAX acc (snd s)) acc g = acc + sample_bytes g"
  by (induction g arbitrary: acc) (auto simp: saturating_add_def)

lemma bytes_where_sort: "bytes_where P (sort_key fst xs) = bytes_where P xs"
proof -
  have "bytes_where P (insort_key fst x xs) = bytes_where P (x # xs)" for x xs by (induction xs) auto
  then show ?thesis by (induction xs) simp_all
qed

lemma peak_upto_image: "g \<noteq> [] \<Longrightarrow> peak_upto g (length g) = Max ((\<lambda>t. 32 * window_bytes_at g t) ` fst ` set g)"
proof -
  assume "g \<noteq> []"
  have "(\<lambda>i. 32 * window_bytes_at g (fst (g ! i))) ` {..<length g} = (\<lambda>t. 32 * window_bytes_at g t) ` fst ` set g"
    by (auto simp: set_conv_nth image_iff)
  with \<open>g \<noteq> []\<close> show ?thesis by (simp add: peak_upto_def)
qed

lemma sorted_ends:
  assumes "sorted_wrt (<) (map fst g)" and "g \<noteq> []"
  shows "fst (last g) = Max (fst ` set g)" "fst (hd g) = Min (fst ` set g)"
    "length g < 2 \<Longrightarrow> fst (last g) = fst (hd g)"
proof -
  show "fst (last g) = Max (fst ` set g)"
  proof -
    obtain k l where "g = k @ [l]" using assms(2) by (metis append_butlast_last_id)
    with assms(1) show ?thesis by (intro Max_eqI [symmetric]) (auto simp: sorted_wrt_append)
  qed
  show "fst (hd g) = Min (fst ` set g)"
    using assms by (cases g) (auto intro!: Min_eqI [symmetric])
  show "fst (last g) = fst (hd g)" if "length g < 2" using assms(2) that by (cases g) auto
qed

text \<open>
  C39. The startup bitrate estimate is what its comment says: over the retained packets it is the
  larger of the average over the whole span of decode times, rounded up, and the highest rate of any
  quarter-second window that starts at a packet; there is no estimate when the packets span less
  than a quarter of a second or carry no bytes. The one-pass sliding window over the sorted and merged
  samples computes exactly this.
\<close>

theorem observed_bitrate_exact:
  assumes "sample_bytes (dts_samples r) * 8000 \<le> u64_MAX" and "\<forall>s \<in> set (dts_samples r). \<bar>fst s\<bar> < 2 ^ 62"
  shows "observed_payload_bitrate_bps r =
    (let S = dts_samples r; T = fst ` set S; span = Max T - Min T
     in if sample_bytes S = 0 \<or> span < 250 then None
        else Some (max (div_ceil (8000 * sample_bytes S) (nat span)) (Max ((\<lambda>t. 32 * window_bytes_at S t) ` T))))"
proof -
  define S X g where "S = dts_samples r" and "X = sort_key fst S" and "g = payload_by_dts r"
  define T span where "T = fst ` set S" and "span = Max T - Min T"
  have bytes: "bytes_where P X = bytes_where P S" for P by (simp add: X_def bytes_where_sort)
  from bytes [of "\<lambda>_. True"] assms(1) have "sample_bytes X \<le> u64_MAX" by (simp add: S_def)
  moreover have "sorted (map fst X)" "fst ` set X = T" by (simp_all add: X_def T_def)
  moreover have "g = foldl group_step [] X" by (simp add: g_def payload_by_dts_def S_def X_def)
  ultimately have g: "sorted_wrt (<) (map fst g)" "fst ` set g = T" "\<And>P. bytes_where P g = bytes_where P S" "X \<noteq> [] \<Longrightarrow> g \<noteq> []"
    using grouped_samples [of X] by (simp_all add: bytes)
  have total: "sample_bytes g = sample_bytes S" using g(3) [of "\<lambda>_. True"] by simp
  have window: "window_bytes_at g = window_bytes_at S" by (simp add: window_bytes_at_def fun_eq_iff g(3))
  have small: "\<bar>t\<bar> < 2 ^ 62" if "t \<in> T" for t using assms(2) that by (auto simp: T_def S_def)
  have range: "\<forall>s \<in> set g. i64_MIN \<le> fst s \<and> fst s \<le> i64_MAX - PEAK_WINDOW_MS"
  proof
    fix s assume "s \<in> set g"
    then have "fst s \<in> T" using g(2) by blast
    from small [OF this] show "i64_MIN \<le> fst s \<and> fst s \<le> i64_MAX - PEAK_WINDOW_MS"
      by (auto simp: max_defs PEAK_WINDOW_MS_def abs_less_iff)
  qed
  show ?thesis
  proof (cases "S = []")
    case True
    then have "g = []" by (simp add: g_def payload_by_dts_def S_def [symmetric])
    with True show ?thesis
      by (simp add: observed_payload_bitrate_bps_def g_def [symmetric] average_payload_bps_def S_def [symmetric])
  next
    case False
    then have "g \<noteq> []" "T \<noteq> {}" using g(4) by (auto simp: X_def T_def) (metis length_0_conv length_sort)
    note ends = sorted_ends [OF g(1) this(1)]
    have "Max T \<in> T" "Min T \<in> T" using \<open>T \<noteq> {}\<close> by (simp_all add: T_def)
    then have span_range: "i64_MIN \<le> span" "span \<le> i64_MAX" using small [of "Max T"] small [of "Min T"]
      by (auto simp: span_def max_defs abs_less_iff)
    have average: "average_payload_bps g =
        (if sample_bytes S = 0 \<or> span < 250 then None else Some (div_ceil (8000 * sample_bytes S) (nat span)))"
    proof (cases "length g < 2")
      case True
      then have "span = 0" using ends g(2) by (simp add: span_def)
      with True show ?thesis by (simp add: average_payload_bps_def)
    next
      case False
      have "8000 * sample_bytes S \<le> u64_MAX" using assms(1) by (simp add: S_def mult.commute)
      then show ?thesis using False span_range total_bytes_foldl [of 0 g] ends
        by (simp add: average_payload_bps_def Let_def total g(2) span_def bits_per_second_def saturating_mul_def
            MIN_OBSERVATION_MS_def mult.commute)
    qed
    obtain peak bytes stop where fold: "fold (peak_step g) [0..<length g] (0, 0, 0) = (peak, bytes, stop)"
      by (cases "fold (peak_step g) [0..<length g] (0, 0, 0)")
    have "peak = Max ((\<lambda>t. 32 * window_bytes_at S t) ` T)"
      using peak_fold [OF g(1) _ range order_refl] assms(1) peak_upto_image [OF \<open>g \<noteq> []\<close>]
      by (simp add: fold peak_inv_def total S_def [symmetric] g(2) window)
    then show ?thesis
      by (simp add: observed_payload_bitrate_bps_def g_def [symmetric] S_def [symmetric] T_def [symmetric]
          span_def [symmetric] average fold Let_def)
  qed
qed

definition sample_packet_at :: "int \<Rightarrow> nat \<Rightarrow> media_packet" where
  "sample_packet_at t n =
     \<lparr>media_type = Video, format = Raw, is_keyframe = False, track_index = 0, pts = t, dts = t, payload = replicate n 0\<rparr>"

definition sample_ring :: ring_buffer where
  "sample_ring = push 9 (sample_packet_at 1000 1) (push 5 (sample_packet_at 0 3) (RingBuffer_new 2))"

lemma sample_ring_samples: "dts_samples sample_ring = [(0, 3), (1000, 1)]"
  by (simp add: dts_samples_def sample_ring_def push_def store_packet_def Let_def begin_write_def add_published_bytes_def
      notify_waiters_def wake_publication_subscribers_def RingBuffer_new_def RingSlot_new_def sample_packet_at_def
      List.map_filter_def numeral_2_eq_2 is_video_keyframe_def)

theorem observed_bitrate_exact_witness: "observed_payload_bitrate_bps sample_ring = Some 96"
  using observed_bitrate_exact [of sample_ring]
  by (simp add: sample_ring_samples window_bytes_at_def div_ceil_def max_defs Let_def PEAK_WINDOW_MS_def)

subsection \<open>Strictly increasing decode times\<close>

lemma enforce_increasing:
  assumes "enforce i p d ds = ((p', d'), ds')" and "i < length ds" and "i64_MIN \<le> ds ! i" and "ds ! i < i64_MAX"
  shows "ds ! i < d' \<and> d \<le> d' \<and> d' \<le> p' \<and> p \<le> p' \<and> ds' = ds[i := d'] \<and> (ds ! i < d \<longrightarrow> d' = d)"
  using assms by (auto simp: enforce_def Let_def list_get_def saturating_add_i64_def split: if_splits)

end
