(* ===== verification/Standby_Gop.thy ===== *)
theory Standby_Gop
  imports Media_Packet
begin

text \<open>
  The standby cache of \<open>crates/restream-sync/src/standby_gop.rs\<close>: while an input is not selected it
  keeps the packets since the last video keyframe, so that a switch to it can replay a decodable
  start. The cache is bounded in payload bytes and in packets; a group of pictures that exceeds a
  bound is given up until the next keyframe.
\<close>

record standby_gop_cache =
  sg_packets :: "media_packet list"
  sg_payload_bytes :: nat
  sg_max_payload_bytes :: nat
  sg_max_packets :: nat

definition DEFAULT_STANDBY_GOP_MAX_BYTES :: nat where
  "DEFAULT_STANDBY_GOP_MAX_BYTES = 16 * 1024 * 1024"

definition DEFAULT_STANDBY_GOP_MAX_PACKETS :: nat where
  "DEFAULT_STANDBY_GOP_MAX_PACKETS = 2048"

definition StandbyGopCache_new :: "nat \<Rightarrow> nat \<Rightarrow> standby_gop_cache" where
  "StandbyGopCache_new max_payload_bytes max_packets =
     \<lparr>sg_packets = [], sg_payload_bytes = 0, sg_max_payload_bytes = max_payload_bytes, sg_max_packets = max_packets\<rparr>"

definition StandbyGopCache_default :: standby_gop_cache where
  "StandbyGopCache_default = StandbyGopCache_new DEFAULT_STANDBY_GOP_MAX_BYTES DEFAULT_STANDBY_GOP_MAX_PACKETS"

definition gop_clear :: "standby_gop_cache \<Rightarrow> standby_gop_cache" where
  "gop_clear c = c\<lparr>sg_packets := [], sg_payload_bytes := 0\<rparr>"

definition gop_push :: "media_packet \<Rightarrow> standby_gop_cache \<Rightarrow> standby_gop_cache" where
  "gop_push p c =
     (let keyframe = (media_type p = Video \<and> is_keyframe p)
      in if \<not> keyframe \<and> sg_packets c = [] then c
         else
           let c = (if keyframe then gop_clear c else c);
               next_bytes = saturating_add usize_MAX (sg_payload_bytes c) (length (payload p))
           in if next_bytes > sg_max_payload_bytes c \<or> length (sg_packets c) \<ge> sg_max_packets c
              then gop_clear c
              else c\<lparr>sg_payload_bytes := next_bytes, sg_packets := sg_packets c @ [p]\<rparr>)"

definition is_replay_ready :: "standby_gop_cache \<Rightarrow> bool" where
  "is_replay_ready c =
     (case sg_packets c of [] \<Rightarrow> False | p # _ \<Rightarrow> media_type p = Video \<and> is_keyframe p)"

definition take_replay :: "standby_gop_cache \<Rightarrow> media_packet list \<times> standby_gop_cache" where
  "take_replay c =
     (if \<not> is_replay_ready c then ([], c)
      else (sg_packets c, c\<lparr>sg_payload_bytes := 0, sg_packets := []\<rparr>))"

definition packet_count :: "standby_gop_cache \<Rightarrow> nat" where
  "packet_count c = length (sg_packets c)"

definition wrapping_usize :: "nat \<Rightarrow> nat" where
  "wrapping_usize n = n mod (usize_MAX + 1)"

definition gop_retain :: "(media_packet \<Rightarrow> bool) \<Rightarrow> standby_gop_cache \<Rightarrow> standby_gop_cache" where
  "gop_retain keep c =
     (let kept = filter keep (sg_packets c);
          c = c\<lparr>sg_packets := kept, sg_payload_bytes := wrapping_usize (sum_list (map (\<lambda>p. length (payload p)) kept))\<rparr>
      in if \<not> is_replay_ready c then gop_clear c else c)"

subsection \<open>One group of pictures within the bounds\<close>

definition payload_sum :: "media_packet list \<Rightarrow> nat" where
  "payload_sum ps = sum_list (map (\<lambda>p. length (payload p)) ps)"

definition starts_gop :: "media_packet \<Rightarrow> bool" where
  "starts_gop p \<longleftrightarrow> media_type p = Video \<and> is_keyframe p"

text \<open>Empty, or one keyframe and the packets after it, counted and bounded.\<close>

definition gop_wf :: "standby_gop_cache \<Rightarrow> bool" where
  "gop_wf c \<longleftrightarrow>
     sg_payload_bytes c = min usize_MAX (payload_sum (sg_packets c)) \<and>
     (sg_packets c \<noteq> [] \<longrightarrow> starts_gop (hd (sg_packets c)) \<and> list_all (\<lambda>p. \<not> starts_gop p) (tl (sg_packets c)) \<and>
        sg_payload_bytes c \<le> sg_max_payload_bytes c \<and> length (sg_packets c) \<le> sg_max_packets c)"

lemma payload_sum_simps [simp]:
  "payload_sum [] = 0" "payload_sum (p # ps) = length (payload p) + payload_sum ps"
  "payload_sum (ps @ qs) = payload_sum ps + payload_sum qs"
  by (simp_all add: payload_sum_def)

definition fits :: "standby_gop_cache \<Rightarrow> media_packet list \<Rightarrow> bool" where
  "fits c ps \<longleftrightarrow> min usize_MAX (payload_sum ps) \<le> sg_max_payload_bytes c \<and> length ps \<le> sg_max_packets c"

definition holding :: "standby_gop_cache \<Rightarrow> media_packet list \<Rightarrow> standby_gop_cache" where
  "holding c ps =
     (if fits c ps then c\<lparr>sg_packets := ps, sg_payload_bytes := min usize_MAX (payload_sum ps)\<rparr> else gop_clear c)"

lemma gop_push_keyframe: "starts_gop k \<Longrightarrow> gop_push k c = holding c [k]"
  by (auto simp: gop_push_def starts_gop_def holding_def fits_def gop_clear_def saturating_add_def Let_def)

lemma gop_push_more: "\<not> starts_gop p \<Longrightarrow> ps \<noteq> [] \<Longrightarrow> gop_push p (holding c ps) = holding c (ps @ [p])"
  by (auto simp: gop_push_def starts_gop_def holding_def fits_def gop_clear_def saturating_add_def Let_def)

lemma gop_pushes:
  assumes "starts_gop k" and "list_all (\<lambda>p. \<not> starts_gop p) ps"
  shows "fold gop_push (k # ps) c = holding c (k # ps)"
  using assms(2)
proof (induction ps rule: rev_induct)
  case Nil
  then show ?case using assms(1) by (simp add: gop_push_keyframe)
next
  case (snoc p ps)
  then show ?case using gop_push_more [of p "k # ps" c] by simp
qed

text \<open>Every operation keeps the cache well formed; the bound on bytes excludes the saturated count.\<close>

datatype gop_op = Gop_Push media_packet | Gop_Retain "media_packet \<Rightarrow> bool" | Gop_Take | Gop_Clear

fun gop_apply :: "gop_op \<Rightarrow> standby_gop_cache \<Rightarrow> standby_gop_cache" where
  "gop_apply (Gop_Push p) c = gop_push p c"
| "gop_apply (Gop_Retain keep) c = gop_retain keep c"
| "gop_apply Gop_Take c = snd (take_replay c)"
| "gop_apply Gop_Clear c = gop_clear c"

lemma gop_clear_wf: "gop_wf (gop_clear c)"
  by (simp add: gop_wf_def gop_clear_def)

lemma gop_push_wf: "gop_wf c \<Longrightarrow> gop_wf (gop_push p c)"
  by (cases "sg_packets c")
    (auto simp: gop_push_def gop_wf_def starts_gop_def gop_clear_def saturating_add_def Let_def)

lemma payload_sum_filter: "payload_sum (filter keep ps) \<le> payload_sum ps"
  by (induction ps) auto

lemma gop_retain_wf:
  assumes "gop_wf c" and "sg_max_payload_bytes c < usize_MAX"
  shows "gop_wf (gop_retain keep c)"
proof (cases "sg_packets c")
  case Nil
  then show ?thesis
    by (simp add: gop_retain_def gop_wf_def is_replay_ready_def gop_clear_def Let_def wrapping_usize_def)
next
  case (Cons k ps)
  have k: "starts_gop k" "list_all (\<lambda>p. \<not> starts_gop p) ps" "payload_sum (k # ps) \<le> sg_max_payload_bytes c"
    "length (k # ps) \<le> sg_max_packets c"
    using assms Cons by (auto simp: gop_wf_def)
  let ?kept = "filter keep (k # ps)"
  have sum: "payload_sum ?kept \<le> sg_max_payload_bytes c"
    using payload_sum_filter [of keep "k # ps"] k(3) by linarith
  then have bytes: "wrapping_usize (payload_sum ?kept) = payload_sum ?kept" "min usize_MAX (payload_sum ?kept) = payload_sum ?kept"
    using assms(2) by (simp_all add: wrapping_usize_def)
  have none: "list_all (\<lambda>p. \<not> starts_gop p) (filter keep ps)" using k(2) by (auto simp: list_all_iff)
  have len: "length ?kept \<le> sg_max_packets c" using k(4) length_filter_le [of keep "k # ps"] by linarith
  show ?thesis
  proof (cases "keep k")
    case True
    with Cons k(1) bytes sum none len show ?thesis
      by (auto simp: gop_retain_def gop_wf_def is_replay_ready_def starts_gop_def payload_sum_def Let_def)
  next
    case False
    have "\<not> is_replay_ready (c\<lparr>sg_packets := filter keep ps, sg_payload_bytes := n\<rparr>)" for n
      using none by (cases "filter keep ps") (auto simp: is_replay_ready_def starts_gop_def)
    with Cons False show ?thesis by (simp add: gop_retain_def Let_def gop_clear_wf)
  qed
qed

lemma gop_limits [simp]:
  "sg_max_payload_bytes (gop_apply op c) = sg_max_payload_bytes c" "sg_max_packets (gop_apply op c) = sg_max_packets c"
  by (cases op; simp add: gop_push_def gop_retain_def take_replay_def gop_clear_def Let_def)+

interpretation standby: inductive_invariant
  "\<lambda>c. c = StandbyGopCache_new max_bytes max_packets \<and> max_bytes < usize_MAX" "\<lambda>c d. \<exists>op. d = gop_apply op c"
  "\<lambda>c. gop_wf c \<and> sg_max_payload_bytes c < usize_MAX"
  for max_bytes max_packets
proof
  show "gop_wf d \<and> sg_max_payload_bytes d < usize_MAX"
    if "gop_wf c \<and> sg_max_payload_bytes c < usize_MAX" "\<exists>op. d = gop_apply op c" for c d
  proof -
    from that(2) obtain op where d: "d = gop_apply op c" by blast
    have "gop_wf (gop_apply op c)"
    proof (cases op)
      case Gop_Take
      then show ?thesis using that(1) by (auto simp: take_replay_def gop_wf_def)
    qed (use that(1) in \<open>auto simp: gop_push_wf gop_retain_wf gop_clear_wf\<close>)
    with that(1) d show ?thesis by simp
  qed
qed (simp add: gop_wf_def StandbyGopCache_new_def)

text \<open>
  C40. A standby input replays exactly its current group of pictures: whatever the cache held, after
  a video keyframe and packets that start no other group, the replay is the keyframe and all of them
  in order when they are within both bounds, and nothing otherwise; taking it leaves the cache
  empty with the same bounds.
\<close>

theorem standby_replays_last_gop:
  assumes "starts_gop k" and "list_all (\<lambda>p. \<not> starts_gop p) ps"
  shows "take_replay (fold gop_push (k # ps) c) =
    (if min usize_MAX (payload_sum (k # ps)) \<le> sg_max_payload_bytes c \<and> length (k # ps) \<le> sg_max_packets c
     then k # ps else [], gop_clear c)"
  using assms by (simp only: gop_pushes)
    (auto simp: holding_def fits_def take_replay_def is_replay_ready_def gop_clear_def starts_gop_def)

theorem standby_replays_last_gop_witness:
  "fst (take_replay (fold gop_push
     [\<lparr>media_type = Video, format = Raw, is_keyframe = True, track_index = 0, pts = 0, dts = 0, payload = [1, 2]\<rparr>,
      \<lparr>media_type = Audio, format = Raw, is_keyframe = False, track_index = 0, pts = 0, dts = 0, payload = [3]\<rparr>]
     (StandbyGopCache_new 3 2))) =
     [\<lparr>media_type = Video, format = Raw, is_keyframe = True, track_index = 0, pts = 0, dts = 0, payload = [1, 2]\<rparr>,
      \<lparr>media_type = Audio, format = Raw, is_keyframe = False, track_index = 0, pts = 0, dts = 0, payload = [3]\<rparr>]"
  using standby_replays_last_gop
    [of "\<lparr>media_type = Video, format = Raw, is_keyframe = True, track_index = 0, pts = 0, dts = 0, payload = [1, 2]\<rparr>"
        "[\<lparr>media_type = Audio, format = Raw, is_keyframe = False, track_index = 0, pts = 0, dts = 0, payload = [3]\<rparr>]"
        "StandbyGopCache_new 3 2"]
  by (simp add: starts_gop_def StandbyGopCache_new_def)

end
