(* ===== verification/H264_Sps.thy ===== *)
theory H264_Sps
  imports Bit_Reader
begin

text \<open>
  The H.264 sequence parameter set probe of \<open>crates/restream-core/src/codec/h264_sps.rs\<close>.

  The frame rate is a double quotient of two 32-bit fields in the code; the model keeps the
  two operands, \<open>None\<close> where the code answers 0.0. The syntax of a parameter set is also given
  from the encoder's side, and the main theorem says that the parser reads every field of
  every encoded parameter set and answers its cropped picture size.
\<close>

subsection \<open>The parser\<close>

record h264_sps =
  profile_idc :: u8
  level_idc :: u8
  sps_width :: nat
  sps_height :: nat
  sps_timing :: "(nat \<times> nat) option"

definition HIGH_PROFILES :: "u8 list" where
  "HIGH_PROFILES = [100, 110, 122, 244, 44, 83, 86, 118, 128, 138, 139, 134, 135]"

definition profile_name :: "u8 \<Rightarrow> string" where
  "profile_name p =
     (if p = 66 then ''Baseline'' else if p = 77 then ''Main'' else if p = 88 then ''Extended''
      else if p = 100 then ''High'' else if p = 110 then ''High 10'' else if p = 122 then ''High 4:2:2''
      else if p = 244 then ''High 4:4:4 Predictive'' else ''Unknown'')"

definition level_name :: "u8 \<Rightarrow> string" where
  "level_name level = show_nat (unat level div 10) @ ''.'' @ show_nat (unat level mod 10)"

definition cropped :: "nat \<Rightarrow> nat \<Rightarrow> nat \<Rightarrow> nat \<Rightarrow> nat option" where
  "cropped full first second unit = do {
     crop \<leftarrow> checked_le u64_MAX ((first + second) * unit);
     v \<leftarrow> checked_sub full crop;
     if v \<le> u32_MAX \<and> v > 0 then Some v else None
   }"

fun scaling_list_loop :: "nat \<Rightarrow> int \<Rightarrow> int \<Rightarrow> bit_reader \<Rightarrow> (unit \<times> bit_reader) option" where
  "scaling_list_loop 0 last_scale next_scale r = Some ((), r)"
| "scaling_list_loop (Suc n) last_scale next_scale r = do {
     (next_scale, r) \<leftarrow>
       (if next_scale \<noteq> 0 then do {
          (delta, r) \<leftarrow> read_se r;
          if \<not> (- 128 \<le> delta \<and> delta \<le> 127) then None
          else if - (2 ^ 31) \<le> last_scale + delta \<and> last_scale + delta < 2 ^ 31
          then Some ((last_scale + delta) mod 256, r) else None
        } else Some (next_scale, r));
     scaling_list_loop n (if next_scale \<noteq> 0 then next_scale else last_scale) next_scale r
   }"

definition skip_scaling_list :: "nat \<Rightarrow> bit_reader \<Rightarrow> (unit \<times> bit_reader) option" where
  "skip_scaling_list n r = scaling_list_loop n 8 8 r"

text \<open>The scaling lists from \<open>index\<close> on, \<open>n\<close> of them.\<close>

fun scaling_lists_loop :: "nat \<Rightarrow> nat \<Rightarrow> bit_reader \<Rightarrow> (unit \<times> bit_reader) option" where
  "scaling_lists_loop index 0 r = Some ((), r)"
| "scaling_lists_loop index (Suc n) r = do {
     (present, r) \<leftarrow> read_bits 1 r;
     (_, r) \<leftarrow> (if present = 1 then skip_scaling_list (if index < 6 then 16 else 64) r else Some ((), r));
     scaling_lists_loop (index + 1) n r
   }"

text \<open>The fields of the high profiles; answers the chroma format.\<close>

definition high_profile_fields :: "bit_reader \<Rightarrow> (nat \<times> bit_reader) option" where
  "high_profile_fields r = do {
     (chroma_format_idc, r) \<leftarrow> read_ue r;
     if chroma_format_idc > 3 then None else do {
       (_, r) \<leftarrow> (if chroma_format_idc = 3 then skip 1 r else Some ((), r));
       (bit_depth_luma_minus8, r) \<leftarrow> read_ue r;
       (bit_depth_chroma_minus8, r) \<leftarrow> read_ue r;
       if bit_depth_luma_minus8 > 8 \<or> bit_depth_chroma_minus8 > 8 then None else do {
         (_, r) \<leftarrow> skip 1 r;
         (present, r) \<leftarrow> read_bits 1 r;
         (_, r) \<leftarrow> (if present = 1 then scaling_lists_loop 0 (if chroma_format_idc = 3 then 12 else 8) r
                    else Some ((), r));
         Some (chroma_format_idc, r)
       }
     }
   }"

definition pic_order_cnt_fields :: "bit_reader \<Rightarrow> (unit \<times> bit_reader) option" where
  "pic_order_cnt_fields r = do {
     (poc_type, r) \<leftarrow> read_ue r;
     if poc_type = 0 then do {
       (_, r) \<leftarrow> read_ue r;
       Some ((), r)
     } else if poc_type = 1 then do {
       (_, r) \<leftarrow> skip 1 r;
       (_, r) \<leftarrow> read_se r;
       (_, r) \<leftarrow> read_se r;
       (cycle, r) \<leftarrow> read_ue r;
       if cycle > 255 then None else do {
         (_, r) \<leftarrow> take_n read_se cycle r;
         Some ((), r)
       }
     } else if poc_type = 2 then Some ((), r)
     else None
   }"

definition vui_frame_rate :: "bit_reader \<Rightarrow> ((nat \<times> nat) option \<times> bit_reader) option" where
  "vui_frame_rate r = do {
     (aspect, r) \<leftarrow> read_bits 1 r;
     (_, r) \<leftarrow> (if aspect = 1 then do {
         (idc, r) \<leftarrow> read_bits 8 r;
         if idc = 255 then skip 32 r else Some ((), r)
       } else Some ((), r));
     (overscan, r) \<leftarrow> read_bits 1 r;
     (_, r) \<leftarrow> (if overscan = 1 then skip 1 r else Some ((), r));
     (signal, r) \<leftarrow> read_bits 1 r;
     (_, r) \<leftarrow> (if signal = 1 then do {
         (_, r) \<leftarrow> skip 4 r;
         (colour, r) \<leftarrow> read_bits 1 r;
         if colour = 1 then skip 24 r else Some ((), r)
       } else Some ((), r));
     (chroma_loc, r) \<leftarrow> read_bits 1 r;
     (_, r) \<leftarrow> (if chroma_loc = 1 then do {
         (_, r) \<leftarrow> read_ue r;
         (_, r) \<leftarrow> read_ue r;
         Some ((), r)
       } else Some ((), r));
     (timing, r) \<leftarrow> read_bits 1 r;
     if timing = 0 then Some (None, r) else do {
       (num_units_in_tick, r) \<leftarrow> read_bits 32 r;
       (time_scale, r) \<leftarrow> read_bits 32 r;
       Some (if num_units_in_tick > 0 \<and> time_scale > 0 then Some (time_scale, num_units_in_tick) else None, r)
     }
   }"

definition crop_fields :: "bit_reader \<Rightarrow> ((nat \<times> nat \<times> nat \<times> nat) \<times> bit_reader) option" where
  "crop_fields r = do {
     (flag, r) \<leftarrow> read_bits 1 r;
     if flag = 1 then do {
       (left, r) \<leftarrow> read_ue r;
       (right, r) \<leftarrow> read_ue r;
       (top, r) \<leftarrow> read_ue r;
       (bottom, r) \<leftarrow> read_ue r;
       Some ((left, right, top, bottom), r)
     } else Some ((0, 0, 0, 0), r)
   }"

text \<open>The picture size from the size fields, the chroma format and the crop offsets.\<close>

definition picture_size :: "nat \<Rightarrow> nat \<Rightarrow> nat \<Rightarrow> nat \<Rightarrow> nat \<times> nat \<times> nat \<times> nat \<Rightarrow> (nat \<times> nat) option" where
  "picture_size chroma_format_idc width_in_mbs_minus1 height_in_map_units_minus1 frame_mbs_only =
     (\<lambda>(crop_left, crop_right, crop_top, crop_bottom). do {
       let sub_width = (if chroma_format_idc = 1 \<or> chroma_format_idc = 2 then 2 else 1);
       let sub_height = (if chroma_format_idc = 1 then 2 else 1);
       frame_height_factor \<leftarrow> checked_sub 2 frame_mbs_only;
       width \<leftarrow> cropped ((width_in_mbs_minus1 + 1) * 16) crop_left crop_right sub_width;
       full \<leftarrow> checked_le u64_MAX ((height_in_map_units_minus1 + 1) * frame_height_factor * 16);
       height \<leftarrow> cropped full crop_top crop_bottom (sub_height * frame_height_factor);
       Some (width, height)
     })"

definition parse_h264_sps :: "bytes \<Rightarrow> h264_sps option" where
  "parse_h264_sps payload = do {
     (head, body) \<leftarrow> split_at_checked 3 (rbsp payload);
     let profile = head ! 0;
     let level = head ! 2;
     (_, r) \<leftarrow> read_ue (BitReader_new body);
     (chroma_format_idc, r) \<leftarrow> (if profile \<in> set HIGH_PROFILES then high_profile_fields r else Some (1, r));
     (_, r) \<leftarrow> read_ue r;
     (_, r) \<leftarrow> pic_order_cnt_fields r;
     (_, r) \<leftarrow> read_ue r;
     (_, r) \<leftarrow> skip 1 r;
     (width_in_mbs_minus1, r) \<leftarrow> read_ue r;
     (height_in_map_units_minus1, r) \<leftarrow> read_ue r;
     (frame_mbs_only, r) \<leftarrow> read_bits 1 r;
     (_, r) \<leftarrow> (if frame_mbs_only = 0 then skip 1 r else Some ((), r));
     (_, r) \<leftarrow> skip 1 r;
     (crop, r) \<leftarrow> crop_fields r;
     (width, height) \<leftarrow> picture_size chroma_format_idc width_in_mbs_minus1 height_in_map_units_minus1
       frame_mbs_only crop;
     (vui, r) \<leftarrow> read_bits 1 r;
     (timing, r) \<leftarrow> (if vui = 1 then vui_frame_rate r else Some (None, r));
     Some \<lparr>profile_idc = profile, level_idc = level, sps_width = width, sps_height = height,
           sps_timing = timing\<rparr>
   }"

subsection \<open>The encoder's side\<close>

datatype pic_order =
    Poc_Lsb nat
  | Poc_Cycle bool int int "int list"
  | Poc_Output_Order

record vui_syntax =
  vui_aspect :: "(nat \<times> bool list) option"
  vui_overscan :: "bool option"
  vui_signal :: "(bool list \<times> bool list option) option"
  vui_chroma_loc :: "(nat \<times> nat) option"
  vui_timing :: "(nat \<times> nat) option"

record high_syntax =
  hi_chroma :: nat
  hi_separate_planes :: bool
  hi_depth_luma :: nat
  hi_depth_chroma :: nat
  hi_bypass :: bool
  hi_scaling :: "int list option list option"

record sps_syntax =
  sx_profile :: u8
  sx_constraints :: u8
  sx_level :: u8
  sx_id :: nat
  sx_high :: high_syntax
  sx_log2_frame_num :: nat
  sx_poc :: pic_order
  sx_ref_frames :: nat
  sx_gaps :: bool
  sx_width :: nat
  sx_height :: nat
  sx_frame_mbs_only :: bool
  sx_mb_adaptive :: bool
  sx_direct :: bool
  sx_crop :: "(nat \<times> nat \<times> nat \<times> nat) option"
  sx_vui :: "vui_syntax option"

definition high_bits :: "high_syntax \<Rightarrow> bool list" where
  "high_bits y =
     ue_bits (hi_chroma y) @ (if hi_chroma y = 3 then [hi_separate_planes y] else []) @
     ue_bits (hi_depth_luma y) @ ue_bits (hi_depth_chroma y) @ [hi_bypass y] @
     opt_bits (\<lambda>ls. concat (map (opt_bits (\<lambda>ds. concat (map se_bits ds))) ls)) (hi_scaling y)"

fun poc_bits :: "pic_order \<Rightarrow> bool list" where
  "poc_bits (Poc_Lsb n) = ue_bits 0 @ ue_bits n"
| "poc_bits (Poc_Cycle zero a b offsets) =
     ue_bits 1 @ [zero] @ se_bits a @ se_bits b @ ue_bits (length offsets) @ concat (map se_bits offsets)"
| "poc_bits Poc_Output_Order = ue_bits 2"

definition vui_bits :: "vui_syntax \<Rightarrow> bool list" where
  "vui_bits y =
     opt_bits (\<lambda>(idc, sar). nat_bits 8 idc @ sar) (vui_aspect y) @
     opt_bits (\<lambda>b. [b]) (vui_overscan y) @
     opt_bits (\<lambda>(format, colour). format @ opt_bits (\<lambda>c. c) colour) (vui_signal y) @
     opt_bits (\<lambda>(top, bottom). ue_bits top @ ue_bits bottom) (vui_chroma_loc y) @
     opt_bits (\<lambda>(units, scale). nat_bits 32 units @ nat_bits 32 scale) (vui_timing y)"

definition sps_bits :: "sps_syntax \<Rightarrow> bool list" where
  "sps_bits y =
     ue_bits (sx_id y) @ (if sx_profile y \<in> set HIGH_PROFILES then high_bits (sx_high y) else []) @
     ue_bits (sx_log2_frame_num y) @ poc_bits (sx_poc y) @ ue_bits (sx_ref_frames y) @ [sx_gaps y] @
     ue_bits (sx_width y) @ ue_bits (sx_height y) @
     [sx_frame_mbs_only y] @ (if sx_frame_mbs_only y then [] else [sx_mb_adaptive y]) @ [sx_direct y] @
     opt_bits (\<lambda>(l, r, t, b). ue_bits l @ ue_bits r @ ue_bits t @ ue_bits b) (sx_crop y) @
     opt_bits vui_bits (sx_vui y)"

text \<open>The ranges of the syntax elements, as the standard gives them.\<close>

definition ue_ok :: "nat \<Rightarrow> bool" where
  "ue_ok v \<longleftrightarrow> v \<le> 2 ^ 32 - 2"

definition se_ok :: "int \<Rightarrow> bool" where
  "se_ok v \<longleftrightarrow> \<bar>v\<bar> \<le> 2 ^ 31 - 1"

text \<open>The deltas of one scaling list: no further delta is coded once the scale becomes zero.\<close>

fun scaling_ok :: "nat \<Rightarrow> int \<Rightarrow> int \<Rightarrow> int list \<Rightarrow> bool" where
  "scaling_ok 0 last_scale next_scale ds \<longleftrightarrow> ds = []"
| "scaling_ok (Suc n) last_scale next_scale ds \<longleftrightarrow>
     (if next_scale = 0 then scaling_ok n last_scale 0 ds
      else case ds of
        [] \<Rightarrow> False
      | d # ds \<Rightarrow> - 128 \<le> d \<and> d \<le> 127 \<and>
          (let s = (last_scale + d) mod 256 in scaling_ok n (if s \<noteq> 0 then s else last_scale) s ds))"

fun scaling_lists_ok :: "nat \<Rightarrow> int list option list \<Rightarrow> bool" where
  "scaling_lists_ok index [] \<longleftrightarrow> True"
| "scaling_lists_ok index (None # ls) \<longleftrightarrow> scaling_lists_ok (index + 1) ls"
| "scaling_lists_ok index (Some ds # ls) \<longleftrightarrow>
     scaling_ok (if index < 6 then 16 else 64) 8 8 ds \<and> scaling_lists_ok (index + 1) ls"

definition high_ok :: "high_syntax \<Rightarrow> bool" where
  "high_ok y \<longleftrightarrow>
     hi_chroma y \<le> 3 \<and> hi_depth_luma y \<le> 8 \<and> hi_depth_chroma y \<le> 8 \<and>
     (case hi_scaling y of
        None \<Rightarrow> True
      | Some ls \<Rightarrow> length ls = (if hi_chroma y = 3 then 12 else 8) \<and> scaling_lists_ok 0 ls)"

fun poc_ok :: "pic_order \<Rightarrow> bool" where
  "poc_ok (Poc_Lsb n) \<longleftrightarrow> ue_ok n"
| "poc_ok (Poc_Cycle zero a b offsets) \<longleftrightarrow> se_ok a \<and> se_ok b \<and> length offsets \<le> 255 \<and> list_all se_ok offsets"
| "poc_ok Poc_Output_Order \<longleftrightarrow> True"

definition vui_ok :: "vui_syntax \<Rightarrow> bool" where
  "vui_ok y \<longleftrightarrow>
     pred_option (\<lambda>(idc, sar). idc < 2 ^ 8 \<and> length sar = (if idc = 255 then 32 else 0)) (vui_aspect y) \<and>
     pred_option (\<lambda>(format, colour). length format = 4 \<and> pred_option (\<lambda>c. length c = 24) colour) (vui_signal y) \<and>
     pred_option (\<lambda>(top, bottom). ue_ok top \<and> ue_ok bottom) (vui_chroma_loc y) \<and>
     pred_option (\<lambda>(units, scale). units < 2 ^ 32 \<and> scale < 2 ^ 32) (vui_timing y)"

definition sps_ok :: "sps_syntax \<Rightarrow> bool" where
  "sps_ok y \<longleftrightarrow>
     ue_ok (sx_id y) \<and> high_ok (sx_high y) \<and> ue_ok (sx_log2_frame_num y) \<and> poc_ok (sx_poc y) \<and>
     ue_ok (sx_ref_frames y) \<and> ue_ok (sx_width y) \<and> ue_ok (sx_height y) \<and>
     pred_option (\<lambda>(l, r, t, b). ue_ok l \<and> ue_ok r \<and> ue_ok t \<and> ue_ok b) (sx_crop y) \<and>
     pred_option vui_ok (sx_vui y)"

subsection \<open>Every part reads back\<close>

lemma reads_scaling_step:
  assumes tail: "reads (scaling_list_loop n (if (last_scale + d) mod 256 \<noteq> 0 then (last_scale + d) mod 256 else last_scale)
      ((last_scale + d) mod 256)) bs ()"
    and "next_scale \<noteq> 0" and "- 128 \<le> d" and "d \<le> 127" and "0 \<le> last_scale" and "last_scale < 256"
  shows "reads (scaling_list_loop (Suc n) last_scale next_scale) (se_bits d @ bs) ()"
  unfolding reads_def
proof (intro allI impI)
  fix r rest assume wf: "reader_wf r" and bits: "reader_bits r = (se_bits d @ bs) @ rest"
  have "reads read_se (se_bits d) d" using assms by (intro reads_se) auto
  from this wf bits [unfolded append_assoc] obtain q where
    q: "read_se r = Some (d, q)" "reader_wf q" "reader_bits q = bs @ rest"
    by (rule readsE)
  from tail q(2,3) obtain r' where "scaling_list_loop n (if (last_scale + d) mod 256 \<noteq> 0
      then (last_scale + d) mod 256 else last_scale) ((last_scale + d) mod 256) q = Some ((), r')"
      "reader_wf r'" "reader_bits r' = rest"
    by (rule readsE)
  with q(1) assms(2-6) show "\<exists>r'. scaling_list_loop (Suc n) last_scale next_scale r = Some ((), r') \<and>
      reader_wf r' \<and> reader_bits r' = rest"
    by simp
qed

lemma reads_scaling_list:
  "0 \<le> last_scale \<Longrightarrow> last_scale < 256 \<Longrightarrow> scaling_ok n last_scale next_scale ds \<Longrightarrow>
     reads (scaling_list_loop n last_scale next_scale) (concat (map se_bits ds)) ()"
proof (induction n last_scale next_scale ds rule: scaling_ok.induct)
  case (1 last_scale next_scale ds)
  then show ?case by (simp add: reads_return)
next
  case (2 n last_scale next_scale ds)
  show ?case
  proof (cases "next_scale = 0")
    case True
    with 2 show ?thesis by simp
  next
    case False
    with 2(5) obtain d ds' where ds: "ds = d # ds'" "- 128 \<le> d" "d \<le> 127"
      by (auto split: list.splits)
    let ?s = "(last_scale + d) mod 256"
    have "reads (scaling_list_loop n (if ?s \<noteq> 0 then ?s else last_scale) ?s) (concat (map se_bits ds')) ()"
      using 2(2) [OF False ds(1) refl] 2(3-5) False ds by (auto simp: Let_def)
    from reads_scaling_step [OF this False ds(2,3) 2(3,4)] show ?thesis
      unfolding ds(1) by (simp only: list.map concat.simps)
  qed
qed

lemma reads_scaling_lists:
  "scaling_lists_ok index ls \<Longrightarrow>
     reads (scaling_lists_loop index (length ls)) (concat (map (opt_bits (\<lambda>ds. concat (map se_bits ds))) ls)) ()"
proof (induction index ls rule: scaling_lists_ok.induct)
  case (1 index)
  then show ?case by (simp add: reads_return)
next
  case (2 index ls)
  then show ?case
    by (simp only: length_Cons scaling_lists_loop.simps list.map concat.simps)
      (rule reads_opt, auto)
next
  case (3 index ds ls)
  then have "reads (skip_scaling_list (if index < 6 then 16 else 64)) (concat (map se_bits ds)) ()"
    unfolding skip_scaling_list_def by (auto intro: reads_scaling_list)
  with 3 show ?case
    by (simp only: length_Cons scaling_lists_loop.simps list.map concat.simps)
      (rule reads_opt, auto)
qed

lemma reads_if_skip: "reads (\<lambda>r. if b then skip 1 r else Some ((), r)) (if b then [c] else []) ()"
  using reads_skip [of "[c]" 1] reads_return [of "()"] by simp

lemma reads_high:
  assumes "high_ok y"
  shows "reads high_profile_fields (high_bits y) (hi_chroma y)"
proof -
  let ?lists = "\<lambda>ls. concat (map (opt_bits (\<lambda>ds. concat (map se_bits ds))) ls)"
  have scal: "reads (scaling_lists_loop 0 (if hi_chroma y = 3 then 12 else 8)) (?lists ls) ()"
    if "hi_scaling y = Some ls" for ls
    using reads_scaling_lists [of 0 ls] assms that by (simp add: high_ok_def)
  have ue: "reads read_ue (ue_bits (hi_chroma y)) (hi_chroma y)"
    "reads read_ue (ue_bits (hi_depth_luma y)) (hi_depth_luma y)"
    "reads read_ue (ue_bits (hi_depth_chroma y)) (hi_depth_chroma y)"
    using assms by (auto simp: high_ok_def intro!: reads_ue)
  have "reads (\<lambda>r. Option.bind (skip 1 r) (\<lambda>(_, r). Option.bind (read_bits 1 r) (\<lambda>(present, r).
      Option.bind (if present = 1 then scaling_lists_loop 0 (if hi_chroma y = 3 then 12 else 8) r else Some ((), r))
        (\<lambda>(_, r). Some (hi_chroma y, r))))) ([hi_bypass y] @ opt_bits ?lists (hi_scaling y) @ []) (hi_chroma y)"
    by (rule reads_bind, rule reads_skip, simp, rule reads_opt) (erule scal, rule reads_return)
  then have inner: "reads (\<lambda>r. Option.bind (if hi_chroma y = 3 then skip 1 r else Some ((), r)) (\<lambda>(_, r).
      Option.bind (read_ue r) (\<lambda>(luma, r). Option.bind (read_ue r) (\<lambda>(chroma, r).
        if luma > 8 \<or> chroma > 8 then None
        else Option.bind (skip 1 r) (\<lambda>(_, r). Option.bind (read_bits 1 r) (\<lambda>(present, r).
          Option.bind (if present = 1 then scaling_lists_loop 0 (if hi_chroma y = 3 then 12 else 8) r else Some ((), r))
            (\<lambda>(_, r). Some (hi_chroma y, r))))))))
      ((if hi_chroma y = 3 then [hi_separate_planes y] else []) @ ue_bits (hi_depth_luma y) @
        ue_bits (hi_depth_chroma y) @ [hi_bypass y] @ opt_bits ?lists (hi_scaling y)) (hi_chroma y)"
    using assms
    by (intro reads_bind [OF reads_if_skip] reads_bind [OF ue(2)] reads_bind [OF ue(3)]) (auto simp: high_ok_def)
  then show ?thesis
    unfolding high_profile_fields_def high_bits_def
    by (intro reads_bind [OF ue(1)]) (use assms in \<open>simp add: high_ok_def\<close>)
qed

lemma reads_poc: "poc_ok poc \<Longrightarrow> reads pic_order_cnt_fields (poc_bits poc) ()"
proof (cases poc)
  case (Poc_Lsb n)
  assume ok: "poc_ok poc"
  have "reads (\<lambda>r. Option.bind (read_ue r) (\<lambda>(_, r). Some ((), r))) (ue_bits n @ []) ()"
    by (rule reads_bind, rule reads_ue) (use ok Poc_Lsb in \<open>auto simp: ue_ok_def reads_return\<close>)
  then show ?thesis
    unfolding pic_order_cnt_fields_def Poc_Lsb poc_bits.simps
    by (intro reads_bind [OF reads_ue]) simp_all
next
  case (Poc_Cycle zero a b offsets)
  assume ok: "poc_ok poc"
  have ue: "length offsets \<le> 2 ^ 32 - 2" using ok Poc_Cycle by simp
  have se: "reads read_se (se_bits v) v" if "v \<in> set (a # b # offsets)" for v
    using ok Poc_Cycle that by (auto simp: se_ok_def list_all_iff intro!: reads_se)
  have offs: "reads (take_n read_se (length offsets)) (concat (map se_bits offsets)) offsets"
    using se by (intro reads_take_n) auto
  have "reads (\<lambda>r. Option.bind (take_n read_se (length offsets) r) (\<lambda>(_, r). Some ((), r)))
      (concat (map se_bits offsets) @ []) ()"
    by (rule reads_bind [OF offs]) (rule reads_return)
  then have "reads (\<lambda>r. Option.bind (skip 1 r) (\<lambda>(_, r). Option.bind (read_se r) (\<lambda>(_, r). Option.bind (read_se r) (\<lambda>(_, r).
      Option.bind (read_ue r) (\<lambda>(cycle, r). if cycle > 255 then None
        else Option.bind (take_n read_se cycle r) (\<lambda>(_, r). Some ((), r)))))))
      ([zero] @ se_bits a @ se_bits b @ ue_bits (length offsets) @ concat (map se_bits offsets)) ()"
    using ok Poc_Cycle
    by (intro reads_bind [OF reads_skip] reads_bind [OF se [of a]] reads_bind [OF se [of b]] reads_bind [OF reads_ue [OF ue]])
      auto
  then show ?thesis
    unfolding pic_order_cnt_fields_def Poc_Cycle poc_bits.simps
    by (intro reads_bind [OF reads_ue]) simp_all
next
  case Poc_Output_Order
  have "reads (\<lambda>r. if (2 :: nat) = 0 then None else if (2 :: nat) = 1 then None else if (2 :: nat) = 2 then Some ((), r) else None) [] ()"
    by (simp add: reads_return)
  from reads_bind [OF reads_ue [of 2], of _ "[]" "()"] show ?thesis
    unfolding pic_order_cnt_fields_def Poc_Output_Order poc_bits.simps
    by (simp add: reads_return)
qed

lemma reads_crop:
  assumes "pred_option (\<lambda>(l, r, t, b). ue_ok l \<and> ue_ok r \<and> ue_ok t \<and> ue_ok b) crop"
  shows "reads crop_fields (opt_bits (\<lambda>(l, r, t, b). ue_bits l @ ue_bits r @ ue_bits t @ ue_bits b) crop)
    (case crop of None \<Rightarrow> (0, 0, 0, 0) | Some c \<Rightarrow> c)"
proof (cases crop)
  case None
  have "reads crop_fields ([False] @ []) (0, 0, 0, 0)"
    unfolding crop_fields_def by (intro reads_bind [OF reads_flag [of False]]) (simp add: reads_return)
  then show ?thesis by (simp add: None opt_bits_def)
next
  case (Some c)
  obtain l r t b where c: "c = (l, r, t, b)" by (cases c)
  have ue: "reads read_ue (ue_bits v) v" if "v \<in> {l, r, t, b}" for v
    using assms Some c that by (auto simp: ue_ok_def intro!: reads_ue)
  have "reads (\<lambda>r. Option.bind (read_ue r) (\<lambda>(l, r). Option.bind (read_ue r) (\<lambda>(ri, r). Option.bind (read_ue r) (\<lambda>(t, r).
      Option.bind (read_ue r) (\<lambda>(b, r). Some ((l, ri, t, b), r))))))
      (ue_bits l @ ue_bits r @ ue_bits t @ ue_bits b @ []) (l, r, t, b)"
    by (intro reads_bind [OF ue [of l]] reads_bind [OF ue [of r]] reads_bind [OF ue [of t]] reads_bind [OF ue [of b]] reads_return)
      auto
  then have "reads crop_fields ([True] @ ue_bits l @ ue_bits r @ ue_bits t @ ue_bits b) (l, r, t, b)"
    unfolding crop_fields_def by (intro reads_bind [OF reads_flag [of True]]) simp
  then show ?thesis by (simp add: Some c opt_bits_def)
qed

definition timing_of :: "vui_syntax \<Rightarrow> (nat \<times> nat) option" where
  "timing_of y = (case vui_timing y of
     Some (units, scale) \<Rightarrow> if units > 0 \<and> scale > 0 then Some (scale, units) else None
   | None \<Rightarrow> None)"

lemma reads_aspect:
  assumes "idc < 2 ^ 8" and "length sar = (if idc = 255 then 32 else 0)"
  shows "reads (\<lambda>r. Option.bind (read_bits 8 r) (\<lambda>(idc, r). if idc = 255 then skip 32 r else Some ((), r)))
    (nat_bits 8 idc @ sar) ()"
proof (rule reads_bind [OF reads_bits])
  show "reads (\<lambda>r. if idc = 255 then skip 32 r else Some ((), r)) sar ()"
    using assms(2) by (cases "idc = 255") (auto simp: reads_return intro: reads_skip)
qed (use assms in simp_all)

lemma reads_signal:
  assumes "length fmt = 4" and "pred_option (\<lambda>c. length c = 24) colour"
  shows "reads (\<lambda>r. Option.bind (skip 4 r) (\<lambda>(_, r). Option.bind (read_bits 1 r) (\<lambda>(colour, r).
      if colour = 1 then skip 24 r else Some ((), r)))) (fmt @ opt_bits (\<lambda>c. c) colour) ()"
proof (rule reads_bind [OF reads_skip [OF assms(1)]])
  show "reads (\<lambda>r. Option.bind (read_bits 1 r) (\<lambda>(colour, r). if colour = 1 then skip 24 r else Some ((), r)))
      (opt_bits (\<lambda>c. c) colour) ()"
  proof (cases colour)
    case None
    have "reads (\<lambda>r. Option.bind (read_bits 1 r) (\<lambda>(colour, r). if colour = 1 then skip 24 r else Some ((), r)))
        ([False] @ []) ()"
      by (intro reads_bind [OF reads_flag [of False]]) (simp add: reads_return)
    then show ?thesis by (simp add: None opt_bits_def)
  next
    case (Some c)
    have "reads (\<lambda>r. Option.bind (read_bits 1 r) (\<lambda>(colour, r). if colour = 1 then skip 24 r else Some ((), r)))
        ([True] @ c) ()"
      by (intro reads_bind [OF reads_flag [of True]]) (use assms(2) Some in \<open>auto intro: reads_skip\<close>)
    then show ?thesis by (simp add: Some opt_bits_def)
  qed
qed

lemma reads_chroma_loc:
  assumes "ue_ok t" and "ue_ok b"
  shows "reads (\<lambda>r. Option.bind (read_ue r) (\<lambda>(_, r). Option.bind (read_ue r) (\<lambda>(_, r). Some ((), r))))
    (ue_bits t @ ue_bits b) ()"
proof -
  have "reads (\<lambda>r. Option.bind (read_ue r) (\<lambda>(_, r). Option.bind (read_ue r) (\<lambda>(_, r). Some ((), r))))
    (ue_bits t @ ue_bits b @ []) ()"
    by (intro reads_bind [OF reads_ue [of t]] reads_bind [OF reads_ue [of b]])
      (use assms in \<open>auto simp: ue_ok_def reads_return\<close>)
  then show ?thesis by simp
qed

lemma reads_timing:
  assumes "pred_option (\<lambda>(units, scale). units < 2 ^ 32 \<and> scale < 2 ^ 32) (vui_timing y)"
  shows "reads (\<lambda>r. Option.bind (read_bits 1 r) (\<lambda>(timing, r). if timing = 0 then Some (None, r)
      else Option.bind (read_bits 32 r) (\<lambda>(units, r). Option.bind (read_bits 32 r) (\<lambda>(scale, r).
        Some (if units > 0 \<and> scale > 0 then Some (scale, units) else None, r)))))
    (opt_bits (\<lambda>(units, scale). nat_bits 32 units @ nat_bits 32 scale) (vui_timing y)) (timing_of y)"
    (is "reads ?d _ _")
proof (cases "vui_timing y")
  case None
  have "reads ?d ([False] @ []) None"
    by (intro reads_bind [OF reads_flag [of False]]) (simp add: reads_return)
  then show ?thesis by (simp add: None opt_bits_def timing_of_def)
next
  case (Some p)
  obtain units scale where p: "p = (units, scale)" by (cases p)
  have "reads (\<lambda>r. Option.bind (read_bits 32 r) (\<lambda>(units, r). Option.bind (read_bits 32 r) (\<lambda>(scale, r).
        Some (if units > 0 \<and> scale > 0 then Some (scale, units) else None, r))))
      (nat_bits 32 units @ nat_bits 32 scale @ []) (if units > 0 \<and> scale > 0 then Some (scale, units) else None)"
    by (intro reads_bind [OF reads_bits [of 32 units]] reads_bind [OF reads_bits [of 32 scale]] reads_return)
      (use assms Some p in auto)
  then have "reads ?d ([True] @ nat_bits 32 units @ nat_bits 32 scale)
      (if units > 0 \<and> scale > 0 then Some (scale, units) else None)"
    by (intro reads_bind [OF reads_flag [of True]]) simp
  then show ?thesis by (simp add: Some p opt_bits_def timing_of_def)
qed

lemma reads_vui:
  assumes "vui_ok y"
  shows "reads vui_frame_rate (vui_bits y) (timing_of y)"
  unfolding vui_frame_rate_def vui_bits_def
proof (rule reads_opt)
  fix a assume "vui_aspect y = Some a"
  then show "reads (\<lambda>r. Option.bind (read_bits 8 r) (\<lambda>(idc, r). if idc = 255 then skip 32 r else Some ((), r)))
      (case a of (idc, sar) \<Rightarrow> nat_bits 8 idc @ sar) ()"
    using assms by (auto simp: vui_ok_def intro!: reads_aspect split: prod.splits)
next
  show "reads (\<lambda>r. Option.bind (read_bits 1 r) (\<lambda>(overscan, r).
      Option.bind (if overscan = 1 then skip 1 r else Some ((), r)) (\<lambda>(_, r).
      Option.bind (read_bits 1 r) (\<lambda>(signal, r).
      Option.bind (if signal = 1 then Option.bind (skip 4 r) (\<lambda>(_, r). Option.bind (read_bits 1 r) (\<lambda>(colour, r).
          if colour = 1 then skip 24 r else Some ((), r))) else Some ((), r)) (\<lambda>(_, r).
      Option.bind (read_bits 1 r) (\<lambda>(chroma_loc, r).
      Option.bind (if chroma_loc = 1 then Option.bind (read_ue r) (\<lambda>(_, r). Option.bind (read_ue r) (\<lambda>(_, r). Some ((), r)))
          else Some ((), r)) (\<lambda>(_, r).
      Option.bind (read_bits 1 r) (\<lambda>(timing, r). if timing = 0 then Some (None, r)
        else Option.bind (read_bits 32 r) (\<lambda>(units, r). Option.bind (read_bits 32 r) (\<lambda>(scale, r).
          Some (if units > 0 \<and> scale > 0 then Some (scale, units) else None, r)))))))))))
      (opt_bits (\<lambda>b. [b]) (vui_overscan y) @
        opt_bits (\<lambda>(format, colour). format @ opt_bits (\<lambda>c. c) colour) (vui_signal y) @
        opt_bits (\<lambda>(top, bottom). ue_bits top @ ue_bits bottom) (vui_chroma_loc y) @
        opt_bits (\<lambda>(units, scale). nat_bits 32 units @ nat_bits 32 scale) (vui_timing y)) (timing_of y)"
    using assms
    by (intro reads_opt reads_timing)
      (auto simp: vui_ok_def simp del: One_nat_def intro!: reads_signal reads_chroma_loc reads_skip split: prod.splits)
qed

subsection \<open>The whole parameter set\<close>

definition sx_chroma :: "sps_syntax \<Rightarrow> nat" where
  "sx_chroma y = (if sx_profile y \<in> set HIGH_PROFILES then hi_chroma (sx_high y) else 1)"

text \<open>
  The picture size of the standard: macroblocks of 16 samples, map units of a field-coded set
  covering two rows, less the crop offsets in units of the chroma subsampling and, vertically, of
  the field factor. Over the integers, so that an offset larger than the picture is a negative size.
\<close>

fun crop_units :: "nat \<Rightarrow> bool \<Rightarrow> int \<times> int" where
  "crop_units chroma frame_mbs_only =
     (let (x, y) = (if chroma = 1 then (2, 2) else if chroma = 2 then (2, 1) else (1, 1))
      in (x, y * (if frame_mbs_only then 1 else 2)))"

definition sx_size :: "sps_syntax \<Rightarrow> (nat \<times> nat) option" where
  "sx_size y =
     (let (l, r, t, b) = (case sx_crop y of None \<Rightarrow> (0, 0, 0, 0) | Some c \<Rightarrow> c);
          (unit_x, unit_y) = crop_units (sx_chroma y) (sx_frame_mbs_only y);
          width = 16 * (int (sx_width y) + 1) - unit_x * (int l + int r);
          height = 16 * (if sx_frame_mbs_only y then 1 else 2) * (int (sx_height y) + 1) - unit_y * (int t + int b)
      in if 0 < width \<and> width < 2 ^ 32 \<and> 0 < height \<and> height < 2 ^ 32 then Some (nat width, nat height) else None)"

lemma cropped_int:
  assumes "a < 2 ^ 32" "b < 2 ^ 32" "unit \<le> 4"
  shows "cropped full a b unit =
    (let v = int full - int unit * (int a + int b) in if 0 < v \<and> v < 2 ^ 32 then Some (nat v) else None)"
proof -
  have "(a + b) * unit \<le> 2 ^ 33 * 4" using assms by (intro mult_mono) simp_all
  then have "(a + b) * unit \<le> u64_MAX" by (simp add: u64_MAX_def)
  then have crop: "checked_le u64_MAX ((a + b) * unit) = Some ((a + b) * unit)" by (simp add: checked_le_def)
  have int: "int unit * (int a + int b) = int ((a + b) * unit)" by (simp add: algebra_simps)
  have "Option.bind (if c \<le> full then Some (full - c) else None) (\<lambda>v. if v \<le> u32_MAX \<and> v > 0 then Some v else None) =
      (if 0 < int full - int c \<and> int full - int c < 2 ^ 32 then Some (nat (int full - int c)) else None)" for c
    by (auto simp: u32_MAX_def)
  then show ?thesis unfolding cropped_def crop Option.bind.bind_lunit int checked_sub_def Let_def .
qed

lemma picture_size_int:
  assumes "sps_ok y"
  shows "picture_size (sx_chroma y) (sx_width y) (sx_height y) (of_bool (sx_frame_mbs_only y))
     (case sx_crop y of None \<Rightarrow> (0, 0, 0, 0) | Some c \<Rightarrow> c) = sx_size y"
proof -
  obtain l r t b where c: "(case sx_crop y of None \<Rightarrow> (0, 0, 0, 0) | Some c \<Rightarrow> c) = (l, r, t, b)" by (metis prod_cases4)
  have bounds: "l < 2 ^ 32" "r < 2 ^ 32" "t < 2 ^ 32" "b < 2 ^ 32" "sx_height y < 2 ^ 32"
    using assms c by (auto simp: sps_ok_def ue_ok_def split: option.splits)
  let ?f = "if sx_frame_mbs_only y then 1 else (2 :: nat)"
  have "(sx_height y + 1) * ?f * 16 \<le> u64_MAX" using bounds(5) by (simp add: u64_MAX_def)
  then have full: "checked_le u64_MAX ((sx_height y + 1) * ?f * 16) = Some ((sx_height y + 1) * ?f * 16)"
    by (simp only: checked_le_def if_True)
  have factor: "checked_sub 2 (of_bool (sx_frame_mbs_only y)) = Some ?f" by (simp add: checked_sub_def)
  have units: "(if sx_chroma y = 1 then 2 else (1 :: nat)) * ?f \<le> 4" "(if sx_chroma y = 1 \<or> sx_chroma y = 2 then 2 else (1 :: nat)) \<le> 4"
    by simp_all
  show ?thesis
    unfolding picture_size_def c prod.case factor Option.bind.bind_lunit full sx_size_def Let_def
      cropped_int [OF bounds(1,2) units(2)] cropped_int [OF bounds(3,4) units(1)]
    by (cases "sx_frame_mbs_only y"; cases "sx_chroma y = 1"; cases "sx_chroma y = 2") (auto simp: algebra_simps)
qed

definition sx_timing :: "sps_syntax \<Rightarrow> (nat \<times> nat) option" where
  "sx_timing y = (case sx_vui y of None \<Rightarrow> None | Some v \<Rightarrow> timing_of v)"

lemma reads_chroma:
  assumes "high_ok (sx_high y)"
  shows "reads (\<lambda>r. if sx_profile y \<in> set HIGH_PROFILES then high_profile_fields r else Some (1, r))
    (if sx_profile y \<in> set HIGH_PROFILES then high_bits (sx_high y) else []) (sx_chroma y)"
  using reads_high [OF assms] by (simp add: sx_chroma_def reads_return)

lemma reads_vui_flag:
  assumes "pred_option vui_ok (sx_vui y)" and "reader_wf r" and "reader_bits r = opt_bits vui_bits (sx_vui y) @ rest"
  shows "Option.bind (read_bits 1 r) (\<lambda>(vui, r).
      Option.bind (if vui = 1 then vui_frame_rate r else Some (None, r)) (\<lambda>(timing, r). Some (g timing))) = Some (g (sx_timing y))"
proof (cases "sx_vui y")
  case None
  show ?thesis
    by (rule bind_reads [OF reads_flag [of False] assms(2)])
      (use assms(3) None in \<open>auto simp: opt_bits_def sx_timing_def\<close>)
next
  case (Some v)
  have v: "reads vui_frame_rate (vui_bits v) (timing_of v)"
    using assms(1) Some by (simp add: reads_vui)
  show ?thesis
  proof (rule bind_reads [OF reads_flag [of True] assms(2)])
    show "reader_bits r = [True] @ (vui_bits v @ rest)" using assms(3) Some by (simp add: opt_bits_def)
    fix q assume q: "reader_wf q" "reader_bits q = vui_bits v @ rest"
    show "Option.bind (if of_bool True = (1 :: nat) then vui_frame_rate q else Some (None, q)) (\<lambda>(timing, r). Some (g timing))
        = Some (g (sx_timing y))"
      using bind_reads [OF v q, of "\<lambda>timing r. Some (g timing)"] by (simp add: Some sx_timing_def)
  qed
qed

text \<open>
  C7. The probe reads every encoded parameter set: from the NAL unit payload of any set whose
  syntax elements are in range it answers the profile, the level, the cropped picture size and
  the timing fields, and it refuses exactly those whose cropped size is empty or too large.
\<close>

theorem parse_h264_sps_encoded:
  assumes ok: "sps_ok y" and payload: "rbsp payload = [sx_profile y, sx_constraints y, sx_level y] @ body"
    and body: "bytes_bits body = sps_bits y @ trailing"
  shows "parse_h264_sps payload = map_option (\<lambda>(width, height).
      \<lparr>profile_idc = sx_profile y, level_idc = sx_level y, sps_width = width, sps_height = height,
       sps_timing = sx_timing y\<rparr>) (sx_size y)"
proof -
  have split: "split_at_checked 3 (rbsp payload) = Some ([sx_profile y, sx_constraints y, sx_level y], body)"
    unfolding payload by (simp add: split_at_checked_def)
  have ue: "reads read_ue (ue_bits v) v" if "v \<in> {sx_id y, sx_log2_frame_num y, sx_ref_frames y, sx_width y, sx_height y}" for v
    using ok that by (auto simp: sps_ok_def ue_ok_def intro!: reads_ue)
  have parts: "high_ok (sx_high y)" "poc_ok (sx_poc y)" "pred_option vui_ok (sx_vui y)"
      "pred_option (\<lambda>(l, r, t, b). ue_ok l \<and> ue_ok r \<and> ue_ok t \<and> ue_ok b) (sx_crop y)"
    using ok by (auto simp: sps_ok_def)
  have adaptive: "reads (\<lambda>r. if of_bool (sx_frame_mbs_only y) = (0 :: nat) then skip 1 r else Some ((), r))
      (if sx_frame_mbs_only y then [] else [sx_mb_adaptive y]) ()"
    using reads_if_skip [of "\<not> sx_frame_mbs_only y" "sx_mb_adaptive y"] by (cases "sx_frame_mbs_only y") simp_all
  note chain = bind_reads [OF ue [of "sx_id y"]] bind_reads [OF reads_chroma [OF parts(1)]]
    bind_reads [OF ue [of "sx_log2_frame_num y"]] bind_reads [OF reads_poc [OF parts(2)]]
    bind_reads [OF ue [of "sx_ref_frames y"]] bind_reads [OF reads_skip [of "[sx_gaps y]" 1]]
    bind_reads [OF ue [of "sx_width y"]] bind_reads [OF ue [of "sx_height y"]]
    bind_reads [OF reads_flag [of "sx_frame_mbs_only y"]] bind_reads [OF adaptive]
    bind_reads [OF reads_skip [of "[sx_direct y]" 1]] bind_reads [OF reads_crop [OF parts(4)]]
  note bits = body [folded reader_bits_new, unfolded sps_bits_def append_assoc]
  show ?thesis
    unfolding parse_h264_sps_def split Option.bind.bind_lunit prod.case Let_def nth_Cons_0
    by (rule chain(1), simp, rule reader_wf_new, rule bits,
        rule chain(2), assumption, assumption,
        rule chain(3), simp, assumption, assumption,
        rule chain(4), assumption, assumption,
        rule chain(5), simp, assumption, assumption,
        rule chain(6), simp, assumption, assumption,
        rule chain(7), simp, assumption, assumption,
        rule chain(8), simp, assumption, assumption,
        rule chain(9), assumption, assumption,
        rule chain(10), assumption, assumption,
        rule chain(11), simp, assumption, assumption,
        rule chain(12), assumption, assumption)
      (cases "sx_size y"; auto simp: picture_size_int [OF ok] intro!: reads_vui_flag [OF parts(3)] simp del: One_nat_def)
qed

definition sample_sps :: sps_syntax where
  "sample_sps =
     \<lparr>sx_profile = 66, sx_constraints = 0, sx_level = 31, sx_id = 0,
      sx_high = \<lparr>hi_chroma = 1, hi_separate_planes = False, hi_depth_luma = 0, hi_depth_chroma = 0,
        hi_bypass = False, hi_scaling = None\<rparr>,
      sx_log2_frame_num = 0, sx_poc = Poc_Output_Order, sx_ref_frames = 1, sx_gaps = False,
      sx_width = 79, sx_height = 44, sx_frame_mbs_only = True, sx_mb_adaptive = False,
      sx_direct = True, sx_crop = None, sx_vui = None\<rparr>"

theorem parse_h264_sps_encoded_witness:
  "parse_h264_sps [66, 0, 31, 218, 1, 64, 22, 228] =
     Some \<lparr>profile_idc = 66, level_idc = 31, sps_width = 1280, sps_height = 720, sps_timing = None\<rparr>"
proof -
  have "sps_ok sample_sps"
    by (simp add: sps_ok_def sample_sps_def ue_ok_def high_ok_def)
  moreover have "rbsp [66, 0, 31, 218, 1, 64, 22, 228] = [sx_profile sample_sps, sx_constraints sample_sps, sx_level sample_sps] @ [218, 1, 64, 22, 228]"
    by (simp add: rbsp_def sample_sps_def saturating_add_def)
  moreover have "bytes_bits [218, 1, 64, 22, 228] = sps_bits sample_sps @ [True, False, False]"
    by code_simp
  ultimately have "parse_h264_sps [66, 0, 31, 218, 1, 64, 22, 228] = map_option (\<lambda>(width, height).
      \<lparr>profile_idc = sx_profile sample_sps, level_idc = sx_level sample_sps, sps_width = width, sps_height = height,
       sps_timing = sx_timing sample_sps\<rparr>) (sx_size sample_sps)"
    by (rule parse_h264_sps_encoded)
  then show ?thesis
    by (simp add: sample_sps_def sx_size_def sx_chroma_def sx_timing_def HIGH_PROFILES_def)
qed

end
