(* ===== verification/Aac.thy ===== *)
theory Aac
  imports Restream_Prelude
begin

text \<open>
  AAC framing (\<open>codec/aac.rs\<close>) and the ADTS fields of an fMP4 track (\<open>AdtsConfig\<close> of
  \<open>ingest_publisher/fmp4.rs\<close>): building ADTS headers and AudioSpecificConfigs, walking the ADTS
  frames of a payload, and stripping the headers again. A \<open>u32\<close> rate or channel count is a
  natural number; header fields are bytes, whose shifts truncate as in the source.
\<close>

subsection \<open>Sampling frequencies\<close>

definition AAC_SAMPLE_RATES :: "nat list" where
  "AAC_SAMPLE_RATES =
     [96000, 88200, 64000, 48000, 44100, 32000, 24000, 22050, 16000, 12000, 11025, 8000, 7350]"

text \<open>The index a \<open>position\<close> search finds, from \<open>i\<close> on.\<close>

fun position_from :: "('a \<Rightarrow> bool) \<Rightarrow> nat \<Rightarrow> 'a list \<Rightarrow> nat option" where
  "position_from P i [] = None"
| "position_from P i (x # xs) = (if P x then Some i else position_from P (Suc i) xs)"

definition aac_frequency_index :: "nat \<Rightarrow> u8 option" where
  "aac_frequency_index sample_rate = do {
     index \<leftarrow> position_from (\<lambda>rate. rate = sample_rate) 0 AAC_SAMPLE_RATES;
     index \<leftarrow> checked_le 255 index;
     Some (of_nat index)
   }"

definition frequency_index_or_48k :: "nat \<Rightarrow> u8" where
  "frequency_index_or_48k sample_rate = case_option 3 id (aac_frequency_index sample_rate)"

subsection \<open>AudioSpecificConfig\<close>

definition build_aac_sequence_header :: "nat \<Rightarrow> nat \<Rightarrow> bytes" where
  "build_aac_sequence_header sample_rate channels =
     (let freq_idx = frequency_index_or_48k sample_rate;
          chan_cfg = of_nat (min channels 7) :: u8;
          audio_object_type = 2 :: u8;
          asc_byte0 = push_bit 3 audio_object_type OR drop_bit 1 freq_idx;
          asc_byte1 = push_bit 7 (freq_idx AND 0x01) OR push_bit 3 chan_cfg
      in [0xAF, 0x00] @ [asc_byte0, asc_byte1])"

subsection \<open>ADTS headers\<close>

definition MAX_ADTS_PAYLOAD :: nat where
  "MAX_ADTS_PAYLOAD = 0x1FFF - 7"

definition build_adts_header_for :: "nat \<Rightarrow> u8 \<Rightarrow> u8 \<Rightarrow> u8 \<Rightarrow> bytes option" where
  "build_adts_header_for frame_len object_type freq_idx chan_cfg =
     (if \<not> (1 \<le> object_type \<and> object_type \<le> 4) \<or> freq_idx > 12 \<or> chan_cfg > 7 then None
      else do {
        let profile = (if object_type = 0 then 0 else object_type - 1);
        len \<leftarrow> checked_le 0xFFFF frame_len;
        len \<leftarrow> checked_le 0xFFFF (len + 7);
        total_len \<leftarrow> checked_le 0x1FFF len;
        let len_high = (of_nat (total_len div 256) :: u8);
        let len_low = (of_nat total_len :: u8);
        Some [0xFF, 0xF1,
          push_bit 6 profile OR push_bit 2 freq_idx OR drop_bit 2 chan_cfg,
          push_bit 6 (chan_cfg AND 0x03) OR (drop_bit 3 len_high AND 0x03),
          push_bit 5 len_high OR drop_bit 3 len_low,
          push_bit 5 (len_low AND 0x07) OR 0x1F,
          0xFC]
      })"

definition build_adts_header :: "nat \<Rightarrow> nat \<Rightarrow> nat \<Rightarrow> bytes option" where
  "build_adts_header frame_len sample_rate channels =
     build_adts_header_for frame_len 2 (frequency_index_or_48k sample_rate) (of_nat (min channels 7))"

definition has_adts_sync :: "bytes \<Rightarrow> bool" where
  "has_adts_sync data =
     (case data of first # second # _ \<Rightarrow> first = 0xFF \<and> second AND 0xF0 = 0xF0 | _ \<Rightarrow> False)"

subsection \<open>Walking the frames of a payload\<close>

text \<open>
  One call of the iterator at \<open>offset\<close>: the frame's span and the next offset. The source's
  saturating addition of the offset cannot saturate, since the frame ends inside the slice.
\<close>

definition adts_next :: "bytes \<Rightarrow> nat \<Rightarrow> ((nat \<times> nat) \<times> nat) option" where
  "adts_next data offset = do {
     rest \<leftarrow> slice_from offset data;
     (chunk, _) \<leftarrow> split_first_chunk 7 rest;
     if chunk ! 0 \<noteq> 0xFF then None
     else if chunk ! 1 AND 0xF0 \<noteq> 0xF0 then None
     else do {
       let frame_len = push_bit 11 (unat (chunk ! 3 AND 0x03)) OR push_bit 3 (unat (chunk ! 4))
             OR drop_bit 5 (unat (chunk ! 5 AND 0xE0));
       if frame_len < 7 \<or> length rest < frame_len then None
       else Some ((offset, offset + frame_len), offset + frame_len)
     }
   }"

lemma adts_next_progress:
  assumes "adts_next data offset = Some (span, offset')"
  shows "offset < offset' \<and> offset' \<le> length data \<and> span = (offset, offset') \<and> offset + 7 \<le> offset'"
proof -
  from assms have "offset' \<le> length data"
    by (auto simp: adts_next_def bind_eq_Some_conv slice_from_def Let_def split: if_splits)
  moreover from assms have "offset + 7 \<le> offset' \<and> span = (offset, offset')"
    by (auto simp: adts_next_def bind_eq_Some_conv slice_from_def Let_def split: if_splits)
  ultimately show ?thesis by linarith
qed

function adts_ranges_from :: "bytes \<Rightarrow> nat \<Rightarrow> (nat \<times> nat) list" where
  "adts_ranges_from data offset =
     (case adts_next data offset of
        None \<Rightarrow> []
      | Some (span, offset') \<Rightarrow> span # adts_ranges_from data offset')"
  by pat_completeness auto
termination
proof (relation "measure (\<lambda>(data, offset). length data - offset)")
  fix data offset x2 span offset'
  assume "adts_next data offset = Some x2" "(span, offset') = x2"
  then show "((data, offset'), (data, offset)) \<in> measure (\<lambda>(data, offset). length data - offset)"
    using adts_next_progress [of data offset span offset'] by auto
qed simp

declare adts_ranges_from.simps [simp del]

definition adts_frame_ranges :: "bytes \<Rightarrow> (nat \<times> nat) list" where
  "adts_frame_ranges data = adts_ranges_from data 0"

definition adts_frame_count :: "bytes \<Rightarrow> nat" where
  "adts_frame_count data = length (adts_frame_ranges data)"

definition adts_sample_rate :: "bytes \<Rightarrow> nat option" where
  "adts_sample_rate data = do {
     (chunk, _) \<leftarrow> split_first_chunk 3 data;
     if chunk ! 0 \<noteq> 0xFF \<or> chunk ! 1 AND 0xF0 \<noteq> 0xF0 then None
     else list_get AAC_SAMPLE_RATES (unat (drop_bit 2 (chunk ! 2) AND 0x0F))
   }"

text \<open>Appends to \<open>out\<close>; \<open>None\<close> leaves it alone.\<close>

definition prepend_adts_into :: "bytes \<Rightarrow> nat \<Rightarrow> nat \<Rightarrow> bytes \<Rightarrow> bytes option" where
  "prepend_adts_into raw_aac sample_rate channels out = do {
     adts \<leftarrow> build_adts_header (length raw_aac) sample_rate channels;
     Some (out @ adts @ raw_aac)
   }"

definition strip_adts :: "bytes \<Rightarrow> bytes" where
  "strip_adts data =
     (if 7 \<le> length data \<and> data ! 0 = 0xFF \<and> data ! 1 AND 0xF0 = 0xF0 then
        (let hdr_len = (if data ! 1 AND 0x01 = 1 then 7 else 9)
         in if length data > hdr_len then case_option data id (slice_from hdr_len data) else data)
      else data)"

definition audio_for_rtmp_into :: "bytes \<Rightarrow> bytes" where
  "audio_for_rtmp_into payload = [0xAF, 0x01] @ strip_adts payload"

subsection \<open>The ADTS fields of an AudioSpecificConfig\<close>

datatype media_rejection = Unsupported string | Malformed string | TooLarge string

record adts_config =
  object_type :: u8
  freq_index :: u8
  channel_config :: u8

definition show_u8 :: "u8 \<Rightarrow> string" where
  "show_u8 b = show_nat (unat b)"

definition from_audio_specific_config :: "bytes \<Rightarrow> media_rejection + adts_config" where
  "from_audio_specific_config asc =
     (case asc of
        b0 # b1 # _ \<Rightarrow>
          (let object_type = drop_bit 3 b0;
               freq_index = push_bit 1 (b0 AND 0x07) OR drop_bit 7 b1;
               channel_config = drop_bit 3 b1 AND 0x0F
           in if \<not> (1 \<le> object_type \<and> object_type \<le> 4) then
                Inl (Unsupported (''AAC audio object type '' @ show_u8 object_type @ '' cannot be carried as ADTS''))
              else if freq_index = 0x0F then
                Inl (Unsupported ''AAC with an explicit sampling frequency cannot be carried as ADTS'')
              else if unat freq_index \<ge> length AAC_SAMPLE_RATES then
                Inl (Malformed (''AAC sampling frequency index '' @ show_u8 freq_index @ '' is reserved''))
              else if \<not> (1 \<le> channel_config \<and> channel_config \<le> 7) then
                Inl (Unsupported (''AAC channel configuration '' @ show_u8 channel_config @ '' is not supported''))
              else Inr \<lparr>object_type = object_type, freq_index = freq_index, channel_config = channel_config\<rparr>)
      | _ \<Rightarrow> Inl (Malformed ''AudioSpecificConfig is shorter than 2 bytes''))"

definition adts_header :: "adts_config \<Rightarrow> nat \<Rightarrow> bytes option" where
  "adts_header c frame_len =
     build_adts_header_for frame_len (object_type c) (freq_index c) (channel_config c)"

definition adts_config_sample_rate :: "adts_config \<Rightarrow> nat" where
  "adts_config_sample_rate c = case_option 0 id (list_get AAC_SAMPLE_RATES (unat (freq_index c)))"

definition adts_config_channels :: "adts_config \<Rightarrow> nat" where
  "adts_config_channels c = (if channel_config c = 7 then 8 else unat (channel_config c))"

definition adts_config_profile :: "adts_config \<Rightarrow> string" where
  "adts_config_profile c =
     (if object_type c = 1 then ''Main'' else if object_type c = 2 then ''LC''
      else if object_type c = 3 then ''SSR'' else ''LTP/Reserved'')"

subsection \<open>The header fields\<close>

text \<open>The thirteen length bits that the header spreads over three bytes.\<close>

lemma adts_length_high:
  "unat ((push_bit 6 (c AND 3) OR (drop_bit 3 (of_nat (drop_bit 8 n)) AND 3) :: u8) AND 3) = take_bit 2 (drop_bit 11 n)"
proof -
  have m: "(3 :: u8) = mask 2" by (simp add: mask_eq_exp_minus_1)
  show ?thesis unfolding m by (rule bit_eqI) (auto simp: bit_simps less_2_cases_iff)
qed

lemma adts_length_mid:
  "unat (push_bit 5 (of_nat (drop_bit 8 n)) OR drop_bit 3 (of_nat n) :: u8) = take_bit 8 (drop_bit 3 n)"
  by (rule bit_eqI) (auto simp: bit_simps)

lemma adts_length_low:
  "drop_bit 5 (unat ((push_bit 5 (of_nat n AND 7) OR 0x1F :: u8) AND 0xE0)) = take_bit 3 n"
proof -
  have m: "(7 :: u8) = mask 3" "(0x1F :: u8) = mask 5" "(0xE0 :: u8) = push_bit 5 (mask 3)"
    by (simp_all add: mask_eq_exp_minus_1)
  show ?thesis unfolding m by (rule bit_eqI) (auto simp: bit_simps)
qed

lemma adts_length_bits:
  assumes "n \<le> 0x1FFF"
  shows "push_bit 11 (unat ((push_bit 6 (c AND 3) OR (drop_bit 3 (of_nat (n div 256)) AND 3) :: u8) AND 3))
     OR push_bit 3 (unat (push_bit 5 (of_nat (n div 256)) OR drop_bit 3 (of_nat n) :: u8))
     OR drop_bit 5 (unat ((push_bit 5 (of_nat n AND 7) OR 0x1F :: u8) AND 0xE0)) = n" (is "?l = n")
proof -
  have d: "n div 256 = drop_bit 8 n" by (simp add: drop_bit_eq_div)
  have n: "take_bit 13 n = n" using assms by (simp add: take_bit_nat_eq_self_iff)
  have "?l = take_bit 13 n" unfolding d adts_length_high adts_length_mid adts_length_low
  proof (rule bit_eqI)
    fix i :: nat
    consider "i < 3" | "3 \<le> i" "i < 11" | "11 \<le> i" by linarith
    then show "bit (push_bit 11 (take_bit 2 (drop_bit 11 n)) OR push_bit 3 (take_bit 8 (drop_bit 3 n)) OR take_bit 3 n) i
        = bit (take_bit 13 n) i"
      by cases (auto simp: bit_simps)
  qed
  with n show ?thesis by simp
qed

lemma frequency_index_bound: "frequency_index_or_48k sample_rate \<le> 12"
  by (simp add: frequency_index_or_48k_def aac_frequency_index_def AAC_SAMPLE_RATES_def checked_le_def)

lemma channels_bound: "of_nat (min channels 7) \<le> (7 :: u8)"
proof -
  have "min channels 7 \<in> {0,1,2,3,4,5,6,7}" by (auto simp: min_def)
  then show ?thesis by auto
qed

text \<open>The configurations ADTS can carry, and a whole frame.\<close>

definition adts_ok :: "adts_config \<Rightarrow> bool" where
  "adts_ok c \<longleftrightarrow> 1 \<le> object_type c \<and> object_type c \<le> 4 \<and> freq_index c \<le> 12 \<and> channel_config c \<le> 7"

definition adts_frame :: "adts_config \<times> bytes \<Rightarrow> bytes" where
  "adts_frame f = (case adts_header (fst f) (length (snd f)) of None \<Rightarrow> [] | Some h \<Rightarrow> h @ snd f)"

lemma adts_header_None_iff:
  "adts_header c len = None \<longleftrightarrow> \<not> (adts_ok c \<and> len \<le> MAX_ADTS_PAYLOAD)"
  by (auto simp: adts_header_def build_adts_header_for_def adts_ok_def MAX_ADTS_PAYLOAD_def
      checked_le_def bind_eq_None_conv Let_def not_le)

lemma adts_next_header:
  assumes "adts_header c len = Some h" and "length raw = len"
  shows "adts_next (h @ raw @ rest) 0 = Some ((0, 7 + len), 7 + len) \<and> length h = 7 \<and> h ! 0 = 0xFF \<and> h ! 1 = 0xF1"
proof -
  from assms(1) have len: "len + 7 \<le> 0x1FFF"
    and h: "h = [0xFF, 0xF1, h ! 2,
          push_bit 6 (channel_config c AND 0x03) OR (drop_bit 3 (of_nat ((len + 7) div 256)) AND 0x03),
          push_bit 5 (of_nat ((len + 7) div 256)) OR drop_bit 3 (of_nat (len + 7)),
          push_bit 5 (of_nat (len + 7) AND 0x07) OR 0x1F, 0xFC]"
    by (auto simp: adts_header_def build_adts_header_for_def checked_le_def Let_def split: if_splits)
  obtain x where h': "h = [0xFF, 0xF1, x,
          push_bit 6 (channel_config c AND 0x03) OR (drop_bit 3 (of_nat ((len + 7) div 256)) AND 0x03),
          push_bit 5 (of_nat ((len + 7) div 256)) OR drop_bit 3 (of_nat (len + 7)),
          push_bit 5 (of_nat (len + 7) AND 0x07) OR 0x1F, 0xFC]" using h by blast
  have "split_at_checked 7 (h @ raw @ rest) = Some (h, raw @ rest)"
    by (simp add: h' split_at_checked_def)
  then have "adts_next (h @ raw @ rest) 0 = Some ((0, 7 + len), 7 + len)"
    using adts_length_bits [OF len, of "channel_config c"] assms(2)
    by (simp add: adts_next_def slice_from_def h' Let_def del: of_nat_add)
  then show ?thesis by (simp add: h')
qed

subsection \<open>Frames of a payload\<close>

definition shift_span :: "nat \<Rightarrow> nat \<times> nat \<Rightarrow> nat \<times> nat" where
  "shift_span n s = (n + fst s, n + snd s)"

definition span_of :: "'a list \<Rightarrow> nat \<times> nat \<Rightarrow> 'a list" where
  "span_of data s = take (snd s - fst s) (drop (fst s) data)"

lemma span_of_shift [simp]: "span_of (pre @ data) (shift_span (length pre) s) = span_of data s"
  by (simp add: shift_span_def span_of_def)

lemma adts_next_shift:
  "adts_next (pre @ data) (length pre + offset) =
     map_option (\<lambda>(s, o'). (shift_span (length pre) s, length pre + o')) (adts_next data offset)"
proof -
  have "slice_from (length pre + offset) (pre @ data) = slice_from offset data"
    by (simp add: slice_from_def)
  then show ?thesis
    by (auto simp: adts_next_def shift_span_def Let_def split_beta split: bind_splits)
qed

lemma adts_ranges_shift:
  "adts_ranges_from (pre @ data) (length pre + offset) =
     map (shift_span (length pre)) (adts_ranges_from data offset)"
proof (induction data offset rule: adts_ranges_from.induct)
  case (1 data offset)
  show ?case
  proof (cases "adts_next data offset")
    case None
    then show ?thesis
      by (subst (1 2) adts_ranges_from.simps) (simp add: adts_next_shift)
  next
    case (Some r)
    obtain s o' where r: "r = (s, o')" by (cases r)
    from 1 [OF Some r [symmetric]] Some show ?thesis
      by (subst (1 2) adts_ranges_from.simps) (simp add: adts_next_shift r)
  qed
qed

lemma adts_ranges_step:
  assumes "adts_next (f @ rest) 0 = Some ((0, length f), length f)"
  shows "adts_frame_ranges (f @ rest) = (0, length f) # map (shift_span (length f)) (adts_frame_ranges rest)"
  using adts_ranges_shift [of f rest 0]
  by (simp add: adts_frame_ranges_def adts_ranges_from.simps [of _ 0] assms)

lemma adts_frame_header:
  assumes "adts_ok (fst f)" and "length (snd f) \<le> MAX_ADTS_PAYLOAD"
  obtains h where "adts_frame f = h @ snd f" and "length h = 7" and "h ! 0 = 0xFF" and "h ! 1 = 0xF1"
    and "\<And>rest. adts_next (adts_frame f @ rest) 0 = Some ((0, length (adts_frame f)), length (adts_frame f))"
proof -
  obtain h where h: "adts_header (fst f) (length (snd f)) = Some h"
    using assms adts_header_None_iff [of "fst f" "length (snd f)"] by fastforce
  have f: "adts_frame f = h @ snd f" by (simp add: adts_frame_def h)
  show ?thesis
    using adts_next_header [OF h refl] by (intro that [of h]) (simp_all add: f)
qed

lemma strip_adts_frame:
  assumes "adts_ok (fst f)" and "length (snd f) \<le> MAX_ADTS_PAYLOAD" and "snd f \<noteq> []"
  shows "strip_adts (adts_frame f) = snd f"
proof -
  obtain h where h: "adts_frame f = h @ snd f" "length h = 7" "h ! 0 = 0xFF" "h ! 1 = 0xF1"
    by (rule adts_frame_header [OF assms(1,2)])
  then have "length h < length (adts_frame f)" using assms(3) by simp
  with h show ?thesis
    by (simp add: strip_adts_def nth_append slice_from_def)
qed

lemma adts_frames_ranges:
  assumes "list_all (\<lambda>f. adts_ok (fst f) \<and> length (snd f) \<le> MAX_ADTS_PAYLOAD) frames"
    and "adts_next tail 0 = None"
  shows "map (span_of (concat (map adts_frame frames) @ tail)) (adts_frame_ranges (concat (map adts_frame frames) @ tail))
    = map adts_frame frames"
  using assms(1)
proof (induction frames)
  case Nil
  then show ?case by (simp add: adts_frame_ranges_def adts_ranges_from.simps assms(2))
next
  case (Cons f frames)
  from Cons.prems have f: "adts_ok (fst f)" "length (snd f) \<le> MAX_ADTS_PAYLOAD" by simp_all
  have "adts_next (adts_frame f @ rest) 0 = Some ((0, length (adts_frame f)), length (adts_frame f))" for rest
    by (rule adts_frame_header [OF f]) blast
  moreover have "span_of (adts_frame f @ rest) (0, length (adts_frame f)) = adts_frame f" for rest
    by (simp add: span_of_def)
  ultimately show ?case using Cons by (simp add: adts_ranges_step comp_def)
qed

text \<open>
  C32. A payload of ADTS frames, possibly cut short at the end, yields exactly the complete
  frames in order, and stripping each gives back its raw AAC data.
\<close>

theorem adts_frames_roundtrip:
  assumes "list_all (\<lambda>f. adts_ok (fst f) \<and> length (snd f) \<le> MAX_ADTS_PAYLOAD \<and> snd f \<noteq> []) frames"
    and "adts_next tail 0 = None"
    and "data = concat (map adts_frame frames) @ tail"
  shows "map (\<lambda>(a, b). strip_adts (take (b - a) (drop a data))) (adts_frame_ranges data) = map snd frames \<and>
    adts_frame_count data = length frames"
proof -
  have spans: "map (span_of data) (adts_frame_ranges data) = map adts_frame frames"
    unfolding assms(3) using assms(1) by (intro adts_frames_ranges assms(2)) (auto simp: list_all_iff)
  have count: "adts_frame_count data = length frames"
    using map_eq_imp_length_eq [OF spans] by (simp add: adts_frame_count_def)
  have "map (strip_adts \<circ> span_of data) (adts_frame_ranges data) = map (strip_adts \<circ> adts_frame) frames"
    using arg_cong [OF spans, of "map strip_adts"] by (simp only: map_map)
  also have "\<dots> = map snd frames"
    using assms(1) by (auto simp: list_all_iff strip_adts_frame)
  finally show ?thesis
    using count by (simp add: comp_def case_prod_unfold span_of_def)
qed

theorem adts_frames_roundtrip_witness:
  "let data = concat (map adts_frame
      [(\<lparr>object_type = 2, freq_index = 3, channel_config = 2\<rparr>, [0x21, 0x10]),
       (\<lparr>object_type = 2, freq_index = 4, channel_config = 1\<rparr>, [0x21])]) @ [0xFF, 0xF1, 0x50]
   in map (\<lambda>(a, b). strip_adts (take (b - a) (drop a data))) (adts_frame_ranges data) = [[0x21, 0x10], [0x21]]
     \<and> adts_frame_count data = 2"
proof -
  let ?frames = "[(\<lparr>object_type = 2, freq_index = 3, channel_config = 2\<rparr>, [0x21, 0x10]),
       (\<lparr>object_type = 2, freq_index = 4, channel_config = 1\<rparr>, [0x21])] :: (adts_config \<times> bytes) list"
  have "list_all (\<lambda>f. adts_ok (fst f) \<and> length (snd f) \<le> MAX_ADTS_PAYLOAD \<and> snd f \<noteq> []) ?frames"
    by (simp add: adts_ok_def MAX_ADTS_PAYLOAD_def)
  moreover have "adts_next [0xFF, 0xF1, 0x50] 0 = None"
    by (simp add: adts_next_def slice_from_def split_at_checked_def)
  ultimately show ?thesis
    unfolding Let_def using adts_frames_roundtrip [OF _ _ refl, of ?frames "[0xFF, 0xF1, 0x50]"] by simp
qed

lemma frequency_index_rate:
  "case_option 0 id (list_get AAC_SAMPLE_RATES (unat (frequency_index_or_48k sample_rate))) =
     (if sample_rate \<in> set AAC_SAMPLE_RATES then sample_rate else 48000)"
  by (auto simp: frequency_index_or_48k_def aac_frequency_index_def AAC_SAMPLE_RATES_def checked_le_def list_get_def)

text \<open>Every pair of header fields that \<open>build_aac_sequence_header\<close> writes.\<close>

lemma asc_bits:
  assumes "freq_idx \<le> 12" and "chan_cfg \<le> (7 :: u8)"
  shows "drop_bit 3 (push_bit 3 2 OR drop_bit 1 freq_idx) = 2 \<and>
    push_bit 1 ((push_bit 3 2 OR drop_bit 1 freq_idx) AND 7) OR
      drop_bit 7 (push_bit 7 (freq_idx AND 0x01) OR push_bit 3 chan_cfg) = freq_idx \<and>
    drop_bit 3 (push_bit 7 (freq_idx AND 0x01) OR push_bit 3 chan_cfg) AND 0x0F = chan_cfg" (is "?P freq_idx chan_cfg")
proof -
  have all: "list_all (\<lambda>i. list_all (\<lambda>j. ?P (of_nat i) (of_nat j)) [0..<8]) [0..<13]"
    by code_simp
  have "unat freq_idx \<in> set [0..<13]" "unat chan_cfg \<in> set [0..<8]"
    using assms by (auto simp: word_le_nat_alt)
  with all have "?P (of_nat (unat freq_idx)) (of_nat (unat chan_cfg))"
    unfolding list_all_iff by blast
  then show ?thesis by simp
qed

lemma asc_fields:
  assumes "freq_idx \<le> 12" and "chan_cfg \<le> (7 :: u8)"
  shows "from_audio_specific_config [push_bit 3 2 OR drop_bit 1 freq_idx,
      push_bit 7 (freq_idx AND 0x01) OR push_bit 3 chan_cfg] =
    (if chan_cfg = 0 then Inl (Unsupported ''AAC channel configuration 0 is not supported'')
     else Inr \<lparr>object_type = 2, freq_index = freq_idx, channel_config = chan_cfg\<rparr>)"
proof -
  have "freq_idx \<noteq> 0x0F" using assms(1) by auto
  moreover have "unat freq_idx < length AAC_SAMPLE_RATES"
    using assms(1) by (simp add: AAC_SAMPLE_RATES_def word_le_nat_alt)
  moreover have "1 \<le> chan_cfg \<longleftrightarrow> chan_cfg \<noteq> 0" by (simp add: word_le_nat_alt unat_gt_0 Suc_le_eq)
  moreover have "show_u8 0 = ''0''" by code_simp
  moreover note bits = conjunct1 [OF asc_bits [OF assms]] conjunct2 [OF asc_bits [OF assms]]
  ultimately show ?thesis
    unfolding from_audio_specific_config_def list.case Let_def bits(1) conjunct1 [OF bits(2)] conjunct2 [OF bits(2)]
    using assms(2) by simp
qed

text \<open>
  C33. The synthesised AudioSpecificConfig reads back as AAC-LC with the listed sampling rate
  (48 kHz for any other) and at most seven channels, and the ADTS headers built from the fields
  read back are the ones built from the rate and channel count. Without channels the reader
  refuses it.
\<close>

theorem aac_sequence_header_roundtrip:
  "from_audio_specific_config (drop 2 (build_aac_sequence_header sample_rate channels)) =
     (if channels = 0 then Inl (Unsupported ''AAC channel configuration 0 is not supported'')
      else Inr \<lparr>object_type = 2, freq_index = frequency_index_or_48k sample_rate, channel_config = of_nat (min channels 7)\<rparr>)
   \<and> adts_header \<lparr>object_type = 2, freq_index = frequency_index_or_48k sample_rate, channel_config = of_nat (min channels 7)\<rparr>
       frame_len = build_adts_header frame_len sample_rate channels
   \<and> adts_config_sample_rate \<lparr>object_type = 2, freq_index = frequency_index_or_48k sample_rate, channel_config = of_nat (min channels 7)\<rparr>
       = (if sample_rate \<in> set AAC_SAMPLE_RATES then sample_rate else 48000)"
proof (intro conjI)
  have "of_nat (min channels 7) = (0 :: u8) \<longleftrightarrow> channels = 0"
    by (auto simp: word_of_nat_eq_0_iff min_def dest: dvd_imp_le)
  with asc_fields [OF frequency_index_bound channels_bound, of sample_rate channels]
  show "from_audio_specific_config (drop 2 (build_aac_sequence_header sample_rate channels)) =
     (if channels = 0 then Inl (Unsupported ''AAC channel configuration 0 is not supported'')
      else Inr \<lparr>object_type = 2, freq_index = frequency_index_or_48k sample_rate, channel_config = of_nat (min channels 7)\<rparr>)"
    by (simp add: build_aac_sequence_header_def Let_def)
qed (simp_all add: adts_header_def build_adts_header_def adts_config_sample_rate_def frequency_index_rate)

end
