(* ===== verification/Hevc_Sps.thy ===== *)
theory Hevc_Sps
  imports Bit_Reader
begin

text \<open>
  The probe of an H.265 sequence parameter set (\<open>parse_hevc_profile_tier_level\<close> of
  \<open>codec/enhanced_rtmp_hevc.rs\<close>): profile, tier, level, picture size and bit depths. \<open>u8\<close> fields
  are bytes, \<open>u32\<close> and \<open>u64\<close> fields natural numbers with their saturation written out. The encoder's
  side of the syntax is given as bit strings, and the probe reads all of them.
\<close>

subsection \<open>Profile, tier and level\<close>

record hevc_profile_tier_level =
  hv_profile_space :: u8
  hv_tier_flag :: bool
  hv_profile_idc :: u8
  hv_profile_compatibility_flags :: nat
  hv_constraint_indicator_flags :: nat
  hv_level_idc :: u8
  hv_width :: nat
  hv_height :: nat
  hv_max_sub_layers_minus1 :: u8
  hv_temporal_id_nested :: bool
  hv_chroma_format_idc :: u8
  hv_bit_depth_luma_minus8 :: u8
  hv_bit_depth_chroma_minus8 :: u8

text \<open>A field that must fit a byte: \<open>u8::try_from(...).ok()?\<close>.\<close>

definition as_u8 :: "(bit_reader \<Rightarrow> (nat \<times> bit_reader) option) \<Rightarrow> bit_reader \<Rightarrow> (u8 \<times> bit_reader) option" where
  "as_u8 read r = do {
     (v, r) \<leftarrow> read r;
     v \<leftarrow> checked_le 255 v;
     Some (of_nat v, r)
   }"

definition sub_layer_present :: "bit_reader \<Rightarrow> ((bool \<times> bool) \<times> bit_reader) option" where
  "sub_layer_present r = do {
     (profile_present, r) \<leftarrow> read_bits 1 r;
     (level_present, r) \<leftarrow> read_bits 1 r;
     Some ((profile_present = 1, level_present = 1), r)
   }"

definition skip_sub_layer_profile :: "bit_reader \<Rightarrow> (unit \<times> bit_reader) option" where
  "skip_sub_layer_profile r = do {
     (_, r) \<leftarrow> read_bits 2 r;
     (_, r) \<leftarrow> read_bits 1 r;
     (_, r) \<leftarrow> read_bits 5 r;
     (_, r) \<leftarrow> read_bits 32 r;
     (_, r) \<leftarrow> read_bits 1 r;
     (_, r) \<leftarrow> read_bits 1 r;
     (_, r) \<leftarrow> read_bits 1 r;
     (_, r) \<leftarrow> read_bits 1 r;
     skip 44 r
   }"

fun sub_layers_loop :: "(bool \<times> bool) list \<Rightarrow> bit_reader \<Rightarrow> (unit \<times> bit_reader) option" where
  "sub_layers_loop [] r = Some ((), r)"
| "sub_layers_loop ((profile_present, level_present) # present) r = do {
     (_, r) \<leftarrow> (if profile_present then skip_sub_layer_profile r else Some ((), r));
     (_, r) \<leftarrow> (if level_present then do { (_, r) \<leftarrow> read_bits 8 r; Some ((), r) } else Some ((), r));
     sub_layers_loop present r
   }"

text \<open>The presence flags live in an array of seven entries.\<close>

definition skip_hevc_sub_layer_profile_tier_level :: "u8 \<Rightarrow> bit_reader \<Rightarrow> (unit \<times> bit_reader) option" where
  "skip_hevc_sub_layer_profile_tier_level max_sub_layers_minus1 r = do {
     let sub_layers = unat max_sub_layers_minus1;
     (present, r) \<leftarrow> take_n sub_layer_present (min 7 sub_layers) r;
     (_, r) \<leftarrow> (if sub_layers > 0 then take_n (read_bits 2) (8 - sub_layers) r else Some ([], r));
     sub_layers_loop present r
   }"

text \<open>The picture size and depth fields, from the sequence parameter set id on.\<close>

definition conformance_window :: "bit_reader \<Rightarrow> ((nat \<times> nat) \<times> bit_reader) option" where
  "conformance_window r = do {
     (flag, r) \<leftarrow> read_bits 1 r;
     if flag = 1 then do {
       (left, r) \<leftarrow> read_ue r;
       (right, r) \<leftarrow> read_ue r;
       (top, r) \<leftarrow> read_ue r;
       (bottom, r) \<leftarrow> read_ue r;
       Some ((saturating_add u32_MAX left right, saturating_add u32_MAX top bottom), r)
     } else Some ((0, 0), r)
   }"

definition windowed :: "u8 \<Rightarrow> nat \<Rightarrow> nat \<Rightarrow> nat \<times> nat \<Rightarrow> nat \<times> nat" where
  "windowed chroma_format_idc pic_width pic_height = (\<lambda>(crop_x, crop_y).
     let sub_width = (if chroma_format_idc \<in> {1, 2} then 2 else 1);
         sub_height = (if chroma_format_idc = 1 then 2 else 1)
     in (pic_width - saturating_mul u32_MAX crop_x sub_width,
         pic_height - saturating_mul u32_MAX crop_y sub_height))"

definition parse_hevc_profile_tier_level :: "bytes \<Rightarrow> hevc_profile_tier_level option" where
  "parse_hevc_profile_tier_level sps = do {
     payload \<leftarrow> slice_from 2 sps;
     if payload = [] then None else do {
     let r = BitReader_new (rbsp payload);
     (_, r) \<leftarrow> read_bits 4 r;
     (max_sub_layers_minus1, r) \<leftarrow> as_u8 (read_bits 3) r;
     (temporal_id_nested, r) \<leftarrow> read_bits 1 r;
     (profile_space, r) \<leftarrow> as_u8 (read_bits 2) r;
     (tier_flag, r) \<leftarrow> read_bits 1 r;
     (profile_idc, r) \<leftarrow> as_u8 (read_bits 5) r;
     (profile_compatibility_flags, r) \<leftarrow> read_bits 32 r;
     (constraint_high, r) \<leftarrow> read_bits 16 r;
     (constraint_low, r) \<leftarrow> read_bits 32 r;
     (level_idc, r) \<leftarrow> as_u8 (read_bits 8) r;
     (_, r) \<leftarrow> skip_hevc_sub_layer_profile_tier_level max_sub_layers_minus1 r;
     (_, r) \<leftarrow> read_ue r;
     (chroma_format_idc, r) \<leftarrow> as_u8 read_ue r;
     if chroma_format_idc > 3 then None else do {
     (_, r) \<leftarrow> (if chroma_format_idc = 3 then read_bits 1 r else Some (0, r));
     (pic_width, r) \<leftarrow> read_ue r;
     (pic_height, r) \<leftarrow> read_ue r;
     (crop, r) \<leftarrow> conformance_window r;
     let (width, height) = windowed chroma_format_idc pic_width pic_height crop;
     (bit_depth_luma_minus8, r) \<leftarrow> as_u8 read_ue r;
     (bit_depth_chroma_minus8, r) \<leftarrow> as_u8 read_ue r;
     if bit_depth_luma_minus8 > 7 \<or> bit_depth_chroma_minus8 > 7 then None
     else Some
       \<lparr>hv_profile_space = profile_space, hv_tier_flag = (tier_flag = 1), hv_profile_idc = profile_idc,
        hv_profile_compatibility_flags = profile_compatibility_flags,
        hv_constraint_indicator_flags = push_bit 32 constraint_high OR constraint_low,
        hv_level_idc = level_idc, hv_width = width, hv_height = height,
        hv_max_sub_layers_minus1 = max_sub_layers_minus1, hv_temporal_id_nested = (temporal_id_nested = 1),
        hv_chroma_format_idc = chroma_format_idc, hv_bit_depth_luma_minus8 = bit_depth_luma_minus8,
        hv_bit_depth_chroma_minus8 = bit_depth_chroma_minus8\<rparr>
     }}
   }"

subsection \<open>The encoder's side\<close>

text \<open>
  A sub-layer carries an optional profile (88 bits) and an optional level (8 bits), announced by
  two flags each before all of them.
\<close>

record hevc_sps_syntax =
  hx_vps_id :: nat
  hx_nested :: bool
  hx_space :: nat
  hx_tier :: bool
  hx_profile :: nat
  hx_compatibility :: nat
  hx_constraint_high :: nat
  hx_constraint_low :: nat
  hx_level :: nat
  hx_sub_layers :: "(bool list option \<times> bool list option) list"
  hx_id :: nat
  hx_chroma :: nat
  hx_separate :: bool
  hx_width :: nat
  hx_height :: nat
  hx_window :: "(nat \<times> nat \<times> nat \<times> nat) option"
  hx_depth_luma :: nat
  hx_depth_chroma :: nat

definition present_bits :: "bool \<times> bool \<Rightarrow> bool list" where
  "present_bits p = [fst p, snd p]"

definition sub_layer_bits :: "bool list option \<times> bool list option \<Rightarrow> bool list" where
  "sub_layer_bits l = case_option [] id (fst l) @ case_option [] id (snd l)"

definition sub_layers_bits :: "(bool list option \<times> bool list option) list \<Rightarrow> bool list" where
  "sub_layers_bits ls =
     concat (map present_bits (map (\<lambda>l. (fst l \<noteq> None, snd l \<noteq> None)) ls)) @
     (if ls \<noteq> [] then concat (map (nat_bits 2) (replicate (8 - length ls) 0)) else []) @
     concat (map sub_layer_bits ls)"

definition hevc_sps_bits :: "hevc_sps_syntax \<Rightarrow> bool list" where
  "hevc_sps_bits y =
     nat_bits 4 (hx_vps_id y) @ nat_bits 3 (length (hx_sub_layers y)) @ [hx_nested y] @
     nat_bits 2 (hx_space y) @ [hx_tier y] @ nat_bits 5 (hx_profile y) @
     nat_bits 32 (hx_compatibility y) @ nat_bits 16 (hx_constraint_high y) @ nat_bits 32 (hx_constraint_low y) @
     nat_bits 8 (hx_level y) @ sub_layers_bits (hx_sub_layers y) @
     ue_bits (hx_id y) @ ue_bits (hx_chroma y) @ (if hx_chroma y = 3 then [hx_separate y] else []) @
     ue_bits (hx_width y) @ ue_bits (hx_height y) @
     opt_bits (\<lambda>(l, r, t, b). ue_bits l @ ue_bits r @ ue_bits t @ ue_bits b) (hx_window y) @
     ue_bits (hx_depth_luma y) @ ue_bits (hx_depth_chroma y)"

definition ue_range :: "nat \<Rightarrow> bool" where
  "ue_range v \<longleftrightarrow> v \<le> 2 ^ 32 - 2"

definition hevc_sps_ok :: "hevc_sps_syntax \<Rightarrow> bool" where
  "hevc_sps_ok y \<longleftrightarrow>
     hx_vps_id y < 2 ^ 4 \<and> hx_space y < 2 ^ 2 \<and> hx_profile y < 2 ^ 5 \<and> hx_compatibility y < 2 ^ 32 \<and>
     hx_constraint_high y < 2 ^ 16 \<and> hx_constraint_low y < 2 ^ 32 \<and> hx_level y < 2 ^ 8 \<and>
     length (hx_sub_layers y) \<le> 7 \<and>
     list_all (\<lambda>l. pred_option (\<lambda>p. length p = 88) (fst l) \<and> pred_option (\<lambda>v. length v = 8) (snd l)) (hx_sub_layers y) \<and>
     ue_range (hx_id y) \<and> hx_chroma y \<le> 3 \<and> ue_range (hx_width y) \<and> ue_range (hx_height y) \<and>
     pred_option (\<lambda>(l, r, t, b). ue_range l \<and> ue_range r \<and> ue_range t \<and> ue_range b) (hx_window y) \<and>
     hx_depth_luma y \<le> 7 \<and> hx_depth_chroma y \<le> 7"

subsection \<open>Every part reads back\<close>

lemma reads_as_u8:
  assumes "reads d bs v" and "v \<le> 255"
  shows "reads (as_u8 d) bs (of_nat v)"
proof -
  have "reads (\<lambda>r. Option.bind (d r) (\<lambda>(v, r). Option.bind (checked_le 255 v) (\<lambda>v. Some (of_nat v :: u8, r)))) (bs @ []) (of_nat v)"
    by (rule reads_bind [OF assms(1)]) (use assms(2) in \<open>simp add: checked_le_def reads_return\<close>)
  then show ?thesis by (simp add: as_u8_def [abs_def])
qed

lemma reads_present: "reads sub_layer_present (present_bits p) p"
proof -
  have "reads (\<lambda>r. Option.bind (read_bits 1 r) (\<lambda>(a, r). Option.bind (read_bits 1 r) (\<lambda>(b, r). Some ((a = 1, b = 1), r))))
      ([fst p] @ [snd p] @ []) p"
    by (rule reads_bind [OF reads_flag], rule reads_bind [OF reads_flag]) (cases p; simp add: reads_return)
  then show ?thesis by (simp add: sub_layer_present_def [abs_def] present_bits_def)
qed

text \<open>Any string of the right length reads as some value of a fixed-width field.\<close>

lemma reads_any_bits:
  assumes "length bs = n" and "n \<le> 32"
  shows "reads (read_bits n) bs (bits_value bs)"
  using reads_bits [OF assms(2) bits_value_bound [of bs, unfolded assms(1)]] nat_bits_value [of bs] assms(1) by simp

lemma reads_bind_any:
  assumes "length bs = n" and "n \<le> 32" and "reads k cs b"
  shows "reads (\<lambda>r. Option.bind (read_bits n r) (\<lambda>(_, r). k r)) (bs @ cs) b"
  by (rule reads_bind [OF reads_any_bits [OF assms(1,2)]]) (rule assms(3))

lemma reads_sub_layer_profile:
  assumes "length p = 88"
  shows "reads skip_sub_layer_profile p ()"
proof -
  have split: "take n (drop m p) @ drop (n + m) p = drop m p" for n m
    using append_take_drop_id [of n "drop m p"] by (simp add: drop_drop)
  have p: "p = take 2 p @ take 1 (drop 2 p) @ take 5 (drop 3 p) @ take 32 (drop 8 p) @ take 1 (drop 40 p) @
      take 1 (drop 41 p) @ take 1 (drop 42 p) @ take 1 (drop 43 p) @ drop 44 p"
    using split [of 2 0] split [of 1 2] split [of 5 3] split [of 32 8] split [of 1 40] split [of 1 41]
      split [of 1 42] split [of 1 43] by (simp del: One_nat_def)
  show ?thesis
    unfolding skip_sub_layer_profile_def [abs_def]
    by (subst p, intro reads_bind_any reads_skip) (use assms in simp_all)
qed

lemma reads_sub_layers_loop:
  assumes "list_all (\<lambda>l. pred_option (\<lambda>p. length p = 88) (fst l) \<and> pred_option (\<lambda>v. length v = 8) (snd l)) ls"
  shows "reads (sub_layers_loop (map (\<lambda>l. (fst l \<noteq> None, snd l \<noteq> None)) ls)) (concat (map sub_layer_bits ls)) ()"
  using assms
proof (induction ls)
  case Nil
  then show ?case by (simp add: reads_return)
next
  case (Cons l ls)
  have p: "reads (\<lambda>r. if fst l \<noteq> None then skip_sub_layer_profile r else Some ((), r)) (case_option [] id (fst l)) ()"
    using Cons.prems by (auto simp: reads_return intro: reads_sub_layer_profile split: option.splits)
  have eight: "reads (\<lambda>r. Option.bind (read_bits 8 r) (\<lambda>(_, r). Some ((), r))) v ()" if "length v = 8" for v
    using reads_bind_any [OF that _ reads_return [of "()"]] by simp
  have v: "reads (\<lambda>r. if snd l \<noteq> None then Option.bind (read_bits 8 r) (\<lambda>(_, r). Some ((), r)) else Some ((), r))
      (case_option [] id (snd l)) ()"
    using Cons.prems by (auto simp: reads_return intro: eight split: option.splits)
  from Cons have tail: "reads (sub_layers_loop (map (\<lambda>l. (fst l \<noteq> None, snd l \<noteq> None)) ls)) (concat (map sub_layer_bits ls)) ()"
    by simp
  have "reads (\<lambda>r. Option.bind (if fst l \<noteq> None then skip_sub_layer_profile r else Some ((), r)) (\<lambda>(_, r).
      Option.bind (if snd l \<noteq> None then Option.bind (read_bits 8 r) (\<lambda>(_, r). Some ((), r)) else Some ((), r))
        (\<lambda>(_, r). sub_layers_loop (map (\<lambda>l. (fst l \<noteq> None, snd l \<noteq> None)) ls) r)))
      (case_option [] id (fst l) @ case_option [] id (snd l) @ concat (map sub_layer_bits ls)) ()"
    by (rule reads_bind [OF p], rule reads_bind [OF v], rule tail)
  then show ?case by (simp add: sub_layer_bits_def [of l] del: not_None_eq)
qed

lemma reads_sub_layers:
  assumes "length ls \<le> 7"
    and "list_all (\<lambda>l. pred_option (\<lambda>p. length p = 88) (fst l) \<and> pred_option (\<lambda>v. length v = 8) (snd l)) ls"
  shows "reads (skip_hevc_sub_layer_profile_tier_level (of_nat (length ls))) (sub_layers_bits ls) ()"
proof -
  let ?present = "map (\<lambda>l. (fst l \<noteq> None, snd l \<noteq> None)) ls"
  have len: "unat (of_nat (length ls) :: u8) = length ls" "min 7 (length ls) = length ls" using assms(1) by simp_all
  have present: "reads (take_n sub_layer_present (length ls)) (concat (map present_bits ?present)) ?present"
    by (intro reads_take_n reads_present) simp
  have "reads (take_n (read_bits 2) (8 - length ls)) (concat (map (nat_bits 2) (replicate (8 - length ls) 0))) (replicate (8 - length ls) 0)"
    by (intro reads_take_n reads_bits) simp_all
  then have reserved: "reads (\<lambda>r. if length ls > 0 then take_n (read_bits 2) (8 - length ls) r else Some ([], r))
      (if ls \<noteq> [] then concat (map (nat_bits 2) (replicate (8 - length ls) 0)) else [])
      (if ls \<noteq> [] then replicate (8 - length ls) 0 else [])"
    by (simp add: reads_return)
  show ?thesis
    unfolding skip_hevc_sub_layer_profile_tier_level_def [abs_def] Let_def len sub_layers_bits_def
    by (rule reads_bind [OF present], rule reads_bind [OF reserved], rule reads_sub_layers_loop [OF assms(2)])
qed

lemma reads_window:
  assumes "pred_option (\<lambda>(l, r, t, b). ue_range l \<and> ue_range r \<and> ue_range t \<and> ue_range b) w"
  shows "reads conformance_window (opt_bits (\<lambda>(l, r, t, b). ue_bits l @ ue_bits r @ ue_bits t @ ue_bits b) w)
    (case w of None \<Rightarrow> (0, 0) | Some (l, r, t, b) \<Rightarrow> (saturating_add u32_MAX l r, saturating_add u32_MAX t b))"
proof (cases w)
  case None
  have "reads conformance_window ([False] @ []) (0, 0)"
    unfolding conformance_window_def [abs_def] by (intro reads_bind [OF reads_flag [of False]]) (simp add: reads_return)
  then show ?thesis by (simp add: None opt_bits_def)
next
  case (Some c)
  obtain l r t b where c: "c = (l, r, t, b)" by (cases c)
  have ue: "reads read_ue (ue_bits v) v" if "v \<in> {l, r, t, b}" for v
    using assms Some c that by (auto simp: ue_range_def intro!: reads_ue)
  have "reads (\<lambda>r. Option.bind (read_ue r) (\<lambda>(l, r). Option.bind (read_ue r) (\<lambda>(ri, r). Option.bind (read_ue r) (\<lambda>(t, r).
      Option.bind (read_ue r) (\<lambda>(b, r). Some ((saturating_add u32_MAX l ri, saturating_add u32_MAX t b), r))))))
      (ue_bits l @ ue_bits r @ ue_bits t @ ue_bits b @ []) (saturating_add u32_MAX l r, saturating_add u32_MAX t b)"
    by (intro reads_bind [OF ue [of l]] reads_bind [OF ue [of r]] reads_bind [OF ue [of t]] reads_bind [OF ue [of b]] reads_return)
      auto
  then have "reads conformance_window ([True] @ ue_bits l @ ue_bits r @ ue_bits t @ ue_bits b)
      (saturating_add u32_MAX l r, saturating_add u32_MAX t b)"
    unfolding conformance_window_def [abs_def] by (intro reads_bind [OF reads_flag [of True]]) simp
  then show ?thesis by (simp add: Some c opt_bits_def)
qed

text \<open>The probe's answer for a parameter set.\<close>

definition hx_window_crop :: "hevc_sps_syntax \<Rightarrow> nat \<times> nat" where
  "hx_window_crop y = (case hx_window y of None \<Rightarrow> (0, 0)
     | Some (l, r, t, b) \<Rightarrow> (saturating_add u32_MAX l r, saturating_add u32_MAX t b))"

text \<open>
  The windowed size of the standard: the offsets count chroma samples, and a window larger than
  the picture leaves nothing.
\<close>

definition hx_size :: "hevc_sps_syntax \<Rightarrow> nat \<times> nat" where
  "hx_size y =
     (let (l, r, t, b) = (case hx_window y of None \<Rightarrow> (0, 0, 0, 0) | Some w \<Rightarrow> w);
          (unit_x, unit_y) = (if hx_chroma y = 1 then (2, 2) else if hx_chroma y = 2 then (2, 1) else (1, 1))
      in (hx_width y - unit_x * (l + r), hx_height y - unit_y * (t + b)))"

lemma saturated_crop:
  assumes "n \<le> u32_MAX"
  shows "n - saturating_mul u32_MAX (saturating_add u32_MAX a b) k = n - k * (a + b)"
proof -
  have sat: "n - min u32_MAX x = n - x" for x using assms by auto
  show ?thesis
  proof (cases "a + b \<le> u32_MAX \<or> k = 0")
    case True
    then show ?thesis
      by (auto simp: saturating_mul_def saturating_add_def sat mult.commute min.absorb2)
  next
    case False
    then have "u32_MAX \<le> u32_MAX * k" "u32_MAX \<le> k * (a + b)"
      by (auto intro: order_trans [of _ "a + b"])
    then have "n \<le> u32_MAX * k" "n \<le> k * (a + b)" using assms by (blast intro: le_trans)+
    then have "n - u32_MAX * k = 0" "n - k * (a + b) = 0" by (simp_all only: diff_is_0_eq)
    with False assms show ?thesis by (simp add: saturating_mul_def saturating_add_def sat min.absorb1)
  qed
qed

lemma windowed_size:
  assumes "hevc_sps_ok y"
  shows "windowed (of_nat (hx_chroma y)) (hx_width y) (hx_height y) (hx_window_crop y) = hx_size y"
proof -
  have size: "hx_width y \<le> u32_MAX" "hx_height y \<le> u32_MAX"
    using assms by (auto simp: hevc_sps_ok_def ue_range_def u32_MAX_def)
  have "hx_chroma y \<le> 3" using assms by (simp add: hevc_sps_ok_def)
  then have "hx_chroma y \<in> {0, 1, 2, 3}" by auto
  moreover have zero: "saturating_mul u32_MAX 0 k = 0" for k by (simp add: saturating_mul_def)
  ultimately show ?thesis
    by (auto simp: windowed_def hx_size_def hx_window_crop_def Let_def saturated_crop [OF size(1)] saturated_crop [OF size(2)] zero
        split: option.splits prod.splits)
qed

definition hx_answer :: "hevc_sps_syntax \<Rightarrow> hevc_profile_tier_level" where
  "hx_answer y =
     \<lparr>hv_profile_space = of_nat (hx_space y), hv_tier_flag = hx_tier y, hv_profile_idc = of_nat (hx_profile y),
      hv_profile_compatibility_flags = hx_compatibility y,
      hv_constraint_indicator_flags = push_bit 32 (hx_constraint_high y) OR hx_constraint_low y,
      hv_level_idc = of_nat (hx_level y),
      hv_width = fst (hx_size y),
      hv_height = snd (hx_size y),
      hv_max_sub_layers_minus1 = of_nat (length (hx_sub_layers y)), hv_temporal_id_nested = hx_nested y,
      hv_chroma_format_idc = of_nat (hx_chroma y), hv_bit_depth_luma_minus8 = of_nat (hx_depth_luma y),
      hv_bit_depth_chroma_minus8 = of_nat (hx_depth_chroma y)\<rparr>"

lemma of_nat_inject_u8: "m \<le> 255 \<Longrightarrow> n \<le> 255 \<Longrightarrow> (of_nat m :: u8) = of_nat n \<longleftrightarrow> m = n"
  by (simp add: word_unat_eq_iff)

lemma of_nat_u8_le: "n \<le> 255 \<Longrightarrow> (of_nat n :: u8) \<le> numeral k \<longleftrightarrow> n \<le> unat (numeral k :: u8)"
  by (simp add: word_le_nat_alt)

lemma parse_hevc_reads:
  assumes ok: "hevc_sps_ok y" and payload: "payload \<noteq> []"
    and bits: "bytes_bits (rbsp payload) = hevc_sps_bits y @ trailing"
  shows "parse_hevc_profile_tier_level (h0 # h1 # payload) = Some (hx_answer y)"
proof -
  have slice: "slice_from 2 (h0 # h1 # payload) = Some payload" by (simp add: slice_from_def)
  have ue: "reads read_ue (ue_bits v) v" if "v \<in> {hx_id y, hx_width y, hx_height y}" for v
    using ok that by (auto simp: hevc_sps_ok_def ue_range_def intro!: reads_ue)
  have small: "reads (as_u8 read_ue) (ue_bits v) (of_nat v)" if "v \<in> {hx_chroma y, hx_depth_luma y, hx_depth_chroma y}" for v
    using ok that by (auto simp: hevc_sps_ok_def intro!: reads_as_u8 reads_ue)
  have fields: "reads (read_bits 4) (nat_bits 4 (hx_vps_id y)) (hx_vps_id y)"
    "reads (read_bits 32) (nat_bits 32 (hx_compatibility y)) (hx_compatibility y)"
    "reads (read_bits 16) (nat_bits 16 (hx_constraint_high y)) (hx_constraint_high y)"
    "reads (read_bits 32) (nat_bits 32 (hx_constraint_low y)) (hx_constraint_low y)"
    using ok by (auto simp: hevc_sps_ok_def intro!: reads_bits)
  have bytes: "reads (as_u8 (read_bits 3)) (nat_bits 3 (length (hx_sub_layers y))) (of_nat (length (hx_sub_layers y)))"
    "reads (as_u8 (read_bits 2)) (nat_bits 2 (hx_space y)) (of_nat (hx_space y))"
    "reads (as_u8 (read_bits 5)) (nat_bits 5 (hx_profile y)) (of_nat (hx_profile y))"
    "reads (as_u8 (read_bits 8)) (nat_bits 8 (hx_level y)) (of_nat (hx_level y))"
    using ok by (auto simp: hevc_sps_ok_def intro!: reads_as_u8 reads_bits)
  have subs: "reads (skip_hevc_sub_layer_profile_tier_level (of_nat (length (hx_sub_layers y)))) (sub_layers_bits (hx_sub_layers y)) ()"
    using ok by (intro reads_sub_layers) (auto simp: hevc_sps_ok_def)
  have three: "(of_nat (hx_chroma y) :: u8) = 3 \<longleftrightarrow> hx_chroma y = 3"
    using ok of_nat_inject_u8 [of "hx_chroma y" 3] by (simp add: hevc_sps_ok_def)
  have sep: "reads (\<lambda>r. if (of_nat (hx_chroma y) :: u8) = 3 then read_bits 1 r else Some (0, r))
      (if hx_chroma y = 3 then [hx_separate y] else []) (if hx_chroma y = 3 then of_bool (hx_separate y) else 0)"
    using reads_flag [of "hx_separate y"] by (simp add: three reads_return)
  have window: "reads conformance_window (opt_bits (\<lambda>(l, r, t, b). ue_bits l @ ue_bits r @ ue_bits t @ ue_bits b) (hx_window y))
      (hx_window_crop y)"
    unfolding hx_window_crop_def using ok by (intro reads_window) (simp add: hevc_sps_ok_def)
  have guards: "\<not> (of_nat (hx_chroma y) :: u8) > 3" "\<not> ((of_nat (hx_depth_luma y) :: u8) > 7 \<or> (of_nat (hx_depth_chroma y) :: u8) > 7)"
    using ok by (auto simp: hevc_sps_ok_def of_nat_u8_le not_less)
  note chain = bind_reads [OF fields(1)] bind_reads [OF bytes(1)] bind_reads [OF reads_flag [of "hx_nested y"]]
    bind_reads [OF bytes(2)] bind_reads [OF reads_flag [of "hx_tier y"]] bind_reads [OF bytes(3)]
    bind_reads [OF fields(2)] bind_reads [OF fields(3)] bind_reads [OF fields(4)] bind_reads [OF bytes(4)]
    bind_reads [OF subs] bind_reads [OF ue [of "hx_id y"]] bind_reads [OF small [of "hx_chroma y"]]
    bind_reads [OF sep] bind_reads [OF ue [of "hx_width y"]] bind_reads [OF ue [of "hx_height y"]]
    bind_reads [OF window] bind_reads [OF small [of "hx_depth_luma y"]] bind_reads [OF small [of "hx_depth_chroma y"]]
  note bits' = bits [folded reader_bits_new, unfolded hevc_sps_bits_def append_assoc]
  show ?thesis
    unfolding parse_hevc_profile_tier_level_def slice Option.bind.bind_lunit if_not_P [OF payload] Let_def
    apply (rule chain(1), rule reader_wf_new, rule bits')
    apply (rule chain(2-11), assumption, assumption)+
    apply (rule chain(12,13), simp, assumption, assumption)+
    apply (simp only: if_not_P [OF guards(1)], rule chain(14), assumption, assumption)
    apply (rule chain(15,16), simp, assumption, assumption)+
    apply (rule chain(17), assumption, assumption, simp only: case_prod_unfold)
    apply (rule chain(18,19) [unfolded case_prod_unfold], simp, assumption, assumption)+
    apply (simp only: if_not_P [OF guards(2)], simp add: hx_answer_def windowed_size [OF ok])
    done
qed

text \<open>
  C14. The probe reads every encoded H.265 sequence parameter set: whatever sub-layers, chroma
  format and conformance window it carries, the profile, tier, level, flags, depths and windowed
  picture size are those of its syntax elements.
\<close>

theorem parse_hevc_encoded:
  assumes "hevc_sps_ok y" and "payload \<noteq> []"
    and "bytes_bits (rbsp payload) = hevc_sps_bits y @ trailing"
  shows "parse_hevc_profile_tier_level (h0 # h1 # payload) = Some (hx_answer y)"
  by (rule parse_hevc_reads [OF assms])

definition sample_hevc_sps :: hevc_sps_syntax where
  "sample_hevc_sps =
     \<lparr>hx_vps_id = 0, hx_nested = True, hx_space = 0, hx_tier = False, hx_profile = 1,
      hx_compatibility = 0x60111111, hx_constraint_high = 0x9011, hx_constraint_low = 0x11111111,
      hx_level = 93, hx_sub_layers = [], hx_id = 0, hx_chroma = 1, hx_separate = False,
      hx_width = 3, hx_height = 3, hx_window = None, hx_depth_luma = 0, hx_depth_chroma = 0\<rparr>"

definition sample_hevc_payload :: bytes where
  "sample_hevc_payload = [0x01, 0x01, 0x60, 0x11, 0x11, 0x11, 0x90, 0x11, 0x11, 0x11, 0x11, 0x11, 93, 0xA2, 0x11, 0x80]"

lemma nat_bits_numeral: "nat_bits (numeral k) v = nat_bits (pred_numeral k) (v div 2) @ [odd v]"
  by (simp add: numeral_eq_Suc)

lemma replicate_numeral: "replicate (numeral k) x = x # replicate (pred_numeral k) x"
  by (simp add: numeral_eq_Suc)

lemma sample_hevc:
  "hevc_sps_ok sample_hevc_sps" "sample_hevc_payload \<noteq> []"
  "bytes_bits (rbsp sample_hevc_payload) = hevc_sps_bits sample_hevc_sps @ replicate 7 False"
proof -
  show "hevc_sps_ok sample_hevc_sps" by (simp add: hevc_sps_ok_def sample_hevc_sps_def ue_range_def)
  have "rbsp sample_hevc_payload = sample_hevc_payload" by (simp add: rbsp_def sample_hevc_payload_def)
  moreover have ue: "ue_bits 0 = [True]" "ue_bits (Suc 0) = [False, True, False]" "ue_bits 3 = [False, False, True, False, False]"
    by code_simp+
  moreover have "bytes_bits sample_hevc_payload = hevc_sps_bits sample_hevc_sps @ replicate 7 False"
    by (simp add: hevc_sps_bits_def sample_hevc_sps_def sample_hevc_payload_def nat_bits_numeral ue
        byte_bits_def opt_bits_def sub_layers_bits_def replicate_numeral)
  ultimately show "bytes_bits (rbsp sample_hevc_payload) = hevc_sps_bits sample_hevc_sps @ replicate 7 False" by simp
qed (simp add: sample_hevc_payload_def)

theorem parse_hevc_encoded_witness:
  "parse_hevc_profile_tier_level (0x42 # 0x01 # sample_hevc_payload) = Some (hx_answer sample_hevc_sps) \<and>
    hv_level_idc (hx_answer sample_hevc_sps) = 93 \<and> hv_width (hx_answer sample_hevc_sps) = 3"
  using parse_hevc_encoded [OF sample_hevc, of "0x42" "0x01"]
  by (simp add: hx_answer_def sample_hevc_sps_def hx_size_def)

end
