(* ===== verification/Hevc.thy ===== *)
theory Hevc
  imports Avcc Hevc_Sps
begin

text \<open>
  HEVC over enhanced RTMP (\<open>codec/enhanced_rtmp_hevc.rs\<close>): the tag header, the decoder
  configuration record, and the conversion of Annex B payloads to length-prefixed ones. \<open>u8\<close> fields are bytes; the wider
  fields are natural numbers whose saturation is written out.
\<close>

subsection \<open>Enhanced RTMP video tags\<close>

definition EX_SEQUENCE_START :: u8 where
  "EX_SEQUENCE_START = 0"

definition EX_CODED_FRAMES :: u8 where
  "EX_CODED_FRAMES = 1"

definition EX_CODED_FRAMES_X :: u8 where
  "EX_CODED_FRAMES_X = 3"

definition hvc1 :: bytes where
  "hvc1 = [0x68, 0x76, 0x63, 0x31]"

definition avc1 :: bytes where
  "avc1 = [0x61, 0x76, 0x63, 0x31]"

record ex_video_tag_t =
  tag_fourcc :: bytes
  tag_packet_type :: u8
  tag_keyframe :: bool
  tag_composition_time_ms :: int
  tag_body :: bytes

definition is_hevc :: "ex_video_tag_t \<Rightarrow> bool" where
  "is_hevc tag = (tag_fourcc tag = hvc1)"

text \<open>\<open>i32::from_be_bytes\<close>.\<close>

definition i32_from_be_bytes :: "bytes \<Rightarrow> int" where
  "i32_from_be_bytes bs =
     (let n = int (be_fold bs) in if n \<ge> 2 ^ 31 then n - 2 ^ 32 else n)"

definition ex_video_tag :: "bytes \<Rightarrow> ex_video_tag_t option" where
  "ex_video_tag payload = do {
     (head, rest) \<leftarrow> split_first_chunk 5 payload;
     let first = head ! 0;
     if first AND 0x80 = 0 then None
     else do {
       let fourcc = drop 1 head;
       if fourcc \<noteq> hvc1 \<and> fourcc \<noteq> avc1 then None
       else do {
         let packet_type = first AND 0x0F;
         (composition_time_ms, body) \<leftarrow>
           (if packet_type = EX_CODED_FRAMES then do {
              (time, body) \<leftarrow> split_first_chunk 3 rest;
              let sign = (if time ! 0 AND 0x80 \<noteq> 0 then 0xFF else 0x00);
              Some (i32_from_be_bytes [sign, time ! 0, time ! 1, time ! 2], body)
            } else Some (0, rest));
         Some \<lparr>tag_fourcc = fourcc, tag_packet_type = packet_type,
               tag_keyframe = (drop_bit 4 first AND 0x07 = 1),
               tag_composition_time_ms = composition_time_ms, tag_body = body\<rparr>
       }
     }
   }"

subsection \<open>The decoder configuration record\<close>

record hvcc_record_t =
  hvcc_length_size_minus_one :: u8
  hvcc_vps :: "bytes list"
  hvcc_sps :: "bytes list"
  hvcc_pps :: "bytes list"

definition hvcc_push :: "u8 \<Rightarrow> bytes \<Rightarrow> hvcc_record_t \<Rightarrow> hvcc_record_t" where
  "hvcc_push kind nalu parsed =
     (if kind AND 0x3F = 32 then parsed\<lparr>hvcc_vps := hvcc_vps parsed @ [nalu]\<rparr>
      else if kind AND 0x3F = 33 then parsed\<lparr>hvcc_sps := hvcc_sps parsed @ [nalu]\<rparr>
      else if kind AND 0x3F = 34 then parsed\<lparr>hvcc_pps := hvcc_pps parsed @ [nalu]\<rparr>
      else parsed)"

fun hvcc_nalus_loop :: "u8 \<Rightarrow> nat \<Rightarrow> bytes \<Rightarrow> hvcc_record_t \<Rightarrow> (hvcc_record_t \<times> bytes) option" where
  "hvcc_nalus_loop kind 0 rest parsed = Some (parsed, rest)"
| "hvcc_nalus_loop kind (Suc n) rest parsed = do {
     (nalu, rest) \<leftarrow> take_u16_prefixed rest;
     hvcc_nalus_loop kind n rest (hvcc_push kind nalu parsed)
   }"

fun hvcc_arrays_loop :: "nat \<Rightarrow> bytes \<Rightarrow> hvcc_record_t \<Rightarrow> hvcc_record_t option" where
  "hvcc_arrays_loop 0 rest parsed = Some parsed"
| "hvcc_arrays_loop (Suc n) rest parsed = do {
     (head, tail) \<leftarrow> split_first_chunk 3 rest;
     (parsed, rest) \<leftarrow> hvcc_nalus_loop (head ! 0) (be_fold [head ! 1, head ! 2]) tail parsed;
     hvcc_arrays_loop n rest parsed
   }"

definition hvcc_record :: "bytes \<Rightarrow> hvcc_record_t option" where
  "hvcc_record record = do {
     (header, rest) \<leftarrow> split_first_chunk 23 record;
     hvcc_arrays_loop (unat (header ! 22)) rest
       \<lparr>hvcc_length_size_minus_one = header ! 21 AND 0x03, hvcc_vps = [], hvcc_sps = [], hvcc_pps = []\<rparr>
   }"

subsection \<open>Length-prefixed payloads\<close>

definition h265_nal_type :: "bytes \<Rightarrow> u8 option" where
  "h265_nal_type nalu =
     (case nalu of first # _ # _ \<Rightarrow> Some (drop_bit 1 first AND 0x3F) | _ \<Rightarrow> None)"

definition h265_length_prefixed_visit :: "bytes \<Rightarrow> bool \<times> bytes \<Rightarrow> bool \<times> (bool \<times> bytes)" where
  "h265_length_prefixed_visit nalu = (\<lambda>(has_vcl, out).
     case h265_nal_type nalu of
       None \<Rightarrow> (False, (has_vcl, out))
     | Some nal_type \<Rightarrow>
         if 32 \<le> nal_type \<and> nal_type \<le> 35 then (False, (has_vcl, out))
         else (False, (has_vcl \<or> nal_type \<le> 31,
                       if length nalu \<le> u32_MAX then out @ to_be32 (length nalu) @ nalu else out)))"

definition h265_annexb_to_length_prefixed_into :: "(bytes \<Rightarrow> nat list) \<Rightarrow> bytes \<Rightarrow> bytes \<Rightarrow> bool \<times> bytes" where
  "h265_annexb_to_length_prefixed_into find_iter data out =
     snd (for_each_annexb_nalu find_iter data h265_length_prefixed_visit (False, out))"

definition hevc_video_for_enhanced_rtmp_with_composition_into ::
    "(bytes \<Rightarrow> nat list) \<Rightarrow> bytes \<Rightarrow> bool \<Rightarrow> int \<Rightarrow> bool \<times> bytes" where
  "hevc_video_for_enhanced_rtmp_with_composition_into find_iter payload is_keyframe composition_time_ms =
     (let frame_type = (if is_keyframe then 1 else 2) :: u8;
          packet_type = (if composition_time_ms = 0 then 3 else 1) :: u8
      in h265_annexb_to_length_prefixed_into find_iter payload
           ([0x80 OR push_bit 4 frame_type OR packet_type] @ hvc1 @
            (if composition_time_ms \<noteq> 0 then signed_be24 composition_time_ms else [])))"

subsection \<open>Building the record\<close>

definition push_array :: "u8 \<Rightarrow> bytes \<Rightarrow> bytes \<Rightarrow> bytes option" where
  "push_array nal_type nalu out = do {
     len \<leftarrow> checked_le 0xFFFF (length nalu);
     Some (out @ [0x80 OR nal_type] @ to_be16 1 @ to_be16 len @ nalu)
   }"

definition hvcc_header :: "hevc_profile_tier_level \<Rightarrow> bytes" where
  "hvcc_header profile =
     [1, push_bit 6 (hv_profile_space profile) OR push_bit 5 (of_bool (hv_tier_flag profile)) OR hv_profile_idc profile]
     @ to_be32 (hv_profile_compatibility_flags profile)
     @ drop 2 (be_bytes 8 (hv_constraint_indicator_flags profile))
     @ [hv_level_idc profile, 0xF0, 0x00, 0xFC,
        0xFC OR (hv_chroma_format_idc profile AND 0x03),
        0xF8 OR (hv_bit_depth_luma_minus8 profile AND 0x07),
        0xF8 OR (hv_bit_depth_chroma_minus8 profile AND 0x07), 0x00, 0x00]
     @ (let temporal_layers = of_nat (min (saturating_add 255 (unat (hv_max_sub_layers_minus1 profile)) 1) 7) :: u8
        in [push_bit 3 temporal_layers OR push_bit 2 (of_bool (hv_temporal_id_nested profile)) OR 3, 3])"

definition build_hvcc_record :: "(bytes \<Rightarrow> nat list) \<Rightarrow> bytes \<Rightarrow> bytes option" where
  "build_hvcc_record find_iter annexb_data = do {
     let nalus = split_annexb_nalus find_iter annexb_data;
     let first_of_type = (\<lambda>expected. List.find (\<lambda>n. h265_nal_type n = Some expected) nalus);
     vps \<leftarrow> first_of_type 32;
     sps \<leftarrow> first_of_type 33;
     pps \<leftarrow> first_of_type 34;
     profile \<leftarrow> parse_hevc_profile_tier_level sps;
     hvcc \<leftarrow> push_array 32 vps (hvcc_header profile);
     hvcc \<leftarrow> push_array 33 sps hvcc;
     push_array 34 pps hvcc
   }"

definition build_hevc_enhanced_rtmp_sequence_header :: "(bytes \<Rightarrow> nat list) \<Rightarrow> bytes \<Rightarrow> bytes option" where
  "build_hevc_enhanced_rtmp_sequence_header find_iter annexb_data = do {
     hvcc \<leftarrow> build_hvcc_record find_iter annexb_data;
     Some ([0x80] @ hvc1 @ hvcc)
   }"

subsection \<open>Composition times\<close>

abbreviation clamp24 :: "int \<Rightarrow> int" where
  "clamp24 t \<equiv> max (- 8388608) (min 8388607 t)"

lemma int_unat_of_int_u8: "int (unat (of_int x :: u8)) = x mod 256"
  by (simp add: unsigned_of_int take_bit_eq_mod)

lemma int_be_fold4:
  "int (be_fold [a, b, c, d]) = ((int (unat a) * 256 + int (unat b)) * 256 + int (unat c)) * 256 + int (unat d)"
  by (simp add: be_fold_foldl)

lemma sign_bit_of_int:
  assumes "- 128 \<le> b" and "b \<le> 127"
  shows "(of_int b :: u8) AND 0x80 \<noteq> 0 \<longleftrightarrow> b < 0"
proof -
  have "(of_int b :: u8) AND 2 ^ 7 \<noteq> 0 \<longleftrightarrow> bit b 7"
    unfolding and_power_neq_0 by (simp add: bit_simps)
  moreover have "bit b 7 \<longleftrightarrow> odd (b div 128)" by (simp add: bit_iff_odd)
  moreover have "b div 128 = (if b < 0 then - 1 else 0)"
    using assms by auto
  ultimately show ?thesis by simp
qed

lemma neg_mod_256: "- 128 \<le> b \<Longrightarrow> b < 0 \<Longrightarrow> b mod 256 = b + (256 :: int)"
  by presburger

lemma negative_digits:
  "c = b + 256 \<Longrightarrow> v = (b * 256 + m) * 256 + l \<Longrightarrow> ((255 * 256 + c) * 256 + m) * 256 + l = v + (2 ^ 32 :: int)"
  by simp

lemma nonnegative_digits:
  "c = b \<Longrightarrow> v = (b * 256 + m) * 256 + l \<Longrightarrow> ((0 * 256 + c) * 256 + m) * 256 + l = (v :: int)"
  by simp

lemma signed_be24_reads:
  obtains h m l where "signed_be24 t = [h, m, l]"
    and "i32_from_be_bytes [if h AND 0x80 \<noteq> 0 then 0xFF else 0, h, m, l] = clamp24 t"
proof -
  define v where "v = clamp24 t"
  have v: "- 8388608 \<le> v" "v \<le> 8388607" by (simp_all add: v_def)
  have vd: "v div 65536 = v div 256 div 256" by (simp add: zdiv_zmult2_eq [symmetric])
  have b: "- 128 \<le> v div 65536" "v div 65536 \<le> 127" using v by linarith+
  have digits: "v = (v div 65536 * 256 + v div 256 mod 256) * 256 + v mod 256"
    unfolding vd by simp
  have eq: "signed_be24 t = [of_int (v div 65536), of_int (v div 256), of_int v]"
    by (simp add: signed_be24_def v_def Let_def)
  have "i32_from_be_bytes [if (of_int (v div 65536) :: u8) AND 0x80 \<noteq> 0 then 0xFF else 0,
      of_int (v div 65536), of_int (v div 256), of_int v] = v"
  proof (cases "v div 65536 < 0")
    case True
    then have "v div 65536 mod 256 = v div 65536 + 256" using b by (intro neg_mod_256) simp_all
    then have "((255 * 256 + v div 65536 mod 256) * 256 + v div 256 mod 256) * 256 + v mod 256 = v + 2 ^ 32"
      using digits by (rule negative_digits)
    moreover have "int (unat (0xFF :: u8)) = 255" by simp
    ultimately have "int (be_fold [0xFF, of_int (v div 65536), of_int (v div 256), of_int v]) = v + 2 ^ 32"
      unfolding int_be_fold4 int_unat_of_int_u8 by (simp only:)
    with v show ?thesis
      unfolding i32_from_be_bytes_def sign_bit_of_int [OF b] if_P [OF True] Let_def by simp
  next
    case False
    then have "v div 65536 mod 256 = v div 65536" using b by simp
    then have "((0 * 256 + v div 65536 mod 256) * 256 + v div 256 mod 256) * 256 + v mod 256 = v"
      using digits by (rule nonnegative_digits)
    moreover have "int (unat (0 :: u8)) = 0" by simp
    ultimately have "int (be_fold [0, of_int (v div 65536), of_int (v div 256), of_int v]) = v"
      unfolding int_be_fold4 int_unat_of_int_u8 by (simp only:)
    with v show ?thesis
      unfolding i32_from_be_bytes_def sign_bit_of_int [OF b] if_not_P [OF False] Let_def by simp
  qed
  with eq show thesis by (intro that) (simp_all add: v_def)
qed

subsection \<open>Frames\<close>

definition kept_h265 :: "bytes \<Rightarrow> bool" where
  "kept_h265 nalu = (case h265_nal_type nalu of None \<Rightarrow> False | Some t \<Rightarrow> \<not> (32 \<le> t \<and> t \<le> 35))"

definition vcl_h265 :: "bytes \<Rightarrow> bool" where
  "vcl_h265 nalu = (case h265_nal_type nalu of None \<Rightarrow> False | Some t \<Rightarrow> t \<le> 31)"

lemma h265_visit_eq:
  assumes "length nalu < 2 ^ 32"
  shows "h265_length_prefixed_visit nalu (has_vcl, out) =
     (False, (has_vcl \<or> vcl_h265 nalu, if kept_h265 nalu then out @ put_nalu 4 nalu else out))"
  using assms order_trans [of "32 :: u8" _ 31]
  by (auto simp: h265_length_prefixed_visit_def vcl_h265_def kept_h265_def put_nalu_def to_be32_be_bytes u32_MAX_def
      split: option.splits)

lemma visit_all_h265:
  "\<forall>n \<in> set nalus. length n < 2 ^ 32 \<Longrightarrow>
   visit_all h265_length_prefixed_visit nalus (has_vcl, out) =
     (False, (has_vcl \<or> (\<exists>n \<in> set nalus. vcl_h265 n), out @ concat (map (put_nalu 4) (filter kept_h265 nalus))))"
proof (induction nalus arbitrary: has_vcl out)
  case (Cons nalu nalus)
  from Cons.prems have "length nalu < 2 ^ 32" by simp
  from h265_visit_eq [OF this] Cons show ?case by auto
qed simp

lemma kept_h265_fits: "kept_h265 n \<Longrightarrow> length n < 2 ^ 32 \<Longrightarrow> fits 4 n"
  by (auto simp: kept_h265_def h265_nal_type_def fits_def)

definition ex_frame_byte :: "bool \<Rightarrow> bool \<Rightarrow> u8" where
  "ex_frame_byte key zero =
     0x80 OR push_bit 4 (if key then 1 else 2) OR (if zero then 3 else 1)"

lemma ex_frame_byte:
  "ex_frame_byte key zero AND 0x80 \<noteq> 0" "ex_frame_byte key zero AND 0x0F = (if zero then 3 else 1)"
  "drop_bit 4 (ex_frame_byte key zero) AND 0x07 = 1 \<longleftrightarrow> key"
  by (cases key; cases zero; simp add: ex_frame_byte_def)+

lemma ex_video_tag_coded:
  assumes "f AND 0x80 \<noteq> 0"
  shows "ex_video_tag (f # hvc1 @ rest) = do {
     (t, body) \<leftarrow> (if f AND 0x0F = EX_CODED_FRAMES then do {
         (time, body) \<leftarrow> split_first_chunk 3 rest;
         let sign = (if time ! 0 AND 0x80 \<noteq> 0 then 0xFF else 0x00);
         Some (i32_from_be_bytes [sign, time ! 0, time ! 1, time ! 2], body)
       } else Some (0, rest));
     Some \<lparr>tag_fourcc = hvc1, tag_packet_type = f AND 0x0F, tag_keyframe = (drop_bit 4 f AND 0x07 = 1),
           tag_composition_time_ms = t, tag_body = body\<rparr>
   }"
proof -
  have "split_at_checked 5 (f # hvc1 @ rest) = Some (f # hvc1, rest)"
    by (simp add: split_at_checked_def hvc1_def)
  with assms show ?thesis by (simp add: ex_video_tag_def Let_def)
qed

lemma ex_video_tag_frame:
  "ex_video_tag ([ex_frame_byte key (t = 0)] @ hvc1 @ (if t \<noteq> 0 then signed_be24 t else []) @ body) =
     Some \<lparr>tag_fourcc = hvc1, tag_packet_type = (if t = 0 then EX_CODED_FRAMES_X else EX_CODED_FRAMES),
           tag_keyframe = key, tag_composition_time_ms = clamp24 t, tag_body = body\<rparr>"
proof -
  obtain h m l where hml: "signed_be24 t = [h, m, l]"
    "i32_from_be_bytes [if h AND 0x80 \<noteq> 0 then 0xFF else 0, h, m, l] = clamp24 t"
    by (rule signed_be24_reads)
  have "split_at_checked 3 ([h, m, l] @ body) = Some ([h, m, l], body)"
    by (simp add: split_at_checked_def)
  with hml show ?thesis
    by (simp add: ex_video_tag_coded ex_frame_byte EX_CODED_FRAMES_def EX_CODED_FRAMES_X_def Let_def
        del: append_Cons append_Nil) (simp add: ex_video_tag_coded ex_frame_byte EX_CODED_FRAMES_def)
qed

text \<open>
  C31. An enhanced RTMP frame reads back: the tag names HEVC, the keyframe flag and the
  composition time (clamped to 24 bits, with the packet type that omits it when it is zero), and
  its body is the length-prefixed access unit of exactly the NAL units that are not parameter
  sets or delimiters; the result says whether a slice was among them.
\<close>

theorem enhanced_frame_roundtrip:
  assumes "\<forall>n \<in> set (split_annexb_nalus find_iter payload). length n < 2 ^ 32"
    and "hevc_video_for_enhanced_rtmp_with_composition_into find_iter payload key t = (has_vcl, out)"
  shows "\<exists>body. ex_video_tag out = Some
      \<lparr>tag_fourcc = hvc1, tag_packet_type = (if t = 0 then EX_CODED_FRAMES_X else EX_CODED_FRAMES),
       tag_keyframe = key, tag_composition_time_ms = clamp24 t, tag_body = body\<rparr> \<and>
    length_prefixed_units 4 body = Some (filter kept_h265 (split_annexb_nalus find_iter payload)) \<and>
    has_vcl = (\<exists>n \<in> set (split_annexb_nalus find_iter payload). vcl_h265 n)"
proof -
  let ?ns = "split_annexb_nalus find_iter payload"
  let ?body = "concat (map (put_nalu 4) (filter kept_h265 ?ns))"
  have out: "out = ([ex_frame_byte key (t = 0)] @ hvc1 @ (if t \<noteq> 0 then signed_be24 t else [])) @ ?body"
    and vcl: "has_vcl = (\<exists>n \<in> set ?ns. vcl_h265 n)"
    using assms(2)
    by (auto simp: hevc_video_for_enhanced_rtmp_with_composition_into_def Let_def ex_frame_byte_def
        h265_annexb_to_length_prefixed_into_def for_each_annexb_nalu_eq visit_all_h265 [OF assms(1)])
  have "list_all (fits 4) (filter kept_h265 ?ns)"
    using assms(1) by (auto simp: list_all_iff intro: kept_h265_fits)
  with nalu4.decode_all_put vcl ex_video_tag_frame [of key t ?body] show ?thesis
    unfolding out append_assoc by blast
qed

theorem enhanced_frame_roundtrip_witness:
  "\<exists>body. ex_video_tag (snd (hevc_video_for_enhanced_rtmp_with_composition_into (scan_start_codes 0)
      [0, 0, 0, 1, 0x40, 1, 7, 0, 0, 1, 0x26, 1, 0xAF] True (- 2))) = Some
      \<lparr>tag_fourcc = hvc1, tag_packet_type = EX_CODED_FRAMES,
       tag_keyframe = True, tag_composition_time_ms = - 2, tag_body = body\<rparr> \<and>
    length_prefixed_units 4 body = Some [[0x26, 1, 0xAF]]"
proof -
  let ?d = "[0, 0, 0, 1, 0x40, 1, 7, 0, 0, 1, 0x26, 1, 0xAF] :: bytes"
  have split: "split_annexb_nalus (scan_start_codes 0) ?d = [[0x40, 1, 7], [0x26, 1, 0xAF]]" by code_simp
  have kept: "filter kept_h265 [[0x40, 1, 7], [0x26, 1, 0xAF]] = [[0x26, 1, 0xAF]]"
    by (simp add: kept_h265_def h265_nal_type_def)
  show ?thesis
    using enhanced_frame_roundtrip [of "scan_start_codes 0" ?d True "- 2"
        "fst (hevc_video_for_enhanced_rtmp_with_composition_into (scan_start_codes 0) ?d True (- 2))"
        "snd (hevc_video_for_enhanced_rtmp_with_composition_into (scan_start_codes 0) ?d True (- 2))"]
    unfolding split kept by auto
qed

subsection \<open>The record round trip\<close>

lemma hvcc_array_step:
  assumes "length nalu < 2 ^ 16"
  shows "hvcc_arrays_loop (Suc n) ([k] @ to_be16 1 @ to_be16 (length nalu) @ nalu @ rest) parsed =
    hvcc_arrays_loop n rest (hvcc_push k nalu parsed)"
proof -
  have "split_at_checked 3 ([k] @ to_be16 1 @ to_be16 (length nalu) @ nalu @ rest) =
      Some ([k, 0, 1], put_u16 nalu @ rest)"
    by (simp add: split_at_checked_def to_be16_def)
  moreover have "be_fold [0, 1] = Suc 0" by (simp add: be_fold_foldl)
  ultimately show ?thesis
    using u16_item.get_put [of nalu rest] assms by simp
qed

lemma push_array_Some:
  "push_array k nalu out = Some out' \<longleftrightarrow>
     length nalu < 2 ^ 16 \<and> out' = out @ [0x80 OR k] @ to_be16 1 @ to_be16 (length nalu) @ nalu"
  by (auto simp: push_array_def checked_le_def)

lemma hvcc_header_fields:
  "length (hvcc_header profile) = 23" "hvcc_header profile ! 22 = 3" "hvcc_header profile ! 21 AND 0x03 = 3"
proof -
  obtain front b where h: "hvcc_header profile = front @ [b OR 3, 3]" "length front = 21"
    by (simp add: hvcc_header_def Let_def flip: or.assoc)
  then show "length (hvcc_header profile) = 23" "hvcc_header profile ! 22 = 3"
    by (simp_all add: nth_append)
  have "(3 :: u8) = mask 2" by (simp add: mask_eq_exp_minus_1)
  then have "(b OR 3) AND 3 = 3" by (simp only:) (rule bit_eqI, auto simp: bit_simps)
  with h show "hvcc_header profile ! 21 AND 0x03 = 3" by (simp add: nth_append)
qed

lemma hvcc_record_built:
  assumes "build_hvcc_record find_iter data = Some record"
  obtains vps sps pps profile where
    "List.find (\<lambda>n. h265_nal_type n = Some 32) (split_annexb_nalus find_iter data) = Some vps"
    "List.find (\<lambda>n. h265_nal_type n = Some 33) (split_annexb_nalus find_iter data) = Some sps"
    "List.find (\<lambda>n. h265_nal_type n = Some 34) (split_annexb_nalus find_iter data) = Some pps"
    "parse_hevc_profile_tier_level sps = Some profile"
    "hvcc_record record = Some \<lparr>hvcc_length_size_minus_one = 3, hvcc_vps = [vps], hvcc_sps = [sps], hvcc_pps = [pps]\<rparr>"
    "take 23 record = hvcc_header profile"
proof -
  from assms obtain vps sps pps profile where
    found: "List.find (\<lambda>n. h265_nal_type n = Some 32) (split_annexb_nalus find_iter data) = Some vps"
    "List.find (\<lambda>n. h265_nal_type n = Some 33) (split_annexb_nalus find_iter data) = Some sps"
    "List.find (\<lambda>n. h265_nal_type n = Some 34) (split_annexb_nalus find_iter data) = Some pps"
    "parse_hevc_profile_tier_level sps = Some profile"
    and len: "length vps < 2 ^ 16" "length sps < 2 ^ 16" "length pps < 2 ^ 16"
    and rec: "record = hvcc_header profile @ ([0x80 OR 32] @ to_be16 1 @ to_be16 (length vps) @ vps
      @ [0x80 OR 33] @ to_be16 1 @ to_be16 (length sps) @ sps
      @ [0x80 OR 34] @ to_be16 1 @ to_be16 (length pps) @ pps @ [])"
    unfolding build_hvcc_record_def Let_def
    by (auto simp: bind_eq_Some_conv push_array_Some simp del: or_numerals)
  have "hvcc_arrays_loop (Suc (Suc (Suc 0))) ([0x80 OR 32] @ to_be16 1 @ to_be16 (length vps) @ vps
      @ [0x80 OR 33] @ to_be16 1 @ to_be16 (length sps) @ sps
      @ [0x80 OR 34] @ to_be16 1 @ to_be16 (length pps) @ pps @ [])
      \<lparr>hvcc_length_size_minus_one = 3, hvcc_vps = [], hvcc_sps = [], hvcc_pps = []\<rparr> =
    Some \<lparr>hvcc_length_size_minus_one = 3, hvcc_vps = [vps], hvcc_sps = [sps], hvcc_pps = [pps]\<rparr>" (is "hvcc_arrays_loop _ ?tail _ = _")
    by (simp only: hvcc_array_step [OF len(1)] hvcc_array_step [OF len(2)] hvcc_array_step [OF len(3)] hvcc_arrays_loop.simps(1))
      (simp add: hvcc_push_def)
  moreover have "unat (3 :: u8) = Suc (Suc (Suc 0))" by simp
  moreover have "split_at_checked 23 record = Some (hvcc_header profile, ?tail)"
    using split_at_checked_append [of "hvcc_header profile" ?tail] unfolding rec hvcc_header_fields(1) .
  ultimately have "hvcc_record record = Some \<lparr>hvcc_length_size_minus_one = 3, hvcc_vps = [vps], hvcc_sps = [sps], hvcc_pps = [pps]\<rparr>"
    unfolding hvcc_record_def by (simp only: Option.bind.bind_lunit prod.case hvcc_header_fields)
  with found show thesis by (intro that) (simp_all add: rec hvcc_header_fields(1))
qed

text \<open>
  C15. The HEVC sequence header built from an Annex B payload reads back as an HEVC
  sequence-start tag whose configuration record carries four-byte lengths and exactly the first
  video, sequence and picture parameter sets of the payload, behind the profile bytes of that
  sequence parameter set.
\<close>

theorem hevc_sequence_header_roundtrip:
  assumes "build_hevc_enhanced_rtmp_sequence_header find_iter data = Some out"
  shows "\<exists>vps sps pps profile tag.
    List.find (\<lambda>n. h265_nal_type n = Some 32) (split_annexb_nalus find_iter data) = Some vps \<and>
    List.find (\<lambda>n. h265_nal_type n = Some 33) (split_annexb_nalus find_iter data) = Some sps \<and>
    List.find (\<lambda>n. h265_nal_type n = Some 34) (split_annexb_nalus find_iter data) = Some pps \<and>
    parse_hevc_profile_tier_level sps = Some profile \<and>
    ex_video_tag out = Some tag \<and> is_hevc tag \<and> tag_packet_type tag = EX_SEQUENCE_START \<and>
    take 23 (tag_body tag) = hvcc_header profile \<and>
    hvcc_record (tag_body tag) = Some
      \<lparr>hvcc_length_size_minus_one = 3, hvcc_vps = [vps], hvcc_sps = [sps], hvcc_pps = [pps]\<rparr>"
proof -
  from assms obtain hvcc where hvcc: "build_hvcc_record find_iter data = Some hvcc" "out = 0x80 # hvc1 @ hvcc"
    by (auto simp: build_hevc_enhanced_rtmp_sequence_header_def bind_eq_Some_conv)
  have tag: "ex_video_tag out = Some \<lparr>tag_fourcc = hvc1, tag_packet_type = EX_SEQUENCE_START, tag_keyframe = False,
      tag_composition_time_ms = 0, tag_body = hvcc\<rparr>"
    by (simp add: hvcc(2) ex_video_tag_coded EX_SEQUENCE_START_def EX_CODED_FRAMES_def)
  show ?thesis by (rule hvcc_record_built [OF hvcc(1)]) (simp add: tag is_hevc_def)
qed

theorem hevc_sequence_header_roundtrip_witness:
  "\<exists>out tag. build_hevc_enhanced_rtmp_sequence_header (scan_start_codes 0)
      (join_nalus [[0x40, 1, 7], 0x42 # 0x01 # sample_hevc_payload, [0x44, 1, 9]]) = Some out \<and>
    ex_video_tag out = Some tag \<and>
    hvcc_record (tag_body tag) = Some \<lparr>hvcc_length_size_minus_one = 3, hvcc_vps = [[0x40, 1, 7]],
      hvcc_sps = [0x42 # 0x01 # sample_hevc_payload], hvcc_pps = [[0x44, 1, 9]]\<rparr>"
proof -
  let ?ns = "[[0x40, 1, 7], 0x42 # 0x01 # sample_hevc_payload, [0x44, 1, 9]] :: bytes list"
  have split: "split_annexb_nalus (scan_start_codes 0) (join_nalus ?ns) = ?ns"
    by (rule split_join_nalus [OF finds_scan]) (simp add: nalu_ok_def sample_hevc_payload_def no_start_code_Cons)
  have find: "List.find (\<lambda>n. h265_nal_type n = Some 32) ?ns = Some [0x40, 1, 7]"
    "List.find (\<lambda>n. h265_nal_type n = Some 33) ?ns = Some (0x42 # 0x01 # sample_hevc_payload)"
    "List.find (\<lambda>n. h265_nal_type n = Some 34) ?ns = Some [0x44, 1, 9]"
    by (simp_all add: h265_nal_type_def)
  obtain out where out: "build_hevc_enhanced_rtmp_sequence_header (scan_start_codes 0) (join_nalus ?ns) = Some out"
    unfolding build_hevc_enhanced_rtmp_sequence_header_def build_hvcc_record_def split Let_def find
      Option.bind.bind_lunit parse_hevc_reads [OF sample_hevc]
    by (simp add: push_array_def checked_le_def sample_hevc_payload_def)
  from hevc_sequence_header_roundtrip [OF this, unfolded split find] out show ?thesis by auto
qed

end
