(* ===== verification/Fmp4_Boxes.thy ===== *)
theory Fmp4_Boxes
  imports Restream_Prelude
begin

text \<open>
  The box walker of fMP4 objects (\<open>ingest_publisher/fmp4/boxes.rs\<close>): box headers, the fragments of
  a media segment with the limits that bound its demux work, and the init segment tests.

  The counters of the source saturate at \<open>usize::MAX\<close>, which they cannot reach: they are refused
  at 4096 and 16384. Offsets are natural numbers; where the source's checked addition of a box
  size overflows, the sum exceeds the object's length and both answer \<open>Oversized\<close>.
\<close>

definition ascii :: "string \<Rightarrow> bytes" where
  "ascii s = map (\<lambda>c. of_nat (of_char c)) s"

definition MAX_FRAGMENTS :: nat where
  "MAX_FRAGMENTS = 64"

definition MAX_BOXES :: nat where
  "MAX_BOXES = 4096"

definition MAX_MOOF_BYTES :: nat where
  "MAX_MOOF_BYTES = 256 * 1024"

definition MAX_SEGMENT_SAMPLES :: nat where
  "MAX_SEGMENT_SAMPLES = 16 * 1024"

definition KNOWN_SKIPPED :: "bytes list" where
  "KNOWN_SKIPPED = map ascii [''styp'', ''sidx'', ''ssix'', ''prft'', ''emsg'', ''free'', ''skip'', ''ftyp'']"

datatype walk_error =
    Truncated nat
  | TooSmall bytes nat
  | Oversized bytes nat
  | SizeToEnd bytes
  | MoofWithoutMdat nat
  | MdatWithoutMoof nat
  | NoFragments
  | TooManyFragments
  | TooManyBoxes
  | MoofTooLarge nat
  | TooManySamples
  | ExplicitBaseDataOffset
  | TrafWithoutTfdt
  | NoMoov

definition box_name :: "bytes \<Rightarrow> string" where
  "box_name kind = map (\<lambda>byte. if 0x21 \<le> byte \<and> byte \<le> 0x7E then char_of (unat byte) else CHR ''?'') kind"

fun walk_error_message :: "walk_error \<Rightarrow> string" where
  "walk_error_message (Truncated offset) = ''box header truncated at byte '' @ show_nat offset"
| "walk_error_message (TooSmall kind offset) =
     ''box '' @ box_name kind @ '' at byte '' @ show_nat offset @ '' is smaller than its header''"
| "walk_error_message (Oversized kind offset) =
     ''box '' @ box_name kind @ '' at byte '' @ show_nat offset @ '' runs past the object''"
| "walk_error_message (SizeToEnd kind) = ''box '' @ box_name kind @ '' has size 0''"
| "walk_error_message (MoofWithoutMdat offset) = ''moof at byte '' @ show_nat offset @ '' is not followed by an mdat''"
| "walk_error_message (MdatWithoutMoof offset) = ''mdat at byte '' @ show_nat offset @ '' has no moof before it''"
| "walk_error_message NoFragments = ''media segment has no moof''"
| "walk_error_message TooManyFragments = ''media segment has more than '' @ show_nat MAX_FRAGMENTS @ '' fragments''"
| "walk_error_message TooManyBoxes = ''media segment takes more than '' @ show_nat MAX_BOXES @ '' box walks''"
| "walk_error_message (MoofTooLarge offset) =
     ''moof at byte '' @ show_nat offset @ '' is larger than '' @ show_nat MAX_MOOF_BYTES @ '' bytes''"
| "walk_error_message TooManySamples = ''media segment declares more than '' @ show_nat MAX_SEGMENT_SAMPLES @ '' samples''"
| "walk_error_message ExplicitBaseDataOffset =
     ''tfhd sets an explicit base_data_offset, which counts from the whole segment; only moof-relative offsets are supported''"
| "walk_error_message TrafWithoutTfdt =
     ''traf has no tfdt: a fragment without a decode time cannot be placed on the stream's timeline''"
| "walk_error_message NoMoov = ''init segment has no moov''"

subsection \<open>Box headers\<close>

record box_span =
  box_kind :: bytes
  box_start :: nat
  box_body :: nat
  box_end :: nat
  box_to_end :: bool

definition first_chunk_at :: "nat \<Rightarrow> nat \<Rightarrow> bytes \<Rightarrow> bytes option" where
  "first_chunk_at n offset bs = do {
     rest \<leftarrow> slice_from offset bs;
     (chunk, _) \<leftarrow> split_first_chunk n rest;
     Some chunk
   }"

definition read_box :: "bytes \<Rightarrow> nat \<Rightarrow> walk_error + box_span" where
  "read_box bs offset =
     (case first_chunk_at 8 offset bs of
        None \<Rightarrow> Inl (Truncated offset)
      | Some header \<Rightarrow>
          let kind = drop 4 header;
              size32 = be_fold (take 4 header)
          in (case (if size32 = 1 then map_option (\<lambda>large. (be_fold large, 16)) (first_chunk_at 8 (offset + 8) bs)
                   else Some (size32, 8)) of
               None \<Rightarrow> Inl (Truncated offset)
             | Some (box_size, header_len) \<Rightarrow>
                 if size32 = 0 then
                   Inr \<lparr>box_kind = kind, box_start = offset, box_body = offset + header_len, box_end = length bs, box_to_end = True\<rparr>
                 else if box_size < header_len then Inl (TooSmall kind offset)
                 else if offset + box_size \<le> length bs then
                   Inr \<lparr>box_kind = kind, box_start = offset, box_body = offset + header_len, box_end = offset + box_size, box_to_end = False\<rparr>
                 else Inl (Oversized kind offset)))"

lemma first_chunk_at_Some:
  "first_chunk_at n offset bs = Some chunk \<longleftrightarrow> offset + n \<le> length bs \<and> chunk = take n (drop offset bs)"
  by (auto simp: first_chunk_at_def slice_from_def split_at_checked_def bind_eq_Some_conv)

lemma first_chunk_at_None: "first_chunk_at n offset bs = None \<longleftrightarrow> length bs < offset + n"
  by (auto simp: first_chunk_at_def slice_from_def split_at_checked_def)

text \<open>A box that is read lies inside the object, starts where it was read and is not empty.\<close>

lemma read_box_bounds:
  assumes "read_box bs offset = Inr span"
  shows "box_start span = offset" "offset + 8 \<le> box_body span" "box_body span \<le> box_end span" "box_end span \<le> length bs"
  using assms
  by (auto simp: read_box_def Let_def first_chunk_at_Some split: option.splits if_splits)

definition count_box :: "nat \<Rightarrow> walk_error + nat" where
  "count_box walked = (if walked + 1 > MAX_BOXES then Inl TooManyBoxes else Inr (walked + 1))"

subsection \<open>Children of a container\<close>

text \<open>
  The visitor gets the box, its body, the state its closure captures and the box count, and may
  refuse.
\<close>

function children_loop ::
    "bytes \<Rightarrow> (box_span \<Rightarrow> bytes \<Rightarrow> 's \<Rightarrow> nat \<Rightarrow> walk_error + ('s \<times> nat)) \<Rightarrow> nat \<Rightarrow> 's \<Rightarrow> nat \<Rightarrow> walk_error + ('s \<times> nat)" where
  "children_loop payload visit offset st walked =
     (if offset < length payload then
        case count_box walked of
          Inl e \<Rightarrow> Inl e
        | Inr walked \<Rightarrow>
            (case read_box payload offset of
               Inl e \<Rightarrow> Inl e
             | Inr span \<Rightarrow>
                 if box_to_end span then Inl (SizeToEnd (box_kind span))
                 else case visit span (case_option [] id (slice_get (box_body span) (box_end span) payload)) st walked of
                   Inl e \<Rightarrow> Inl e
                 | Inr (st, walked) \<Rightarrow> children_loop payload visit (box_end span) st walked)
      else Inr (st, walked))"
  by pat_completeness auto
termination
proof (relation "measure (\<lambda>(payload, visit, offset, st, walked). length payload - offset)")
  fix payload :: bytes and visit :: "box_span \<Rightarrow> bytes \<Rightarrow> 's \<Rightarrow> nat \<Rightarrow> walk_error + ('s \<times> nat)"
    and offset walked w span r st st' w'
  assume "offset < length payload" "read_box payload offset = Inr span"
  with read_box_bounds [of payload offset span]
  show "((payload, visit, box_end span, st', w'), (payload, visit, offset, st, walked))
      \<in> measure (\<lambda>(payload, visit, offset, st, walked). length payload - offset)"
    by auto
qed simp

declare children_loop.simps [simp del]

definition for_each_child ::
    "bytes \<Rightarrow> (box_span \<Rightarrow> bytes \<Rightarrow> 's \<Rightarrow> nat \<Rightarrow> walk_error + ('s \<times> nat)) \<Rightarrow> 's \<Rightarrow> nat \<Rightarrow> walk_error + ('s \<times> nat)" where
  "for_each_child payload visit st walked = children_loop payload visit 0 st walked"

text \<open>The boxes of a track fragment; the state is whether a \<open>tfdt\<close> was seen and the sample count.\<close>

definition traf_child :: "box_span \<Rightarrow> bytes \<Rightarrow> bool \<times> nat \<Rightarrow> nat \<Rightarrow> walk_error + ((bool \<times> nat) \<times> nat)" where
  "traf_child child body = (\<lambda>(has_tfdt, samples) walked.
     if box_kind child = ascii ''tfdt'' then Inr ((True, samples), walked)
     else if box_kind child = ascii ''tfhd'' then
       (case split_first_chunk 4 body of
          None \<Rightarrow> Inl (Truncated (box_body child))
        | Some (head, _) \<Rightarrow>
            let flags = be_fold (0 # drop 1 head)
            in if flags AND 0x000001 \<noteq> 0 then Inl ExplicitBaseDataOffset else Inr ((has_tfdt, samples), walked))
     else if box_kind child = ascii ''trun'' then
       (case slice_get 4 8 body of
          None \<Rightarrow> Inl (Truncated (box_body child))
        | Some count \<Rightarrow>
            let samples = samples + be_fold count
            in if samples > MAX_SEGMENT_SAMPLES then Inl TooManySamples else Inr ((has_tfdt, samples), walked))
     else Inr ((has_tfdt, samples), walked))"

definition moof_child :: "box_span \<Rightarrow> bytes \<Rightarrow> nat \<Rightarrow> nat \<Rightarrow> walk_error + (nat \<times> nat)" where
  "moof_child child body samples walked =
     (if box_kind child \<noteq> ascii ''traf'' then Inr (samples, walked)
      else case for_each_child body traf_child (False, samples) walked of
        Inl e \<Rightarrow> Inl e
      | Inr ((has_tfdt, samples), walked) \<Rightarrow>
          if \<not> has_tfdt then Inl TrafWithoutTfdt else Inr (samples, walked))"

definition check_moof :: "bytes \<Rightarrow> nat \<Rightarrow> nat \<Rightarrow> walk_error + (nat \<times> nat)" where
  "check_moof moof samples walked = for_each_child moof moof_child samples walked"

subsection \<open>Segments\<close>

record walk_report =
  first_unknown :: "bytes option"

text \<open>
  The fragments collected so far are kept when the walk is refused: the caller's vector holds
  them.
\<close>

function fragments_loop ::
    "bytes \<Rightarrow> nat \<Rightarrow> nat \<Rightarrow> nat \<Rightarrow> (nat \<times> nat) list \<Rightarrow> walk_report \<Rightarrow> (nat \<times> nat) list \<times> (walk_error + walk_report)" where
  "fragments_loop bs offset walked samples fragments report =
     (if offset < length bs then
        case count_box walked of
          Inl e \<Rightarrow> (fragments, Inl e)
        | Inr walked \<Rightarrow>
        (case read_box bs offset of
          Inl e \<Rightarrow> (fragments, Inl e)
        | Inr span \<Rightarrow>
            if box_kind span = ascii ''moof'' then
              if box_to_end span then (fragments, Inl (SizeToEnd (box_kind span)))
              else if box_end span - box_start span > MAX_MOOF_BYTES then (fragments, Inl (MoofTooLarge offset))
              else (case check_moof (case_option [] id (slice_get (box_body span) (box_end span) bs)) samples walked of
                Inl e \<Rightarrow> (fragments, Inl e)
              | Inr (samples, walked) \<Rightarrow>
                  if box_end span \<ge> length bs then (fragments, Inl (MoofWithoutMdat offset))
                  else (case read_box bs (box_end span) of
                    Inl e \<Rightarrow> (fragments, Inl e)
                  | Inr mdat \<Rightarrow>
                      if box_kind mdat \<noteq> ascii ''mdat'' then (fragments, Inl (MoofWithoutMdat offset))
                      else if box_to_end mdat then (fragments, Inl (SizeToEnd (box_kind mdat)))
                      else if length fragments \<ge> MAX_FRAGMENTS then (fragments, Inl TooManyFragments)
                      else fragments_loop bs (box_end mdat) walked samples
                        (fragments @ [(box_start span, box_end mdat)]) report))
            else if box_kind span = ascii ''mdat'' then (fragments, Inl (MdatWithoutMoof offset))
            else fragments_loop bs (box_end span) walked samples fragments
              (if box_kind span \<in> set KNOWN_SKIPPED \<or> first_unknown report \<noteq> None then report
               else report\<lparr>first_unknown := Some (box_kind span)\<rparr>))
      else (fragments, if fragments = [] then Inl NoFragments else Inr report))"
  by pat_completeness auto
termination
proof (relation "measure (\<lambda>(bs, offset, walked, samples, fragments, report). length bs - offset)", goal_cases)
  case 1
  show ?case by simp
next
  case (2 bs offset walked samples fragments report w span r samples' walked' mdat)
  then show ?case using read_box_bounds [of bs offset span] read_box_bounds [of bs "box_end span" mdat] by auto
next
  case (3 bs offset walked samples fragments report w span)
  then show ?case using read_box_bounds [of bs offset span] by auto
qed

declare fragments_loop.simps [simp del]

definition media_fragments :: "bytes \<Rightarrow> (nat \<times> nat) list \<times> (walk_error + walk_report)" where
  "media_fragments bs = fragments_loop bs 0 0 0 [] \<lparr>first_unknown = None\<rparr>"

function moov_loop :: "bytes \<Rightarrow> nat \<Rightarrow> walk_error + (nat \<times> nat)" where
  "moov_loop bs offset =
     (if offset < length bs then
        case read_box bs offset of
          Inl e \<Rightarrow> Inl e
        | Inr span \<Rightarrow>
            if box_kind span = ascii ''moov'' then Inr (box_start span, box_end span)
            else moov_loop bs (box_end span)
      else Inl NoMoov)"
  by pat_completeness auto
termination
proof (relation "measure (\<lambda>(bs, offset). length bs - offset)", goal_cases)
  case (2 bs offset span)
  then show ?case using read_box_bounds [of bs offset span] by auto
qed simp

definition moov_range :: "bytes \<Rightarrow> walk_error + (nat \<times> nat)" where
  "moov_range bs = moov_loop bs 0"

function init_loop :: "bytes \<Rightarrow> nat \<Rightarrow> bool" where
  "init_loop bs offset =
     (if offset < length bs then
        case read_box bs offset of
          Inl e \<Rightarrow> False
        | Inr span \<Rightarrow>
            if box_kind span = ascii ''moov'' then True
            else if box_kind span = ascii ''moof'' then False
            else init_loop bs (box_end span)
      else False)"
  by pat_completeness auto
termination
proof (relation "measure (\<lambda>(bs, offset). length bs - offset)", goal_cases)
  case (2 bs offset span)
  then show ?case using read_box_bounds [of bs offset span] by auto
qed simp

definition is_init_segment :: "bytes \<Rightarrow> bool" where
  "is_init_segment bs = init_loop bs 0"

declare moov_loop.simps [simp del] init_loop.simps [simp del]

subsection \<open>What an accepted container holds\<close>

text \<open>The boxes of a container, when every one of them has a readable header and a size of its own.\<close>

function boxes :: "bytes \<Rightarrow> nat \<Rightarrow> (box_span \<times> bytes) list option" where
  "boxes payload offset =
     (if offset < length payload then
        case read_box payload offset of
          Inl e \<Rightarrow> None
        | Inr span \<Rightarrow>
            if box_to_end span then None
            else map_option (Cons (span, case_option [] id (slice_get (box_body span) (box_end span) payload)))
              (boxes payload (box_end span))
      else Some [])"
  by pat_completeness auto
termination
proof (relation "measure (\<lambda>(bs, offset). length bs - offset)", goal_cases)
  case (2 bs offset span)
  then show ?case using read_box_bounds [of bs offset span] by auto
qed simp

declare boxes.simps [simp del]

fun visit_boxes ::
    "(box_span \<Rightarrow> bytes \<Rightarrow> 's \<Rightarrow> nat \<Rightarrow> walk_error + ('s \<times> nat)) \<Rightarrow> (box_span \<times> bytes) list \<Rightarrow> 's \<Rightarrow> nat \<Rightarrow> walk_error + ('s \<times> nat)" where
  "visit_boxes visit [] st walked = Inr (st, walked)"
| "visit_boxes visit ((span, body) # bs) st walked =
     (case count_box walked of
        Inl e \<Rightarrow> Inl e
      | Inr walked \<Rightarrow>
          (case visit span body st walked of Inl e \<Rightarrow> Inl e | Inr (st, walked) \<Rightarrow> visit_boxes visit bs st walked))"

lemma children_loop_boxes:
  "children_loop payload visit offset st walked = Inr r \<Longrightarrow>
     \<exists>bs. boxes payload offset = Some bs \<and> visit_boxes visit bs st walked = Inr r"
proof (induction payload visit offset st walked rule: children_loop.induct)
  case (1 payload visit offset st walked)
  show ?case
  proof (cases "offset < length payload")
    case False
    with 1(2) show ?thesis by (simp add: children_loop.simps [of payload] boxes.simps [of payload])
  next
    case True
    from 1(2) True obtain w span st' w' where w: "count_box walked = Inr w"
      and span: "read_box payload offset = Inr span" "\<not> box_to_end span"
      and visit: "visit span (case_option [] id (slice_get (box_body span) (box_end span) payload)) st w = Inr (st', w')"
      and rec: "children_loop payload visit (box_end span) st' w' = Inr r"
      by (auto simp: children_loop.simps [of payload visit offset] split: sum.splits if_splits)
    from 1(1) [OF True w span visit refl rec] obtain bs where
      "boxes payload (box_end span) = Some bs" "visit_boxes visit bs st' w' = Inr r" by blast
    with True w span visit show ?thesis by (simp add: boxes.simps [of payload offset])
  qed
qed

lemmas for_each_child_boxes = children_loop_boxes [of _ _ 0, folded for_each_child_def]

abbreviation kind_is :: "string \<Rightarrow> box_span \<times> bytes \<Rightarrow> bool" where
  "kind_is k b \<equiv> box_kind (fst b) = ascii k"

definition trun_count :: "box_span \<times> bytes \<Rightarrow> nat" where
  "trun_count b = (if kind_is ''trun'' b then be_fold (take 4 (drop 4 (snd b))) else 0)"

definition tfhd_relative :: "box_span \<times> bytes \<Rightarrow> bool" where
  "tfhd_relative b \<longleftrightarrow> kind_is ''tfhd'' b \<longrightarrow> be_fold (0 # take 3 (drop 1 (snd b))) AND 1 = 0"

lemma kinds_distinct:
  "ascii ''tfhd'' \<noteq> ascii ''tfdt''" "ascii ''trun'' \<noteq> ascii ''tfdt''" "ascii ''trun'' \<noteq> ascii ''tfhd''"
  "ascii ''mdat'' \<noteq> ascii ''moof''" "ascii ''moov'' \<noteq> ascii ''moof''"
  by code_simp+

lemma traf_child_Inr:
  assumes "traf_child span body (t, n) w = Inr ((t', n'), w')"
  shows "t' = (t \<or> kind_is ''tfdt'' (span, body)) \<and> n' = n + trun_count (span, body) \<and> w' = w \<and>
    tfhd_relative (span, body) \<and> (n \<le> MAX_SEGMENT_SAMPLES \<longrightarrow> n' \<le> MAX_SEGMENT_SAMPLES)"
proof -
  consider "kind_is ''tfdt'' (span, body)" | "kind_is ''tfhd'' (span, body)" | "kind_is ''trun'' (span, body)"
    | "\<not> kind_is ''tfdt'' (span, body)" "\<not> kind_is ''tfhd'' (span, body)" "\<not> kind_is ''trun'' (span, body)" by blast
  then show ?thesis
  proof cases
    case 1
    with assms kinds_distinct show ?thesis by (auto simp: traf_child_def trun_count_def tfhd_relative_def)
  next
    case 2
    with assms kinds_distinct show ?thesis
      by (auto simp: traf_child_def trun_count_def tfhd_relative_def Let_def split_at_checked_def drop_take
          split: option.splits if_splits)
  next
    case 3
    with assms kinds_distinct show ?thesis
      by (auto simp: traf_child_def trun_count_def tfhd_relative_def Let_def slice_get_Some_iff
          split: option.splits if_splits)
  next
    case 4
    with assms show ?thesis by (auto simp: traf_child_def trun_count_def tfhd_relative_def)
  qed
qed

lemma count_box_Inr: "count_box w = Inr w' \<longleftrightarrow> w' = w + 1 \<and> w' \<le> MAX_BOXES"
  by (auto simp: count_box_def)

lemma visit_traf:
  "visit_boxes traf_child bs (t, n) w = Inr ((t', n'), w') \<Longrightarrow>
     t' = (t \<or> list_ex (kind_is ''tfdt'') bs) \<and> n' = n + sum_list (map trun_count bs) \<and> w' = w + length bs \<and>
     list_all tfhd_relative bs \<and> (n \<le> MAX_SEGMENT_SAMPLES \<longrightarrow> n' \<le> MAX_SEGMENT_SAMPLES) \<and> (w \<le> MAX_BOXES \<longrightarrow> w' \<le> MAX_BOXES)"
proof (induction bs arbitrary: t n w)
  case (Cons b bs)
  obtain span body where b: "b = (span, body)" by (cases b)
  from Cons.prems obtain t1 n1 w1 where v: "traf_child span body (t, n) (w + 1) = Inr ((t1, n1), w1)"
    and rec: "visit_boxes traf_child bs (t1, n1) w1 = Inr ((t', n'), w')" and "w + 1 \<le> MAX_BOXES"
    by (auto simp: b count_box_Inr split: sum.splits)
  with traf_child_Inr [OF v] Cons.IH [OF rec] show ?case by (auto simp: b)
qed simp

text \<open>A track fragment the walk accepts, and the samples it declares.\<close>

definition traf_ok :: "bytes \<Rightarrow> bool" where
  "traf_ok body \<longleftrightarrow> (case boxes body 0 of
     None \<Rightarrow> False | Some bs \<Rightarrow> list_ex (kind_is ''tfdt'') bs \<and> list_all tfhd_relative bs)"

definition traf_samples :: "bytes \<Rightarrow> nat" where
  "traf_samples body = (case boxes body 0 of None \<Rightarrow> 0 | Some bs \<Rightarrow> sum_list (map trun_count bs))"

definition moof_trafs :: "bytes \<Rightarrow> bytes list" where
  "moof_trafs moof = (case boxes moof 0 of None \<Rightarrow> [] | Some bs \<Rightarrow> map snd (filter (kind_is ''traf'') bs))"

lemma visit_moof:
  "visit_boxes moof_child bs n w = Inr (n', w') \<Longrightarrow>
     list_all traf_ok (map snd (filter (kind_is ''traf'') bs)) \<and>
     n' = n + sum_list (map traf_samples (map snd (filter (kind_is ''traf'') bs))) \<and>
     (n \<le> MAX_SEGMENT_SAMPLES \<longrightarrow> n' \<le> MAX_SEGMENT_SAMPLES) \<and> w + length bs \<le> w' \<and> (w \<le> MAX_BOXES \<longrightarrow> w' \<le> MAX_BOXES)"
proof (induction bs arbitrary: n w)
  case (Cons b bs)
  obtain span body where b: "b = (span, body)" by (cases b)
  from Cons.prems obtain n1 w1 where v: "moof_child span body n (w + 1) = Inr (n1, w1)"
    and rec: "visit_boxes moof_child bs n1 w1 = Inr (n', w')" and w: "w + 1 \<le> MAX_BOXES"
    by (auto simp: b count_box_Inr split: sum.splits)
  show ?case
  proof (cases "kind_is ''traf'' b")
    case False
    with v have "n1 = n" "w1 = w + 1" by (simp_all add: moof_child_def b)
    with Cons.IH [OF rec] False w show ?thesis by auto
  next
    case True
    with v have "for_each_child body traf_child (False, n) (w + 1) = Inr ((True, n1), w1)"
      by (auto simp: moof_child_def b split: sum.splits if_splits)
    from for_each_child_boxes [OF this] obtain cs where cs: "boxes body 0 = Some cs"
      "visit_boxes traf_child cs (False, n) (w + 1) = Inr ((True, n1), w1)" by blast
    from visit_traf [OF cs(2)] Cons.IH [OF rec] True w show ?thesis
      by (auto simp: b traf_ok_def traf_samples_def cs(1))
  qed
qed simp

lemma check_moof_Inr:
  assumes "check_moof moof n w = Inr (n', w')"
  shows "list_all traf_ok (moof_trafs moof) \<and> n' = n + sum_list (map traf_samples (moof_trafs moof)) \<and>
    (n \<le> MAX_SEGMENT_SAMPLES \<longrightarrow> n' \<le> MAX_SEGMENT_SAMPLES) \<and> w \<le> w' \<and> (w \<le> MAX_BOXES \<longrightarrow> w' \<le> MAX_BOXES)"
proof -
  from for_each_child_boxes [OF assms [unfolded check_moof_def]] obtain bs where
    "boxes moof 0 = Some bs" "visit_boxes moof_child bs n w = Inr (n', w')" by blast
  with visit_moof [OF this(2)] show ?thesis by (auto simp: moof_trafs_def)
qed

subsection \<open>What an accepted segment holds\<close>

definition box_bytes :: "bytes \<Rightarrow> box_span \<Rightarrow> bytes" where
  "box_bytes bs span = case_option [] id (slice_get (box_body span) (box_end span) bs)"

definition fragment_trafs :: "bytes \<Rightarrow> nat \<Rightarrow> bytes list" where
  "fragment_trafs bs a = (case read_box bs a of Inl _ \<Rightarrow> [] | Inr moof \<Rightarrow> moof_trafs (box_bytes bs moof))"

text \<open>A \<open>moof\<close> of bounded size, directly followed by an \<open>mdat\<close>, whose track fragments are all placed in time.\<close>

definition fragment_ok :: "bytes \<Rightarrow> nat \<times> nat \<Rightarrow> bool" where
  "fragment_ok bs f \<longleftrightarrow> (case read_box bs (fst f) of
     Inl _ \<Rightarrow> False
   | Inr moof \<Rightarrow> box_kind moof = ascii ''moof'' \<and> \<not> box_to_end moof \<and> box_end moof - fst f \<le> MAX_MOOF_BYTES \<and>
       (case read_box bs (box_end moof) of
          Inl _ \<Rightarrow> False
        | Inr mdat \<Rightarrow> box_kind mdat = ascii ''mdat'' \<and> \<not> box_to_end mdat \<and> snd f = box_end mdat)) \<and>
   list_all traf_ok (fragment_trafs bs (fst f))"

definition fragment_samples :: "bytes \<Rightarrow> nat \<times> nat \<Rightarrow> nat" where
  "fragment_samples bs f = sum_list (map traf_samples (fragment_trafs bs (fst f)))"

definition fragments_inv :: "bytes \<Rightarrow> nat \<Rightarrow> nat \<Rightarrow> (nat \<times> nat) list \<Rightarrow> bool" where
  "fragments_inv bs offset samples fragments \<longleftrightarrow>
     list_all (fragment_ok bs) fragments \<and> sorted_wrt (\<lambda>f g. snd f \<le> fst g) fragments \<and>
     list_all (\<lambda>f. fst f < snd f \<and> snd f \<le> offset) fragments \<and> length fragments \<le> MAX_FRAGMENTS \<and>
     samples = sum_list (map (fragment_samples bs) fragments) \<and> samples \<le> MAX_SEGMENT_SAMPLES"

lemma fragments_inv_mono: "fragments_inv bs offset n fs \<Longrightarrow> offset \<le> offset' \<Longrightarrow> fragments_inv bs offset' n fs"
  by (auto simp: fragments_inv_def list_all_iff)

lemma fragments_inv_push:
  assumes inv: "fragments_inv bs offset n fs" and moof: "read_box bs offset = Inr moof" "box_kind moof = ascii ''moof''"
    "\<not> box_to_end moof" "box_end moof - box_start moof \<le> MAX_MOOF_BYTES"
    and check: "check_moof (box_bytes bs moof) n w = Inr (n', w')"
    and mdat: "read_box bs (box_end moof) = Inr mdat" "box_kind mdat = ascii ''mdat''" "\<not> box_to_end mdat"
    and room: "length fs < MAX_FRAGMENTS"
  shows "fragments_inv bs (box_end mdat) n' (fs @ [(box_start moof, box_end mdat)])"
proof -
  note b = read_box_bounds [OF moof(1)] read_box_bounds [OF mdat(1)]
  have trafs: "fragment_trafs bs offset = moof_trafs (box_bytes bs moof)" by (simp add: fragment_trafs_def moof(1))
  with check_moof_Inr [OF check] inv have n': "n' = sum_list (map (fragment_samples bs) (fs @ [(offset, box_end mdat)]))"
    "n' \<le> MAX_SEGMENT_SAMPLES"
    by (simp_all add: fragments_inv_def fragment_samples_def)
  have "fragment_ok bs (offset, box_end mdat)"
    using moof mdat b check_moof_Inr [OF check] by (simp add: fragment_ok_def trafs)
  with n' inv b room show ?thesis
    by (auto simp: fragments_inv_def sorted_wrt_append list_all_iff)
qed

lemma fragments_loop_inv:
  "fragments_inv bs offset samples fragments \<Longrightarrow>
     fragments_loop bs offset walked samples fragments report = (fs, Inr report') \<Longrightarrow> offset \<le> length bs \<Longrightarrow>
     (\<exists>n. fragments_inv bs (length bs) n fs) \<and> fs \<noteq> []"
proof (induction bs offset walked samples fragments report rule: fragments_loop.induct)
  case (1 bs offset walked samples fragments report)
  show ?case
  proof (cases "offset < length bs")
    case False
    with 1(3-5) show ?thesis
      by (auto simp: fragments_loop.simps [of bs offset] split: if_splits)
  next
    case True
    from 1(4) True obtain w span where w: "count_box walked = Inr w" and span: "read_box bs offset = Inr span"
      by (auto simp: fragments_loop.simps [of bs offset] split: sum.splits)
    note b = read_box_bounds [OF span]
    show ?thesis
    proof (cases "box_kind span = ascii ''moof''")
      case moof: True
      note guards = 1(4) [unfolded fragments_loop.simps [of bs offset] if_P [OF True] w span sum.case if_P [OF moof], folded box_bytes_def]
      then obtain n' w' mdat where g: "\<not> box_to_end span" "\<not> box_end span - box_start span > MAX_MOOF_BYTES"
        and check: "check_moof (box_bytes bs span) samples w = Inr (n', w')"
        and g': "\<not> box_end span \<ge> length bs" and mdat: "read_box bs (box_end span) = Inr mdat"
        and g'': "\<not> box_kind mdat \<noteq> ascii ''mdat''" "\<not> box_to_end mdat" "\<not> length fragments \<ge> MAX_FRAGMENTS"
        and rec: "fragments_loop bs (box_end mdat) w' n' (fragments @ [(box_start span, box_end mdat)]) report = (fs, Inr report')"
        by (auto split: sum.splits if_splits)
      have "fragments_inv bs (box_end mdat) n' (fragments @ [(box_start span, box_end mdat)])"
        using g g'' by (intro fragments_inv_push [OF 1(3) span moof _ _ check mdat]) auto
      from 1(1) [OF True w span moof g check [unfolded box_bytes_def] refl g' mdat g'' this rec]
        read_box_bounds [OF mdat] show ?thesis by simp
    next
      case False
      with 1(4) True w span have rec: "fragments_loop bs (box_end span) w samples fragments
          (if box_kind span \<in> set KNOWN_SKIPPED \<or> first_unknown report \<noteq> None then report
           else report\<lparr>first_unknown := Some (box_kind span)\<rparr>) = (fs, Inr report')"
        and nm: "box_kind span \<noteq> ascii ''mdat''"
        by (auto simp: fragments_loop.simps [of bs offset] split: if_splits)
      have "fragments_inv bs (box_end span) samples fragments"
        using 1(3) b by (auto intro: fragments_inv_mono)
      from 1(2) [OF True w span False nm this rec] b show ?thesis by simp
    qed
  qed
qed

lemma media_fragments_spans:
  assumes "media_fragments bs = (fragments, Inr report)"
  shows "list_all (\<lambda>f. fst f < snd f \<and> snd f \<le> length bs) fragments"
proof -
  have "fragments_inv bs 0 0 []" by (simp add: fragments_inv_def MAX_FRAGMENTS_def MAX_SEGMENT_SAMPLES_def)
  from fragments_loop_inv [OF this assms [unfolded media_fragments_def]] show ?thesis
    by (auto simp: fragments_inv_def)
qed

text \<open>
  C8. The fragments of an accepted media segment are between one and 64 ordered, disjoint and
  non-empty ranges of the object, each a \<open>moof\<close> of at most 256 KiB directly followed by its
  \<open>mdat\<close>; every track fragment in them carries a decode time and no explicit base offset, and
  the segment declares at most 16384 samples.
\<close>

theorem media_fragments_sound:
  assumes "media_fragments bs = (fragments, Inr report)"
  shows "fragments \<noteq> [] \<and> length fragments \<le> MAX_FRAGMENTS \<and> list_all (fragment_ok bs) fragments \<and>
    sorted_wrt (\<lambda>f g. snd f \<le> fst g) fragments \<and> list_all (\<lambda>f. fst f < snd f \<and> snd f \<le> length bs) fragments \<and>
    sum_list (map (fragment_samples bs) fragments) \<le> MAX_SEGMENT_SAMPLES"
proof -
  have "fragments_inv bs 0 0 []" by (simp add: fragments_inv_def MAX_FRAGMENTS_def MAX_SEGMENT_SAMPLES_def)
  from fragments_loop_inv [OF this assms [unfolded media_fragments_def]] show ?thesis
    by (auto simp: fragments_inv_def)
qed

definition sample_segment :: bytes where
  "sample_segment =
     [0, 0, 0, 8] @ ascii ''styp'' @
     [0, 0, 0, 24] @ ascii ''moof'' @ [0, 0, 0, 16] @ ascii ''traf'' @ [0, 0, 0, 8] @ ascii ''tfdt'' @
     [0, 0, 0, 9] @ ascii ''mdat'' @ [7]"

lemmas box_eval = read_box_def first_chunk_at_def slice_from_def slice_get_def split_at_checked_def be_fold_foldl
  count_box_def box_bytes_def Let_def

lemma ascii_eval:
  "ascii ''styp'' = [0x73, 0x74, 0x79, 0x70]" "ascii ''moof'' = [0x6D, 0x6F, 0x6F, 0x66]"
  "ascii ''traf'' = [0x74, 0x72, 0x61, 0x66]" "ascii ''tfdt'' = [0x74, 0x66, 0x64, 0x74]"
  "ascii ''mdat'' = [0x6D, 0x64, 0x61, 0x74]"
  by code_simp+

lemma sample_segment_walk: "media_fragments sample_segment = ([(8, 41)], Inr \<lparr>first_unknown = None\<rparr>)"
proof -
  have known: "ascii ''styp'' \<in> set KNOWN_SKIPPED" by (simp add: KNOWN_SKIPPED_def)
  have moof: "check_moof [0, 0, 0, 16, 0x74, 0x72, 0x61, 0x66, 0, 0, 0, 8, 0x74, 0x66, 0x64, 0x74] 0 (Suc (Suc 0)) = Inr (0, 4)"
    by (simp add: check_moof_def for_each_child_def children_loop.simps moof_child_def traf_child_def box_eval ascii_eval MAX_BOXES_def)
  show ?thesis
    using known moof
    by (simp add: media_fragments_def fragments_loop.simps sample_segment_def box_eval ascii_eval MAX_BOXES_def
        MAX_MOOF_BYTES_def MAX_FRAGMENTS_def)
qed

theorem media_fragments_sound_witness:
  "list_all (fragment_ok sample_segment) [(8, 41)] \<and> media_fragments sample_segment = ([(8, 41)], Inr \<lparr>first_unknown = None\<rparr>)"
  using media_fragments_sound [OF sample_segment_walk] sample_segment_walk by blast

text \<open>An object taken for an init segment has a \<open>moov\<close> box inside it.\<close>

lemma init_segment_has_moov:
  assumes "is_init_segment bs"
  shows "\<exists>a b. moov_range bs = Inr (a, b) \<and> a < b \<and> b \<le> length bs \<and>
    (\<exists>span. read_box bs a = Inr span \<and> box_kind span = ascii ''moov'' \<and> box_end span = b)"
proof -
  have "init_loop bs offset \<Longrightarrow> \<exists>a b. moov_loop bs offset = Inr (a, b) \<and> a < b \<and> b \<le> length bs \<and>
      (\<exists>span. read_box bs a = Inr span \<and> box_kind span = ascii ''moov'' \<and> box_end span = b)" for offset
  proof (induction bs offset rule: init_loop.induct)
    case (1 bs offset)
    then obtain span where len: "offset < length bs" and span: "read_box bs offset = Inr span"
      by (auto simp: init_loop.simps [of bs offset] split: if_splits sum.splits)
    show ?case
    proof (cases "box_kind span = ascii ''moov''")
      case True
      with len span read_box_bounds [OF span] show ?thesis by (auto simp: moov_loop.simps [of bs offset])
    next
      case False
      with 1(2) len span have "box_kind span \<noteq> ascii ''moof''" "init_loop bs (box_end span)"
        by (auto simp: init_loop.simps [of bs offset] split: if_splits)
      with 1(1) [OF len span False] len span False show ?thesis by (simp add: moov_loop.simps [of bs offset])
    qed
  qed
  with assms show ?thesis by (simp add: is_init_segment_def moov_range_def)
qed

end
