(* ===== verification/Fmp4_Sample.thy ===== *)
theory Fmp4_Sample
  imports Aac Avcc Media_Packet
begin

text \<open>
  The samples of an fMP4 fragment (\<open>ingest_publisher/fmp4.rs\<close>): planning a fragment (decode order
  across tracks, and the byte position whose arrival releases each sample) and converting one
  sample into the packet an MPEG-TS input would carry. A sample is what the external fMP4 demuxer
  returns for a fragment: its track, times, flags and where its data lies.
\<close>

datatype video_nal = Nal_H264 | Nal_H265

definition is_sps :: "video_nal \<Rightarrow> u8 \<Rightarrow> bool" where
  "is_sps nal header =
     (case nal of Nal_H264 \<Rightarrow> header AND 0x1F = 7 | Nal_H265 \<Rightarrow> drop_bit 1 header AND 0x3F = 33)"

datatype fmp4_codec = Codec_Video video_nal nat bytes | Codec_Aac adts_config

record fmp4_track =
  trk_id :: nat
  trk_media_type :: media_type
  trk_index :: nat
  trk_codec :: fmp4_codec

record fmp4_sample =
  smp_track_id :: nat
  smp_timescale :: nat
  smp_timestamp :: nat
  smp_composition_time_offset :: "int option"
  smp_keyframe :: bool
  smp_data_offset :: nat
  smp_data_size :: nat

record sample_plan =
  plan_track :: nat
  plan_timescale :: nat
  plan_timestamp :: nat
  plan_dts_ms :: int
  plan_composition_offset :: int
  plan_keyframe :: bool
  plan_offset :: nat
  plan_size :: nat
  plan_release_at :: nat

subsection \<open>Time\<close>

definition i128_ok :: "int \<Rightarrow> bool" where
  "i128_ok v \<longleftrightarrow> - (2 ^ 127) \<le> v \<and> v < 2 ^ 127"

definition ticks_to_ms :: "int \<Rightarrow> nat \<Rightarrow> int option" where
  "ticks_to_ms ticks timescale =
     (if timescale = 0 then None
      else if \<not> i128_ok (ticks * 1000) then None
      else
        let scaled = ticks * 1000 + int timescale div 2
        in if \<not> i128_ok scaled then None
           else
             let ms = scaled div int timescale
             in if i64_MIN \<le> ms \<and> ms \<le> i64_MAX then Some ms else None)"

subsection \<open>Converting a sample\<close>

definition START_CODE :: bytes where
  "START_CODE = [0, 0, 0, 1]"

text \<open>The first pass over an access unit: whether it has a random-access picture and a sequence parameter set.\<close>

definition scan_visit :: "video_nal \<Rightarrow> bytes \<Rightarrow> bool \<times> bool \<Rightarrow> bool \<times> bool" where
  "scan_visit nal nalu = (\<lambda>(irap, has_sps).
     let header = (case nalu of [] \<Rightarrow> 0 | b # _ \<Rightarrow> b);
         t = drop_bit 1 header AND 0x3F
     in (irap \<or> (16 \<le> t \<and> t \<le> 23), has_sps \<or> is_sps nal header))"

definition convert_video :: "video_nal \<Rightarrow> nat \<Rightarrow> bytes \<Rightarrow> bool \<Rightarrow> bytes \<Rightarrow> media_rejection + (bool \<times> bytes)" where
  "convert_video nal nalu_length_size parameter_sets key data =
     (let (is_framed, irap, has_sps) = for_each_length_prefixed nalu_length_size data (scan_visit nal) (False, False)
      in if \<not> is_framed then Inl (Malformed ''video sample ends inside a NALU length field or is empty'')
         else
           let key = (if nal = Nal_H265 then key \<and> irap else key);
               inject = (key \<and> \<not> has_sps);
               (_, body) = for_each_length_prefixed nalu_length_size data
                 (\<lambda>nalu out. out @ START_CODE @ nalu) (if inject then parameter_sets else [])
           in Inr (key, body))"

definition convert_sample ::
    "fmp4_track \<Rightarrow> nat \<Rightarrow> nat \<Rightarrow> int \<Rightarrow> bool \<Rightarrow> bytes \<Rightarrow> media_rejection + media_packet" where
  "convert_sample track timescale timestamp composition_offset key data =
     (case (ticks_to_ms (int timestamp) timescale,
            if i128_ok (int timestamp + composition_offset)
            then ticks_to_ms (int timestamp + composition_offset) timescale else None) of
        (Some dts_ms, Some pts_ms) \<Rightarrow>
          (case (case trk_codec track of
                   Codec_Video nal nalu_length_size parameter_sets \<Rightarrow>
                     convert_video nal nalu_length_size parameter_sets key data
                 | Codec_Aac adts \<Rightarrow>
                     (case build_adts_header_for (length data) (object_type adts) (freq_index adts) (channel_config adts) of
                        None \<Rightarrow> Inl (Malformed (''AAC frame of '' @ show_nat (length data) @ '' bytes does not fit ADTS''))
                      | Some header \<Rightarrow> Inr (key, header @ data))) of
             Inl e \<Rightarrow> Inl e
           | Inr (key, body) \<Rightarrow>
               Inr \<lparr>media_type = trk_media_type track, format = Raw,
                    is_keyframe = (trk_media_type track = Video \<and> key),
                    track_index = trk_index track, pts = pts_ms, dts = dts_ms, payload = body\<rparr>)
      | _ \<Rightarrow> Inl (Malformed ''fMP4 sample timestamp is out of range''))"

subsection \<open>Planning a fragment\<close>

fun plan_samples :: "fmp4_track list \<Rightarrow> nat \<Rightarrow> fmp4_sample list \<Rightarrow> media_rejection + sample_plan list" where
  "plan_samples tracks fragment_end [] = Inr []"
| "plan_samples tracks fragment_end (s # samples) =
     (case position_from (\<lambda>t. trk_id t = smp_track_id s) 0 tracks of
        None \<Rightarrow> plan_samples tracks fragment_end samples
      | Some track \<Rightarrow>
          (case ticks_to_ms (int (smp_timestamp s)) (smp_timescale s) of
             None \<Rightarrow> Inl (Malformed ''fMP4 sample timestamp is out of range'')
           | Some dts_ms \<Rightarrow>
               (case checked_le usize_MAX (smp_data_offset s) of
                  None \<Rightarrow> Inl (Malformed ''fMP4 sample runs past its fragment'')
                | Some offset \<Rightarrow>
                    (case plan_samples tracks fragment_end samples of
                       Inl e \<Rightarrow> Inl e
                     | Inr plans \<Rightarrow> Inr
                         (\<lparr>plan_track = track, plan_timescale = smp_timescale s, plan_timestamp = smp_timestamp s,
                           plan_dts_ms = dts_ms,
                           plan_composition_offset = case_option 0 id (smp_composition_time_offset s),
                           plan_keyframe = smp_keyframe s, plan_offset = offset, plan_size = smp_data_size s,
                           plan_release_at = fragment_end\<rparr> # plans)))))"

fun set_release :: "nat \<Rightarrow> nat \<Rightarrow> sample_plan list \<Rightarrow> sample_plan list" where
  "set_release fragment_end release_at [] = []"
| "set_release fragment_end release_at (p # ps) =
     (let release_at = min (saturating_add usize_MAX release_at (plan_size p)) fragment_end
      in p\<lparr>plan_release_at := release_at\<rparr> # set_release fragment_end release_at ps)"

definition plan_fragment :: "fmp4_track list \<Rightarrow> fmp4_sample list \<Rightarrow> nat \<times> nat \<Rightarrow> media_rejection + sample_plan list" where
  "plan_fragment tracks samples span =
     (case plan_samples tracks (snd span) samples of
        Inl e \<Rightarrow> Inl e
      | Inr plans \<Rightarrow> Inr (set_release (snd span) (fst span) (sort_key plan_dts_ms plans)))"

subsection \<open>Lemmas on time\<close>

lemma rounding_error:
  "(t :: int) + h = m + r \<Longrightarrow> 0 \<le> r \<Longrightarrow> r < s \<Longrightarrow> s - 1 \<le> 2 * h \<Longrightarrow> 2 * h \<le> s \<Longrightarrow> 2 * \<bar>m - t\<bar> \<le> s"
  by presburger

text \<open>The nearest millisecond: at most half of one away, in ticks of the timescale.\<close>

lemma ticks_to_ms_nearest:
  assumes "ticks_to_ms ticks timescale = Some ms"
  shows "0 < timescale \<and> 2 * \<bar>ms * int timescale - ticks * 1000\<bar> \<le> int timescale"
proof -
  let ?ts = "int timescale"
  from assms have ts: "0 < ?ts" and ms: "ms = (ticks * 1000 + ?ts div 2) div ?ts"
    by (auto simp: ticks_to_ms_def Let_def split: if_splits)
  have "ticks * 1000 + ?ts div 2 = ms * ?ts + (ticks * 1000 + ?ts div 2) mod ?ts"
    unfolding ms by (simp add: div_mult_mod_eq)
  moreover have "0 \<le> (ticks * 1000 + ?ts div 2) mod ?ts" "(ticks * 1000 + ?ts div 2) mod ?ts < ?ts" using ts by simp_all
  moreover have "?ts - 1 \<le> 2 * (?ts div 2)" "2 * (?ts div 2) \<le> ?ts" by presburger+
  ultimately have "2 * \<bar>ms * ?ts - ticks * 1000\<bar> \<le> ?ts" by (rule rounding_error)
  with ts show ?thesis by simp
qed

lemma ticks_to_ms_mono:
  assumes "ticks_to_ms a timescale = Some x" and "ticks_to_ms b timescale = Some y" and "a \<le> b"
  shows "x \<le> y"
  using assms by (auto simp: ticks_to_ms_def Let_def zdiv_mono1 split: if_splits)

text \<open>A demuxed time of an \<open>u64\<close> tick count with an \<open>i64\<close> offset never leaves the 128-bit range.\<close>

lemma ticks_to_ms_in_range:
  assumes "- (2 ^ 64) \<le> ticks" and "ticks < 2 ^ 65" and "0 < timescale" and "timescale < 2 ^ 32"
  shows "ticks_to_ms ticks timescale =
    (let ms = (ticks * 1000 + int timescale div 2) div int timescale
     in if i64_MIN \<le> ms \<and> ms \<le> i64_MAX then Some ms else None)"
  using assms by (auto simp: ticks_to_ms_def i128_ok_def Let_def)

subsection \<open>The access units of a sample\<close>

lemma for_each_length_prefixed_fold:
  "(\<exists>ns. length_prefixed_units n au = Some ns \<and> for_each_length_prefixed n au visit st = (True, fold visit ns st)) \<or>
   length_prefixed_units n au = None \<and> fst (for_each_length_prefixed n au visit st) = False"
proof (induction "length au" arbitrary: au st rule: less_induct)
  case less
  show ?case
  proof (cases "1 \<le> n \<and> n \<le> 4")
    case False
    then show ?thesis by (simp add: length_prefixed_units_def for_each_length_prefixed.simps [of n au])
  next
    case n: True
    then have framing: "framing_loop (put_nalu n) (take_length_prefixed n) (fits n) (length_prefixed_units n)"
      by (intro length_prefixed_framing) auto
    show ?thesis
    proof (cases "au = []")
      case True
      with n framing_loop.decode_all_Nil [OF framing] show ?thesis
        by (simp add: for_each_length_prefixed.simps [of n "[]"])
    next
      case au: False
      note step = framing_loop.decode_all_step [OF framing au]
      show ?thesis
      proof (cases "take_length_prefixed n au")
        case None
        with n au step show ?thesis by (simp add: for_each_length_prefixed.simps [of n au])
      next
        case (Some p)
        obtain nalu rest where p: "p = (nalu, rest)" by (cases p)
        from take_length_prefixed_shorter Some p have "length rest < length au" by simp
        from less [OF this, of "visit nalu st"] n au step Some p show ?thesis
          by (auto simp: for_each_length_prefixed.simps [of n au])
      qed
    qed
  qed
qed

definition nalu_header :: "bytes \<Rightarrow> u8" where
  "nalu_header nalu = (case nalu of [] \<Rightarrow> 0 | b # _ \<Rightarrow> b)"

definition irap_nalu :: "bytes \<Rightarrow> bool" where
  "irap_nalu nalu \<longleftrightarrow> 16 \<le> drop_bit 1 (nalu_header nalu) AND 0x3F \<and> drop_bit 1 (nalu_header nalu) AND 0x3F \<le> 23"

lemma fold_scan_visit:
  "fold (scan_visit nal) ns (irap, has_sps) =
     (irap \<or> list_ex irap_nalu ns, has_sps \<or> list_ex (\<lambda>n. is_sps nal (nalu_header n)) ns)"
  by (induction ns arbitrary: irap has_sps) (auto simp: scan_visit_def irap_nalu_def nalu_header_def Let_def)

lemma fold_start_codes: "fold (\<lambda>nalu out. out @ START_CODE @ nalu) ns out = out @ join_nalus ns"
  by (induction ns arbitrary: out) (simp_all add: START_CODE_def annexb_nalu_def)

text \<open>A published keyframe: an HEVC sample must also carry a random-access picture.\<close>

definition sample_is_key :: "video_nal \<Rightarrow> bool \<Rightarrow> bytes list \<Rightarrow> bool" where
  "sample_is_key nal key ns \<longleftrightarrow> key \<and> (nal = Nal_H265 \<longrightarrow> list_ex irap_nalu ns)"

lemma convert_video_eq:
  "convert_video nal n sets key data =
     (case length_prefixed_units n data of
        None \<Rightarrow> Inl (Malformed ''video sample ends inside a NALU length field or is empty'')
      | Some ns \<Rightarrow> Inr (sample_is_key nal key ns,
          (if sample_is_key nal key ns \<and> \<not> list_ex (\<lambda>n. is_sps nal (nalu_header n)) ns then sets else []) @ join_nalus ns))"
proof (cases "length_prefixed_units n data")
  case None
  then have "fst (for_each_length_prefixed n data (scan_visit nal) (False, False)) = False"
    using for_each_length_prefixed_fold [of n data "scan_visit nal" "(False, False)"] by simp
  with None show ?thesis
    by (cases "for_each_length_prefixed n data (scan_visit nal) (False, False)") (simp add: convert_video_def split_beta)
next
  case (Some ns)
  then have scan: "for_each_length_prefixed n data (scan_visit nal) st = (True, fold (scan_visit nal) ns st)" for st
    using for_each_length_prefixed_fold [of n data "scan_visit nal" st] by simp
  from Some have copy: "for_each_length_prefixed n data (\<lambda>nalu out. out @ START_CODE @ nalu) st =
      (True, fold (\<lambda>nalu out. out @ START_CODE @ nalu) ns st)" for st
    using for_each_length_prefixed_fold [of n data "\<lambda>nalu out. out @ START_CODE @ nalu" st] by simp
  show ?thesis
    unfolding convert_video_def scan copy fold_scan_visit Some
    by (simp add: sample_is_key_def fold_start_codes Let_def)
qed

text \<open>An empty sample is well framed: it becomes a packet without NAL units of its own.\<close>

lemma empty_video_sample:
  assumes "1 \<le> n" and "n \<le> 4"
  shows "convert_video Nal_H264 n sets key [] = Inr (key, if key then sets else [])"
  using framing_loop.decode_all_Nil [OF length_prefixed_framing [OF assms]]
  by (simp add: convert_video_eq sample_is_key_def)

lemma framed_append2: "framed (xs @ ys) \<Longrightarrow> framed ys"
  by (induction xs) (auto simp: framed_Cons)

lemma convert_sample_video:
  assumes "trk_codec track = Codec_Video nal n sets"
    and "convert_sample track timescale timestamp offset key data = Inr p"
  obtains ns where "length_prefixed_units n data = Some ns"
    and "ticks_to_ms (int timestamp) timescale = Some (dts p)"
    and "ticks_to_ms (int timestamp + offset) timescale = Some (pts p)"
    and "is_keyframe p = (trk_media_type track = Video \<and> sample_is_key nal key ns)"
    and "payload p = (if sample_is_key nal key ns \<and> \<not> list_ex (\<lambda>n. is_sps nal (nalu_header n)) ns then sets else []) @ join_nalus ns"
  using assms
  by (auto simp: convert_sample_def convert_video_eq split: option.splits if_splits)


definition sample_track :: fmp4_track where
  "sample_track = \<lparr>trk_id = 1, trk_media_type = Video, trk_index = 0,
     trk_codec = Codec_Video Nal_H264 4 (join_nalus [[0x67, 1], [0x68, 2]])\<rparr>"

lemma sample_units: "length_prefixed_units 4 [0, 0, 0, 2, 0x65, 5] = Some [[0x65, 5]]"
  by code_simp

lemma sample_convert:
  "convert_sample sample_track 90000 90000 3000 True [0, 0, 0, 2, 0x65, 5] = Inr
     \<lparr>media_type = Video, format = Raw, is_keyframe = True, track_index = 0, pts = 1033, dts = 1000,
      payload = [0, 0, 0, 1, 0x67, 1, 0, 0, 0, 1, 0x68, 2, 0, 0, 0, 1, 0x65, 5]\<rparr>"
  by (simp add: convert_sample_def sample_track_def convert_video_eq sample_units ticks_to_ms_def i128_ok_def max_defs
      sample_is_key_def nalu_header_def is_sps_def annexb_nalu_def)


subsection \<open>Lemmas on plans\<close>

lemma set_release_bounds:
  "list_all (\<lambda>p. plan_release_at p \<le> fragment_end) (set_release fragment_end release_at ps)"
  by (induction ps arbitrary: release_at) (simp_all add: Let_def)

lemma length_set_release [simp]: "length (set_release fragment_end release_at ps) = length ps"
  by (induction ps arbitrary: release_at) (simp_all add: Let_def)

lemma map_dts_set_release [simp]: "map plan_dts_ms (set_release fragment_end release_at ps) = map plan_dts_ms ps"
  by (induction ps arbitrary: release_at) (simp_all add: Let_def)

lemma set_release_sorted:
  "release_at \<le> fragment_end \<Longrightarrow> fragment_end \<le> usize_MAX \<Longrightarrow>
     sorted (map plan_release_at (set_release fragment_end release_at ps)) \<and>
     (\<forall>p \<in> set (set_release fragment_end release_at ps). release_at \<le> plan_release_at p)"
proof (induction ps arbitrary: release_at)
  case (Cons p ps)
  let ?r = "min (saturating_add usize_MAX release_at (plan_size p)) fragment_end"
  have "release_at \<le> ?r" using Cons.prems by (simp add: saturating_add_def)
  with Cons.IH [of ?r] Cons.prems show ?case by (fastforce simp: Let_def)
qed simp

lemma plan_fragment_Inr:
  assumes "plan_fragment tracks samples span = Inr plans"
  shows "list_all (\<lambda>p. plan_release_at p \<le> snd span) plans \<and> sorted (map plan_dts_ms plans)"
  using assms set_release_bounds [of "snd span" "fst span"]
  by (auto simp: plan_fragment_def split: sum.splits)

end
