(* ===== verification/Fmp4_Demux.thy ===== *)
theory Fmp4_Demux
  imports Fmp4_Boxes Fmp4_Sample
begin

text \<open>
  The fMP4 demux of an HLS ingest session (\<open>Fmp4Demux\<close> of \<open>ingest_publisher/fmp4.rs\<close>): a media
  segment arrives whole, and the chunks that follow pace how many of its samples are converted.

  The external fMP4 demuxer is the argument \<open>handle\<close>: its state and a fragment give its next
  state and the fragment's samples or an error text. Each operation returns the state next to its
  result, because the source keeps what it had done when it fails.
\<close>

record 'd fmp4_init =
  ini_demuxer :: 'd
  ini_tracks :: "fmp4_track list"

record releasing =
  rel_range :: "nat \<times> nat"
  rel_plans :: "sample_plan list"
  rel_next :: nat

record fmp4_object =
  obj_bytes :: bytes
  obj_next_fragment :: nat
  obj_arrived :: nat
  obj_releasing :: "releasing option"

record 'd fmp4_demux =
  fd_init :: "'d fmp4_init option"
  fd_object :: "fmp4_object option"
  fd_fragments :: "(nat \<times> nat) list"
  fd_output :: "media_packet list"
  fd_unknown_logged :: bool

definition MAX_SAMPLES_PER_STEP :: nat where
  "MAX_SAMPLES_PER_STEP = 256"

subsection \<open>Releasing the samples of a fragment\<close>

definition convert_plan :: "fmp4_track list \<Rightarrow> bytes \<Rightarrow> sample_plan \<Rightarrow> media_rejection + media_packet" where
  "convert_plan tracks fragment plan =
     (case list_get tracks (plan_track plan) of
        None \<Rightarrow> Inl (Malformed ''fMP4 sample of an unknown track'')
      | Some track \<Rightarrow>
          (case Option.bind (checked_le usize_MAX (plan_offset plan + plan_size plan))
                  (\<lambda>e. slice_get (plan_offset plan) e fragment) of
             None \<Rightarrow> Inl (Malformed ''fMP4 sample runs past its fragment'')
           | Some data \<Rightarrow>
               convert_sample track (plan_timescale plan) (plan_timestamp plan) (plan_composition_offset plan)
                 (plan_keyframe plan) data))"

text \<open>
  The inner loop: convert released plans while the budget lasts. The result is the error that
  stopped it, the budget left, the index of the next plan and the packets.
\<close>

fun release_loop ::
    "fmp4_track list \<Rightarrow> bytes \<Rightarrow> nat \<Rightarrow> sample_plan list \<Rightarrow> nat \<Rightarrow> nat \<Rightarrow> media_packet list \<Rightarrow>
     media_rejection option \<times> nat \<times> nat \<times> media_packet list" where
  "release_loop tracks fragment arrived [] budget nxt out = (None, budget, nxt, out)"
| "release_loop tracks fragment arrived (plan # plans) budget nxt out =
     (if budget > 0 \<and> plan_release_at plan \<le> arrived then
        case convert_plan tracks fragment plan of
          Inl e \<Rightarrow> (Some e, budget, nxt, out)
        | Inr p \<Rightarrow> release_loop tracks fragment arrived plans (budget - 1) (nxt + 1) (out @ [p])
      else (None, budget, nxt, out))"

subsection \<open>Advancing through the fragments\<close>

datatype 'd opened = Stop | Fail media_rejection 'd | Opened 'd fmp4_object nat

definition open_fragment ::
    "('d \<Rightarrow> bytes \<Rightarrow> 'd \<times> (string + fmp4_sample list)) \<Rightarrow> fmp4_track list \<Rightarrow> (nat \<times> nat) list \<Rightarrow>
     'd \<Rightarrow> fmp4_object \<Rightarrow> nat \<Rightarrow> 'd opened" where
  "open_fragment handle tracks fragments d obj budget =
     (case list_get fragments (obj_next_fragment obj) of
        None \<Rightarrow> Stop
      | Some span \<Rightarrow>
          if fst span \<ge> obj_arrived obj \<or> budget = 0 then Stop
          else case slice_get (fst span) (snd span) (obj_bytes obj) of
            None \<Rightarrow> Fail (Malformed ''fMP4 fragment runs past the object'') d
          | Some fragment \<Rightarrow>
              (case handle d fragment of
                 (d, Inl e) \<Rightarrow> Fail (Malformed (''fMP4 fragment at byte '' @ show_nat (fst span) @ '': '' @ e)) d
               | (d, Inr samples) \<Rightarrow>
                   (case plan_fragment tracks samples span of
                      Inl e \<Rightarrow> Fail e d
                    | Inr plans \<Rightarrow>
                        Opened d (obj\<lparr>obj_releasing := Some \<lparr>rel_range = span, rel_plans = plans, rel_next = 0\<rparr>\<rparr>)
                          (budget - max (length plans) 1))))"

lemma open_fragment_Opened:
  assumes "open_fragment handle tracks fragments d obj budget = Opened d' obj' budget'"
  shows "obj_next_fragment obj < length fragments \<and> obj_next_fragment obj' = obj_next_fragment obj"
  using assms by (auto simp: open_fragment_def list_get_Some_iff split: option.splits if_splits sum.splits prod.splits)

function advance_loop ::
    "('d \<Rightarrow> bytes \<Rightarrow> 'd \<times> (string + fmp4_sample list)) \<Rightarrow> fmp4_track list \<Rightarrow> (nat \<times> nat) list \<Rightarrow>
     'd \<Rightarrow> fmp4_object \<Rightarrow> media_packet list \<Rightarrow> nat \<Rightarrow> media_rejection option \<times> 'd \<times> fmp4_object \<times> media_packet list" where
  "advance_loop handle tracks fragments d obj out budget =
     (case (if obj_releasing obj = None then open_fragment handle tracks fragments d obj budget
            else Opened d obj budget) of
        Stop \<Rightarrow> (None, d, obj, out)
      | Fail e d \<Rightarrow> (Some e, d, obj, out)
      | Opened d obj budget \<Rightarrow>
          (case obj_releasing obj of
             None \<Rightarrow> (None, d, obj, out)
           | Some rel \<Rightarrow>
               (case slice_get (fst (rel_range rel)) (snd (rel_range rel)) (obj_bytes obj) of
                  None \<Rightarrow> (Some (Malformed ''fMP4 fragment runs past the object''), d, obj, out)
                | Some fragment \<Rightarrow>
                    (case release_loop tracks fragment (obj_arrived obj) (drop (rel_next rel) (rel_plans rel))
                            budget (rel_next rel) out of
                       (Some e, budget, nxt, out) \<Rightarrow>
                         (Some e, d, obj\<lparr>obj_releasing := Some (rel\<lparr>rel_next := nxt\<rparr>)\<rparr>, out)
                     | (None, budget, nxt, out) \<Rightarrow>
                         if nxt < length (rel_plans rel) then
                           (None, d, obj\<lparr>obj_releasing := Some (rel\<lparr>rel_next := nxt\<rparr>)\<rparr>, out)
                         else advance_loop handle tracks fragments d
                           (obj\<lparr>obj_next_fragment := obj_next_fragment obj + 1, obj_releasing := None\<rparr>) out budget))))"
  by pat_completeness auto
termination
proof (relation "measure (\<lambda>(handle, tracks, fragments, d, obj, out, budget).
    length fragments - obj_next_fragment obj + (if obj_releasing obj = None then 0 else 1))", goal_cases)
  case (2 handle tracks fragments d obj out budget d' obj' budget' rel fragment)
  then show ?case
    using open_fragment_Opened [of handle tracks fragments d obj budget d' obj' budget']
    by (auto split: if_splits)
qed simp

declare advance_loop.simps [simp del]

definition advance ::
    "('d \<Rightarrow> bytes \<Rightarrow> 'd \<times> (string + fmp4_sample list)) \<Rightarrow> 'd fmp4_demux \<Rightarrow> nat \<Rightarrow> media_rejection option \<times> 'd fmp4_demux" where
  "advance handle s budget =
     (case fd_object s of
        None \<Rightarrow> (None, s)
      | Some obj \<Rightarrow>
          (case fd_init s of
             None \<Rightarrow> (Some (Malformed ''fMP4 media segment before its init segment''), s)
           | Some init \<Rightarrow>
               (case advance_loop handle (ini_tracks init) (fd_fragments s) (ini_demuxer init) obj (fd_output s) budget of
                  (err, d, obj, out) \<Rightarrow>
                    (err, s\<lparr>fd_init := Some (init\<lparr>ini_demuxer := d\<rparr>), fd_object := Some obj, fd_output := out\<rparr>))))"

subsection \<open>The operations of a session\<close>

definition begin_object :: "'d fmp4_demux \<Rightarrow> bytes \<Rightarrow> media_rejection option \<times> 'd fmp4_demux" where
  "begin_object s object =
     (if fd_init s = None then
        (Some (Malformed ''fMP4 media segment before its EXT-X-MAP init segment''), s)
      else case media_fragments object of
        (fragments, Inl e) \<Rightarrow> (Some (Malformed (walk_error_message e)), s\<lparr>fd_fragments := fragments\<rparr>)
      | (fragments, Inr report) \<Rightarrow>
          (None, s\<lparr>fd_fragments := fragments,
                  fd_unknown_logged := (fd_unknown_logged s \<or> first_unknown report \<noteq> None),
                  fd_object := Some \<lparr>obj_bytes = object, obj_next_fragment = 0, obj_arrived = 0, obj_releasing = None\<rparr>\<rparr>))"

definition feed ::
    "('d \<Rightarrow> bytes \<Rightarrow> 'd \<times> (string + fmp4_sample list)) \<Rightarrow> 'd fmp4_demux \<Rightarrow> bytes \<Rightarrow> media_rejection option \<times> 'd fmp4_demux" where
  "feed handle s chunk =
     (case fd_object s of
        None \<Rightarrow> (Some (Malformed ''fMP4 bytes arrived outside an object''), s)
      | Some obj \<Rightarrow>
          let arrived = min (saturating_add usize_MAX (obj_arrived obj) (length chunk)) (length (obj_bytes obj))
          in advance handle (s\<lparr>fd_object := Some (obj\<lparr>obj_arrived := arrived\<rparr>)\<rparr>) MAX_SAMPLES_PER_STEP)"

definition pending :: "'d fmp4_demux \<Rightarrow> bool" where
  "pending s =
     (case fd_object s of
        None \<Rightarrow> False
      | Some obj \<Rightarrow>
          (case obj_releasing obj of
             Some rel \<Rightarrow>
               (case list_get (rel_plans rel) (rel_next rel) of
                  None \<Rightarrow> False | Some plan \<Rightarrow> plan_release_at plan \<le> obj_arrived obj)
           | None \<Rightarrow>
               (case list_get (fd_fragments s) (obj_next_fragment obj) of
                  None \<Rightarrow> False | Some span \<Rightarrow> fst span < obj_arrived obj)))"

text \<open>The packets moved out; the source also returns their number.\<close>

definition drain_into :: "'d fmp4_demux \<Rightarrow> media_packet list \<times> 'd fmp4_demux" where
  "drain_into s = (fd_output s, s\<lparr>fd_output := []\<rparr>)"

definition end_object ::
    "('d \<Rightarrow> bytes \<Rightarrow> 'd \<times> (string + fmp4_sample list)) \<Rightarrow> 'd fmp4_demux \<Rightarrow> media_rejection option \<times> 'd fmp4_demux" where
  "end_object handle s =
     (let s = (case fd_object s of None \<Rightarrow> s | Some obj \<Rightarrow> s\<lparr>fd_object := Some (obj\<lparr>obj_arrived := length (obj_bytes obj)\<rparr>)\<rparr>);
          (released, s) = advance handle s usize_MAX
      in (released, s\<lparr>fd_object := None\<rparr>))"

definition flush ::
    "('d \<Rightarrow> bytes \<Rightarrow> 'd \<times> (string + fmp4_sample list)) \<Rightarrow> 'd fmp4_demux \<Rightarrow> 'd fmp4_demux" where
  "flush handle s =
     (let s = (case fd_object s of
                 None \<Rightarrow> s
               | Some obj \<Rightarrow>
                   (case obj_releasing obj of
                      None \<Rightarrow> s
                    | Some rel \<Rightarrow> s\<lparr>fd_object := Some (obj\<lparr>obj_arrived := max (obj_arrived obj) (snd (rel_range rel))\<rparr>)\<rparr>))
      in (snd (advance handle s usize_MAX))\<lparr>fd_object := None\<rparr>)"

definition discard_object :: "'d fmp4_demux \<Rightarrow> 'd fmp4_demux" where
  "discard_object s = s\<lparr>fd_output := [], fd_object := None\<rparr>"

definition discontinuity :: "'d fmp4_demux \<Rightarrow> 'd fmp4_demux" where
  "discontinuity s = s\<lparr>fd_object := None\<rparr>"

subsection \<open>The packets of an object\<close>

text \<open>
  What an object still has to yield, when nothing in it is refused: its packets in order, and the
  budget that converting them costs. Opening a fragment is charged its sample count.
\<close>

fun convert_all :: "fmp4_track list \<Rightarrow> bytes \<Rightarrow> sample_plan list \<Rightarrow> media_packet list option" where
  "convert_all tracks fragment [] = Some []"
| "convert_all tracks fragment (plan # plans) =
     (case convert_plan tracks fragment plan of
        Inl _ \<Rightarrow> None | Inr p \<Rightarrow> map_option (Cons p) (convert_all tracks fragment plans))"

definition fragment_plans ::
    "('d \<Rightarrow> bytes \<Rightarrow> 'd \<times> (string + fmp4_sample list)) \<Rightarrow> fmp4_track list \<Rightarrow> bytes \<Rightarrow> 'd \<Rightarrow> nat \<times> nat \<Rightarrow>
     ('d \<times> bytes \<times> sample_plan list) option" where
  "fragment_plans handle tracks bs d span = do {
     fragment \<leftarrow> slice_get (fst span) (snd span) bs;
     (case handle d fragment of
        (d, Inl _) \<Rightarrow> None
      | (d, Inr samples) \<Rightarrow>
          (case plan_fragment tracks samples span of Inl _ \<Rightarrow> None | Inr plans \<Rightarrow> Some (d, fragment, plans)))
   }"

fun rest_work ::
    "('d \<Rightarrow> bytes \<Rightarrow> 'd \<times> (string + fmp4_sample list)) \<Rightarrow> fmp4_track list \<Rightarrow> bytes \<Rightarrow> 'd \<Rightarrow> (nat \<times> nat) list \<Rightarrow>
     (media_packet list \<times> nat) option" where
  "rest_work handle tracks bs d [] = Some ([], 0)"
| "rest_work handle tracks bs d (span # spans) = do {
     (d, fragment, plans) \<leftarrow> fragment_plans handle tracks bs d span;
     ps \<leftarrow> convert_all tracks fragment plans;
     (qs, c) \<leftarrow> rest_work handle tracks bs d spans;
     Some (ps @ qs, max (length plans) 1 + length plans + c)
   }"

definition work ::
    "('d \<Rightarrow> bytes \<Rightarrow> 'd \<times> (string + fmp4_sample list)) \<Rightarrow> fmp4_track list \<Rightarrow> (nat \<times> nat) list \<Rightarrow> 'd \<Rightarrow> fmp4_object \<Rightarrow>
     (media_packet list \<times> nat) option" where
  "work handle tracks fragments d obj =
     (case obj_releasing obj of
        None \<Rightarrow> rest_work handle tracks (obj_bytes obj) d (drop (obj_next_fragment obj) fragments)
      | Some rel \<Rightarrow> do {
          fragment \<leftarrow> slice_get (fst (rel_range rel)) (snd (rel_range rel)) (obj_bytes obj);
          ps \<leftarrow> convert_all tracks fragment (drop (rel_next rel) (rel_plans rel));
          (qs, c) \<leftarrow> rest_work handle tracks (obj_bytes obj) d (drop (obj_next_fragment obj + 1) fragments);
          Some (ps @ qs, length (rel_plans rel) - rel_next rel + c)
        })"

definition obj_wf :: "(nat \<times> nat) list \<Rightarrow> fmp4_object \<Rightarrow> bool" where
  "obj_wf fragments obj \<longleftrightarrow> length (obj_bytes obj) \<le> usize_MAX \<and>
     list_all (\<lambda>s. fst s < snd s \<and> snd s \<le> length (obj_bytes obj)) fragments \<and> obj_arrived obj \<le> length (obj_bytes obj) \<and>
     (case obj_releasing obj of
        None \<Rightarrow> True
      | Some rel \<Rightarrow> list_all (\<lambda>p. plan_release_at p \<le> length (obj_bytes obj)) (rel_plans rel) \<and> rel_next rel \<le> length (rel_plans rel))"

lemma convert_all_length: "convert_all tracks fragment plans = Some ps \<Longrightarrow> length ps = length plans"
  by (induction plans arbitrary: ps) (auto split: sum.splits)

definition release_count :: "nat \<Rightarrow> sample_plan list \<Rightarrow> nat \<Rightarrow> nat \<Rightarrow> bool" where
  "release_count arrived plans budget k \<longleftrightarrow> k \<le> length plans \<and> k \<le> budget \<and>
     (list_all (\<lambda>p. plan_release_at p \<le> arrived) plans \<and> length plans \<le> budget \<longrightarrow> k = length plans) \<and>
     (budget > 0 \<and> plans \<noteq> [] \<and> plan_release_at (hd plans) \<le> arrived \<longrightarrow> k > 0)"

lemma release_loop_spec:
  "convert_all tracks fragment plans = Some ps \<Longrightarrow>
   \<exists>k. release_loop tracks fragment arrived plans budget nxt out = (None, budget - k, nxt + k, out @ take k ps) \<and>
     convert_all tracks fragment (drop k plans) = Some (drop k ps) \<and> release_count arrived plans budget k"
proof (induction plans arbitrary: budget nxt out ps)
  case Nil
  then show ?case by (simp add: release_count_def)
next
  case (Cons plan plans)
  from Cons.prems obtain p qs where p: "convert_plan tracks fragment plan = Inr p"
    and qs: "convert_all tracks fragment plans = Some qs" and ps: "ps = p # qs"
    by (auto split: sum.splits)
  show ?case
  proof (cases "budget > 0 \<and> plan_release_at plan \<le> arrived")
    case False
    with Cons.prems show ?thesis by (intro exI [of _ 0]) (auto simp: release_count_def)
  next
    case True
    from Cons.IH [OF qs, where budget = "budget - 1" and nxt = "nxt + 1" and out = "out @ [p]"]
    obtain k where k: "release_loop tracks fragment arrived plans (budget - 1) (nxt + 1) (out @ [p]) =
        (None, budget - 1 - k, nxt + 1 + k, (out @ [p]) @ take k qs)"
      "convert_all tracks fragment (drop k plans) = Some (drop k qs)" "release_count arrived plans (budget - 1) k"
      by blast
    with True p ps show ?thesis
      by (intro exI [of _ "Suc k"]) (auto simp: release_count_def neq_Nil_conv)
  qed
qed

definition obj_pending :: "(nat \<times> nat) list \<Rightarrow> fmp4_object \<Rightarrow> bool" where
  "obj_pending fragments obj =
     (case obj_releasing obj of
        Some rel \<Rightarrow>
          (case list_get (rel_plans rel) (rel_next rel) of
             None \<Rightarrow> False | Some plan \<Rightarrow> plan_release_at plan \<le> obj_arrived obj)
      | None \<Rightarrow>
          (case list_get fragments (obj_next_fragment obj) of
             None \<Rightarrow> False | Some span \<Rightarrow> fst span < obj_arrived obj))"

lemma pending_obj: "pending s = (case fd_object s of None \<Rightarrow> False | Some obj \<Rightarrow> obj_pending (fd_fragments s) obj)"
  by (simp add: pending_def obj_pending_def split: option.splits)

text \<open>
  One call of the loop takes a prefix of the remaining packets, within the budget. With the whole
  object arrived and budget for all of it nothing remains, and pending work makes progress.
\<close>

definition advanced ::
    "('d \<Rightarrow> bytes \<Rightarrow> 'd \<times> (string + fmp4_sample list)) \<Rightarrow> fmp4_track list \<Rightarrow> (nat \<times> nat) list \<Rightarrow> 'd \<Rightarrow> fmp4_object \<Rightarrow>
     media_packet list \<Rightarrow> nat \<Rightarrow> media_packet list \<Rightarrow> nat \<Rightarrow> bool" where
  "advanced handle tracks fragments d obj out budget ps c \<longleftrightarrow>
     (\<exists>d' obj' k c'. advance_loop handle tracks fragments d obj out budget = (None, d', obj', out @ take k ps) \<and>
        obj_bytes obj' = obj_bytes obj \<and> obj_arrived obj' = obj_arrived obj \<and> obj_wf fragments obj' \<and>
        work handle tracks fragments d' obj' = Some (drop k ps, c') \<and> k \<le> length ps \<and> k \<le> budget \<and> c' \<le> c \<and>
        (obj_arrived obj = length (obj_bytes obj) \<and> c \<le> budget \<longrightarrow> k = length ps) \<and>
        (budget > 0 \<and> obj_pending fragments obj \<longrightarrow> c' < c))"

lemma advance_releasing:
  assumes rel: "obj_releasing obj = Some rel" and work: "work handle tracks fragments d obj = Some (ps, c)"
    and wf: "obj_wf fragments obj"
  obtains k where
    "advance_loop handle tracks fragments d obj out budget =
       (if rel_next rel + k < length (rel_plans rel)
        then (None, d, obj\<lparr>obj_releasing := Some (rel\<lparr>rel_next := rel_next rel + k\<rparr>)\<rparr>, out @ take k ps)
        else advance_loop handle tracks fragments d
          (obj\<lparr>obj_next_fragment := obj_next_fragment obj + 1, obj_releasing := None\<rparr>) (out @ take k ps) (budget - k))"
    and "work handle tracks fragments d
       (if rel_next rel + k < length (rel_plans rel) then obj\<lparr>obj_releasing := Some (rel\<lparr>rel_next := rel_next rel + k\<rparr>)\<rparr>
        else obj\<lparr>obj_next_fragment := obj_next_fragment obj + 1, obj_releasing := None\<rparr>) = Some (drop k ps, c - k)"
    and "k \<le> length ps" and "k \<le> c" and "release_count (obj_arrived obj) (drop (rel_next rel) (rel_plans rel)) budget k"
proof -
  let ?plans = "drop (rel_next rel) (rel_plans rel)"
  from work rel obtain fragment xs qs c' where
    fragment: "slice_get (fst (rel_range rel)) (snd (rel_range rel)) (obj_bytes obj) = Some fragment"
    and xs: "convert_all tracks fragment ?plans = Some xs"
    and rest: "rest_work handle tracks (obj_bytes obj) d (drop (obj_next_fragment obj + 1) fragments) = Some (qs, c')"
    and ps: "ps = xs @ qs" and c: "c = length (rel_plans rel) - rel_next rel + c'"
    by (auto simp: work_def bind_eq_Some_conv)
  have len: "length xs = length (rel_plans rel) - rel_next rel" using convert_all_length [OF xs] by simp
  from release_loop_spec [OF xs, of "obj_arrived obj" budget "rel_next rel" out] obtain k where
    loop: "release_loop tracks fragment (obj_arrived obj) ?plans budget (rel_next rel) out =
      (None, budget - k, rel_next rel + k, out @ take k xs)"
    and drop: "convert_all tracks fragment (drop k ?plans) = Some (drop k xs)"
    and k: "release_count (obj_arrived obj) ?plans budget k" by blast
  have kx: "k \<le> length xs" using k len by (simp add: release_count_def)
  then have tk: "take k ps = take k xs" "drop k ps = drop k xs @ qs" by (simp_all add: ps)
  show thesis
  proof (rule that [of k])
    show "advance_loop handle tracks fragments d obj out budget =
       (if rel_next rel + k < length (rel_plans rel)
        then (None, d, obj\<lparr>obj_releasing := Some (rel\<lparr>rel_next := rel_next rel + k\<rparr>)\<rparr>, out @ take k ps)
        else advance_loop handle tracks fragments d
          (obj\<lparr>obj_next_fragment := obj_next_fragment obj + 1, obj_releasing := None\<rparr>) (out @ take k ps) (budget - k))"
      by (subst advance_loop.simps) (simp add: rel fragment loop tk)
    show "work handle tracks fragments d
       (if rel_next rel + k < length (rel_plans rel) then obj\<lparr>obj_releasing := Some (rel\<lparr>rel_next := rel_next rel + k\<rparr>)\<rparr>
        else obj\<lparr>obj_next_fragment := obj_next_fragment obj + 1, obj_releasing := None\<rparr>) = Some (drop k ps, c - k)"
      using fragment drop rest kx len by (simp add: work_def tk c add.commute) arith
  qed (use k kx len ps c in simp_all)
qed

lemma advancedI:
  assumes "advance_loop handle tracks fragments d obj out budget = (None, d', obj', out @ take k ps)"
    and "obj_bytes obj' = obj_bytes obj" and "obj_arrived obj' = obj_arrived obj" and "obj_wf fragments obj'"
    and "work handle tracks fragments d' obj' = Some (drop k ps, c')" and "k \<le> length ps" and "k \<le> budget" and "c' \<le> c"
    and "obj_arrived obj = length (obj_bytes obj) \<and> c \<le> budget \<Longrightarrow> k = length ps"
    and "budget > 0 \<Longrightarrow> obj_pending fragments obj \<Longrightarrow> c' < c"
  shows "advanced handle tracks fragments d obj out budget ps c"
  unfolding advanced_def
  by (rule exI [of _ d'], rule exI [of _ obj'], rule exI [of _ k], rule exI [of _ c'], intro conjI impI assms) simp_all

lemma advanced_release:
  assumes rel: "obj_releasing obj = Some rel" and work: "work handle tracks fragments d obj = Some (ps, c)"
    and wf: "obj_wf fragments obj"
    and tail: "\<And>obj' out budget ps c. obj_releasing obj' = None \<Longrightarrow> obj_next_fragment obj' = obj_next_fragment obj + 1 \<Longrightarrow>
      obj_wf fragments obj' \<Longrightarrow> work handle tracks fragments d obj' = Some (ps, c) \<Longrightarrow>
      advanced handle tracks fragments d obj' out budget ps c"
  shows "advanced handle tracks fragments d obj out budget ps c"
proof -
  let ?stay = "\<lambda>k. obj\<lparr>obj_releasing := Some (rel\<lparr>rel_next := rel_next rel + k\<rparr>)\<rparr>"
  let ?go = "obj\<lparr>obj_next_fragment := obj_next_fragment obj + 1, obj_releasing := None\<rparr>"
  obtain k where loop: "advance_loop handle tracks fragments d obj out budget =
       (if rel_next rel + k < length (rel_plans rel) then (None, d, ?stay k, out @ take k ps)
        else advance_loop handle tracks fragments d ?go (out @ take k ps) (budget - k))"
    and left: "work handle tracks fragments d (if rel_next rel + k < length (rel_plans rel) then ?stay k else ?go) = Some (drop k ps, c - k)"
    and k: "k \<le> length ps" "k \<le> c" and cnt: "release_count (obj_arrived obj) (drop (rel_next rel) (rel_plans rel)) budget k"
    by (rule advance_releasing [OF rel work wf])
  have wfrel: "list_all (\<lambda>p. plan_release_at p \<le> length (obj_bytes obj)) (rel_plans rel)" "rel_next rel \<le> length (rel_plans rel)"
    using wf rel by (simp_all add: obj_wf_def)
  have pend: "k > 0" if "budget > 0" "obj_pending fragments obj"
    using that rel cnt by (auto simp: obj_pending_def release_count_def list_get_def hd_drop_conv_nth split: if_splits)
  have kb: "k \<le> budget" using cnt by (simp add: release_count_def)
  show ?thesis
  proof (cases "rel_next rel + k < length (rel_plans rel)")
    case True
    have not_all: "\<not> (obj_arrived obj = length (obj_bytes obj) \<and> c \<le> budget)"
    proof
      assume all: "obj_arrived obj = length (obj_bytes obj) \<and> c \<le> budget"
      have "length (rel_plans rel) - rel_next rel \<le> c" using work rel by (auto simp: work_def bind_eq_Some_conv)
      with all wfrel cnt have "k = length (rel_plans rel) - rel_next rel"
        by (auto simp: release_count_def list_all_iff dest: in_set_dropD)
      with True show False by simp
    qed
    have wf': "obj_wf fragments (?stay k)" using wf rel True by (simp add: obj_wf_def)
    have stay: "advance_loop handle tracks fragments d obj out budget = (None, d, ?stay k, out @ take k ps)"
      "work handle tracks fragments d (?stay k) = Some (drop k ps, c - k)"
      using loop left True by simp_all
    show ?thesis
    proof (rule advancedI [OF stay(1) _ _ wf' stay(2) k(1)])
      show "k \<le> budget" by (rule kb)
      show "c - k < c" if "budget > 0" "obj_pending fragments obj" using pend [OF that] k by simp
    qed (use not_all in simp_all)
  next
    case False
    have "obj_wf fragments ?go" using wf by (simp add: obj_wf_def split: option.splits)
    with tail [of ?go "drop k ps" "c - k" "out @ take k ps" "budget - k"] left False
    obtain d' obj' j c' where a: "advance_loop handle tracks fragments d ?go (out @ take k ps) (budget - k) =
        (None, d', obj', (out @ take k ps) @ take j (drop k ps))" "obj_bytes obj' = obj_bytes obj" "obj_arrived obj' = obj_arrived obj"
      "obj_wf fragments obj'" "work handle tracks fragments d' obj' = Some (drop j (drop k ps), c')"
      "j \<le> length ps - k" "j \<le> budget - k" "c' \<le> c - k"
      "obj_arrived obj = length (obj_bytes obj) \<and> c - k \<le> budget - k \<longrightarrow> j = length ps - k"
      by (auto simp: advanced_def)
    have "advance_loop handle tracks fragments d obj out budget = (None, d', obj', out @ take (k + j) ps)"
      using loop False a(1) by (simp add: take_add)
    moreover have "work handle tracks fragments d' obj' = Some (drop (k + j) ps, c')" using a(5) by (simp add: add.commute)
    moreover have "c' < c" if "budget > 0" "obj_pending fragments obj" using pend [OF that] a(8) k by linarith
    moreover have "obj_arrived obj = length (obj_bytes obj) \<and> c \<le> budget \<Longrightarrow> k + j = length ps"
      using a(9) k diff_le_mono [of c budget k] by linarith
    moreover have "k + j \<le> length ps" "k + j \<le> budget" "c' \<le> c"
      using a(6-8) k kb by linarith+
    ultimately show ?thesis using a(2-4) by (intro advancedI)
  qed
qed

lemma fragment_plansE:
  assumes "fragment_plans handle tracks bs d span = Some (d', fragment, plans)"
  obtains samples where "slice_get (fst span) (snd span) bs = Some fragment" and "handle d fragment = (d', Inr samples)"
    and "plan_fragment tracks samples span = Inr plans"
proof -
  from assms obtain f where f: "slice_get (fst span) (snd span) bs = Some f"
    by (auto simp: fragment_plans_def bind_eq_Some_conv)
  obtain e r where r: "handle d f = (e, r)" by (cases "handle d f")
  from assms f r show thesis
    by (cases r) (auto simp: fragment_plans_def intro: that split: sum.splits)
qed

lemma open_fragment_work:
  assumes none: "obj_releasing obj = None" and work: "work handle tracks fragments d obj = Some (ps, c)"
    and wf: "obj_wf fragments obj"
  shows "open_fragment handle tracks fragments d obj budget = Stop \<and> \<not> (budget > 0 \<and> obj_pending fragments obj) \<and>
      (obj_arrived obj = length (obj_bytes obj) \<and> c \<le> budget \<longrightarrow> ps = []) \<or>
    (\<exists>d' rel m. open_fragment handle tracks fragments d obj budget =
        Opened d' (obj\<lparr>obj_releasing := Some rel\<rparr>) (budget - m) \<and> obj_next_fragment obj < length fragments \<and>
      1 \<le> m \<and> m \<le> c \<and> budget > 0 \<and> obj_wf fragments (obj\<lparr>obj_releasing := Some rel\<rparr>) \<and>
      work handle tracks fragments d' (obj\<lparr>obj_releasing := Some rel\<rparr>) = Some (ps, c - m))"
proof (cases "obj_next_fragment obj < length fragments")
  case False
  then show ?thesis
    using work none by (simp add: open_fragment_def list_get_def obj_pending_def work_def)
next
  case more: True
  let ?span = "fragments ! obj_next_fragment obj"
  have get: "list_get fragments (obj_next_fragment obj) = Some ?span" using more by (simp add: list_get_def)
  have span: "fst ?span < snd ?span" "snd ?span \<le> length (obj_bytes obj)" and arr: "obj_arrived obj \<le> length (obj_bytes obj)"
    using wf more by (auto simp: obj_wf_def list_all_length)
  have "drop (obj_next_fragment obj) fragments = ?span # drop (obj_next_fragment obj + 1) fragments"
    using more by (simp add: Cons_nth_drop_Suc)
  with work none obtain d' fragment plans xs qs c' where
    plans: "fragment_plans handle tracks (obj_bytes obj) d ?span = Some (d', fragment, plans)"
    and xs: "convert_all tracks fragment plans = Some xs"
    and rest: "rest_work handle tracks (obj_bytes obj) d' (drop (obj_next_fragment obj + 1) fragments) = Some (qs, c')"
    and ps: "ps = xs @ qs" and c: "c = max (length plans) 1 + length plans + c'"
    by (auto simp: work_def bind_eq_Some_conv)
  let ?rel = "\<lparr>rel_range = ?span, rel_plans = plans, rel_next = 0\<rparr>"
  obtain samples where opened: "slice_get (fst ?span) (snd ?span) (obj_bytes obj) = Some fragment"
    "handle d fragment = (d', Inr samples)" "plan_fragment tracks samples ?span = Inr plans"
    by (rule fragment_plansE [OF plans])
  show ?thesis
  proof (cases "fst ?span \<ge> obj_arrived obj \<or> budget = 0")
    case True
    with get span c none show ?thesis by (auto simp: open_fragment_def obj_pending_def)
  next
    case False
    have "list_all (\<lambda>p. plan_release_at p \<le> length (obj_bytes obj)) plans"
      using plan_fragment_Inr [OF opened(3)] span(2) by (auto simp: list_all_iff)
    then have "obj_wf fragments (obj\<lparr>obj_releasing := Some ?rel\<rparr>)" using wf by (simp add: obj_wf_def)
    moreover have "work handle tracks fragments d' (obj\<lparr>obj_releasing := Some ?rel\<rparr>) = Some (ps, c - max (length plans) 1)"
      using opened(1) xs rest by (simp add: work_def ps c)
    moreover have "open_fragment handle tracks fragments d obj budget =
        Opened d' (obj\<lparr>obj_releasing := Some ?rel\<rparr>) (budget - max (length plans) 1)"
      using False get opened by (simp add: open_fragment_def)
    moreover have "1 \<le> max (length plans) 1" "max (length plans) 1 \<le> c" by (simp_all add: c)
    ultimately show ?thesis using False more by blast
  qed
qed

lemma advance_loop_open:
  assumes "obj_releasing obj = None" and "open_fragment handle tracks fragments d obj budget = Opened d' (obj\<lparr>obj_releasing := Some rel\<rparr>) budget'"
  shows "advance_loop handle tracks fragments d obj out budget =
    advance_loop handle tracks fragments d' (obj\<lparr>obj_releasing := Some rel\<rparr>) out budget'"
  by (subst (1 2) advance_loop.simps) (simp add: assms)

lemma advanced_None:
  assumes "obj_releasing obj = None" and "work handle tracks fragments d obj = Some (ps, c)" and "obj_wf fragments obj"
  shows "advanced handle tracks fragments d obj out budget ps c"
  using assms
proof (induction "length fragments - obj_next_fragment obj" arbitrary: d obj out budget ps c rule: less_induct)
  case less
  from open_fragment_work [OF less.prems, of budget] show ?case
  proof (elim disjE conjE exE)
    assume stop: "open_fragment handle tracks fragments d obj budget = Stop" "\<not> (budget > 0 \<and> obj_pending fragments obj)"
      "obj_arrived obj = length (obj_bytes obj) \<and> c \<le> budget \<longrightarrow> ps = []"
    then have "advance_loop handle tracks fragments d obj out budget = (None, d, obj, out @ take 0 ps)"
      by (simp add: advance_loop.simps [of handle tracks fragments d obj] less.prems(1))
    then show ?thesis by (rule advancedI) (use stop less.prems in auto)
  next
    fix d' rel m
    let ?obj = "obj\<lparr>obj_releasing := Some rel\<rparr>"
    assume o: "open_fragment handle tracks fragments d obj budget = Opened d' ?obj (budget - m)"
      "obj_next_fragment obj < length fragments" "1 \<le> m" "m \<le> c" "budget > 0" "obj_wf fragments ?obj"
      "work handle tracks fragments d' ?obj = Some (ps, c - m)"
    have "advanced handle tracks fragments d' ?obj out (budget - m) ps (c - m)"
      by (rule advanced_release [OF _ o(7,6)]) (use less.hyps o(2) in auto)
    then obtain e obj' k c' where a: "advance_loop handle tracks fragments d' ?obj out (budget - m) = (None, e, obj', out @ take k ps)"
      "obj_bytes obj' = obj_bytes obj" "obj_arrived obj' = obj_arrived obj" "obj_wf fragments obj'"
      "work handle tracks fragments e obj' = Some (drop k ps, c')" "k \<le> length ps" "k \<le> budget - m" "c' \<le> c - m"
      "obj_arrived obj = length (obj_bytes obj) \<and> c - m \<le> budget - m \<longrightarrow> k = length ps"
      by (auto simp: advanced_def)
    note loop = advance_loop_open [OF less.prems(1) o(1), of out, unfolded a(1)]
    show ?thesis
      by (rule advancedI [OF loop a(2-6)]) (use a(7-9) o(3,4) diff_le_mono [of c budget m] in linarith)+
  qed
qed

lemma advanced_all:
  assumes "work handle tracks fragments d obj = Some (ps, c)" and "obj_wf fragments obj"
  shows "advanced handle tracks fragments d obj out budget ps c"
proof (cases "obj_releasing obj")
  case None
  with assms show ?thesis by (intro advanced_None)
next
  case (Some rel)
  show ?thesis by (rule advanced_release [OF Some assms]) (rule advanced_None)
qed

subsection \<open>Driving a demux\<close>

text \<open>
  A session feeds an object chunk by chunk, takes the packets out after each, ends the object and
  takes the rest. \<open>Inl\<close> is the error that stopped it.
\<close>

primrec run_object ::
    "('s \<Rightarrow> 'c \<Rightarrow> 'e option \<times> 's) \<Rightarrow> ('s \<Rightarrow> 'p list \<times> 's) \<Rightarrow> ('s \<Rightarrow> 'e option \<times> 's) \<Rightarrow> 'c list \<Rightarrow> 's \<Rightarrow> 'e + 'p list" where
  "run_object feed_chunk take_out finish [] s =
     (case finish s of (Some e, _) \<Rightarrow> Inl e | (None, s) \<Rightarrow> Inr (fst (take_out s)))"
| "run_object feed_chunk take_out finish (c # cs) s =
     (case feed_chunk s c of
        (Some e, _) \<Rightarrow> Inl e
      | (None, s) \<Rightarrow> map_sum id ((@) (fst (take_out s))) (run_object feed_chunk take_out finish cs (snd (take_out s))))"

text \<open>
  The contract of a paced demux (\<open>SegmentDemux\<close>): it knows what the object will yield, and feeding,
  draining and ending only move that along. What comes out then does not depend on the chunks.
\<close>

locale paced_demux =
  fixes feed_chunk :: "'s \<Rightarrow> 'c \<Rightarrow> 'e option \<times> 's"
    and take_out :: "'s \<Rightarrow> 'p list \<times> 's"
    and finish :: "'s \<Rightarrow> 'e option \<times> 's"
    and todo :: "'s \<Rightarrow> 'p list option"
  assumes feed_todo: "todo s = Some ps \<Longrightarrow> \<exists>s'. feed_chunk s c = (None, s') \<and> todo s' = Some ps"
    and drain_todo: "todo s = Some ps \<Longrightarrow> \<exists>rest. ps = fst (take_out s) @ rest \<and> todo (snd (take_out s)) = Some rest"
    and finish_todo: "todo s = Some ps \<Longrightarrow> \<exists>s'. finish s = (None, s') \<and> fst (take_out s') = ps"
begin

lemma run_object_todo: "todo s = Some ps \<Longrightarrow> run_object feed_chunk take_out finish cs s = Inr ps"
proof (induction cs arbitrary: s ps)
  case Nil
  from finish_todo [OF Nil] show ?case by auto
next
  case (Cons c cs)
  from feed_todo [OF Cons.prems, of c] obtain s' where s': "feed_chunk s c = (None, s')" "todo s' = Some ps" by blast
  from drain_todo [OF s'(2)] obtain rest where "ps = fst (take_out s') @ rest" "todo (snd (take_out s')) = Some rest" by blast
  with Cons.IH [of "snd (take_out s')" rest] s'(1) show ?case by simp
qed

lemma run_object_chunks: "todo s = Some ps \<Longrightarrow> run_object feed_chunk take_out finish cs s = run_object feed_chunk take_out finish ds s"
  by (simp add: run_object_todo)

end

definition fmp4_todo ::
    "('d \<Rightarrow> bytes \<Rightarrow> 'd \<times> (string + fmp4_sample list)) \<Rightarrow> 'd fmp4_demux \<Rightarrow> media_packet list option" where
  "fmp4_todo handle s =
     (case (fd_object s, fd_init s) of
        (Some obj, Some init) \<Rightarrow>
          if obj_wf (fd_fragments s) obj then
            case work handle (ini_tracks init) (fd_fragments s) (ini_demuxer init) obj of
              Some (ps, c) \<Rightarrow> if c \<le> usize_MAX then Some (fd_output s @ ps) else None
            | None \<Rightarrow> None
          else None
      | _ \<Rightarrow> None)"

definition fmp4_cost :: "('d \<Rightarrow> bytes \<Rightarrow> 'd \<times> (string + fmp4_sample list)) \<Rightarrow> 'd fmp4_demux \<Rightarrow> nat" where
  "fmp4_cost handle s =
     (case (fd_object s, fd_init s) of
        (Some obj, Some init) \<Rightarrow>
          (case work handle (ini_tracks init) (fd_fragments s) (ini_demuxer init) obj of Some (ps, c) \<Rightarrow> c | None \<Rightarrow> 0)
      | _ \<Rightarrow> 0)"

lemma fmp4_todoE:
  assumes "fmp4_todo handle s = Some ps"
  obtains obj init qs c where "fd_object s = Some obj" and "fd_init s = Some init" and "obj_wf (fd_fragments s) obj"
    and "work handle (ini_tracks init) (fd_fragments s) (ini_demuxer init) obj = Some (qs, c)"
    and "c \<le> usize_MAX" and "ps = fd_output s @ qs"
  using assms by (auto simp: fmp4_todo_def split: option.splits if_splits)

lemma work_arrived [simp]: "work handle tracks fragments d (obj\<lparr>obj_arrived := a\<rparr>) = work handle tracks fragments d obj"
  by (cases "obj_releasing obj") (simp_all add: work_def)

lemma obj_wf_arrived: "obj_wf fragments obj \<Longrightarrow> a \<le> length (obj_bytes obj) \<Longrightarrow> obj_wf fragments (obj\<lparr>obj_arrived := a\<rparr>)"
  by (cases "obj_releasing obj") (simp_all add: obj_wf_def)

text \<open>Advancing keeps what the object yields; with everything arrived and budget left it releases all of it.\<close>

lemma advance_todo:
  assumes "fmp4_todo handle s = Some ps"
  shows "\<exists>s'. advance handle s budget = (None, s') \<and> fmp4_todo handle s' = Some ps \<and> fd_fragments s' = fd_fragments s \<and>
    fmp4_cost handle s' \<le> fmp4_cost handle s \<and> (budget > 0 \<and> pending s \<longrightarrow> fmp4_cost handle s' < fmp4_cost handle s) \<and>
    (\<forall>obj. fd_object s = Some obj \<longrightarrow> obj_arrived obj = length (obj_bytes obj) \<longrightarrow> budget = usize_MAX \<longrightarrow> fd_output s' = ps)"
proof -
  obtain obj init qs c where o: "fd_object s = Some obj" and i: "fd_init s = Some init" and wf: "obj_wf (fd_fragments s) obj"
    and work: "work handle (ini_tracks init) (fd_fragments s) (ini_demuxer init) obj = Some (qs, c)"
    and c: "c \<le> usize_MAX" and ps: "ps = fd_output s @ qs"
    by (rule fmp4_todoE [OF assms])
  obtain d' obj' k c' where a: "advance_loop handle (ini_tracks init) (fd_fragments s) (ini_demuxer init) obj (fd_output s) budget =
      (None, d', obj', fd_output s @ take k qs)" "obj_wf (fd_fragments s) obj'"
    "work handle (ini_tracks init) (fd_fragments s) d' obj' = Some (drop k qs, c')" "c' \<le> c"
    "obj_arrived obj = length (obj_bytes obj) \<and> c \<le> budget \<longrightarrow> k = length qs"
    "budget > 0 \<and> obj_pending (fd_fragments s) obj \<longrightarrow> c' < c"
    using advanced_all [OF work wf, of "fd_output s" budget] unfolding advanced_def by blast
  let ?s' = "s\<lparr>fd_init := Some (init\<lparr>ini_demuxer := d'\<rparr>), fd_object := Some obj', fd_output := fd_output s @ take k qs\<rparr>"
  have "advance handle s budget = (None, ?s')" by (simp add: advance_def o i a(1))
  moreover have "fmp4_todo handle ?s' = Some ps" using a(2-4) c by (simp add: fmp4_todo_def ps)
  moreover have cost: "fmp4_cost handle ?s' = c'" "fmp4_cost handle s = c" using a(3) work by (simp_all add: fmp4_cost_def o i)
  moreover have "fd_output ?s' = ps" if "obj_arrived obj = length (obj_bytes obj)" "budget = usize_MAX"
    using a(5) c that by (simp add: ps)
  ultimately show ?thesis using a(4,6) by (intro exI [of _ ?s']) (simp add: o pending_obj)
qed

lemma fmp4_todo_arrived:
  assumes "fmp4_todo handle s = Some ps" and "fd_object s = Some obj" and "a \<le> length (obj_bytes obj)"
  shows "fmp4_todo handle (s\<lparr>fd_object := Some (obj\<lparr>obj_arrived := a\<rparr>)\<rparr>) = Some ps"
  using assms by (auto simp: fmp4_todo_def obj_wf_arrived split: option.splits if_splits)

lemma fmp4_todo_object: "fmp4_todo handle s = Some ps \<Longrightarrow> \<exists>obj. fd_object s = Some obj"
  by (auto simp: fmp4_todo_def split: option.splits)

lemma feed_advance:
  assumes "fmp4_todo handle s = Some ps"
  obtains t where "feed handle s chunk = advance handle t MAX_SAMPLES_PER_STEP" and "fmp4_todo handle t = Some ps"
    and "fmp4_cost handle t = fmp4_cost handle s" and "chunk = [] \<Longrightarrow> pending t = pending s"
proof -
  from fmp4_todo_object [OF assms] obtain obj where o: "fd_object s = Some obj" by blast
  let ?a = "min (saturating_add usize_MAX (obj_arrived obj) (length chunk)) (length (obj_bytes obj))"
  let ?t = "s\<lparr>fd_object := Some (obj\<lparr>obj_arrived := ?a\<rparr>)\<rparr>"
  show thesis
  proof (rule that [of ?t])
    show "feed handle s chunk = advance handle ?t MAX_SAMPLES_PER_STEP" by (simp add: feed_def o Let_def)
    show "fmp4_todo handle ?t = Some ps" by (rule fmp4_todo_arrived [OF assms o]) simp
    show "fmp4_cost handle ?t = fmp4_cost handle s" by (simp add: fmp4_cost_def o split: option.splits)
    have "obj_arrived obj \<le> length (obj_bytes obj)" "length (obj_bytes obj) \<le> usize_MAX"
      using assms o by (auto simp: fmp4_todo_def obj_wf_def split: option.splits if_splits)
    moreover assume "chunk = []"
    ultimately have "?a = obj_arrived obj" by (simp add: saturating_add_def)
    then show "pending ?t = pending s" by (simp add: pending_obj o)
  qed
qed

lemma feed_todo_cost:
  assumes "fmp4_todo handle s = Some ps"
  shows "\<exists>s'. feed handle s chunk = (None, s') \<and> fmp4_todo handle s' = Some ps \<and> fmp4_cost handle s' \<le> fmp4_cost handle s \<and>
    (chunk = [] \<and> pending s \<longrightarrow> fmp4_cost handle s' < fmp4_cost handle s)"
proof -
  obtain t where t: "feed handle s chunk = advance handle t MAX_SAMPLES_PER_STEP" "fmp4_todo handle t = Some ps"
    "fmp4_cost handle t = fmp4_cost handle s" "chunk = [] \<Longrightarrow> pending t = pending s"
    by (rule feed_advance [OF assms, of chunk]) blast
  from advance_todo [OF t(2), of MAX_SAMPLES_PER_STEP] t show ?thesis by (auto simp: MAX_SAMPLES_PER_STEP_def)
qed

lemma end_object_todo:
  assumes "fmp4_todo handle s = Some ps"
  shows "\<exists>s'. end_object handle s = (None, s') \<and> fst (drain_into s') = ps"
proof -
  from fmp4_todo_object [OF assms] obtain obj where o: "fd_object s = Some obj" by blast
  let ?t = "s\<lparr>fd_object := Some (obj\<lparr>obj_arrived := length (obj_bytes obj)\<rparr>)\<rparr>"
  from advance_todo [OF fmp4_todo_arrived [OF assms o order_refl], of usize_MAX]
  obtain s' where "advance handle ?t usize_MAX = (None, s')" "fd_output s' = ps" by auto
  then show ?thesis by (simp add: end_object_def drain_into_def o Let_def)
qed

interpretation fmp4: paced_demux "feed handle" drain_into "end_object handle" "fmp4_todo handle"
  for handle :: "'d \<Rightarrow> bytes \<Rightarrow> 'd \<times> (string + fmp4_sample list)"
proof
  fix s :: "'d fmp4_demux" and ps c
  assume todo: "fmp4_todo handle s = Some ps"
  from feed_todo_cost [OF todo] show "\<exists>s'. feed handle s c = (None, s') \<and> fmp4_todo handle s' = Some ps" by blast
  from todo show "\<exists>rest. ps = fst (drain_into s) @ rest \<and> fmp4_todo handle (snd (drain_into s)) = Some rest"
    by (auto simp: drain_into_def fmp4_todo_def split: option.splits if_splits)
  from end_object_todo [OF todo] show "\<exists>s'. end_object handle s = (None, s') \<and> fst (drain_into s') = ps" .
qed

lemma begin_object_todo:
  assumes "begin_object s object = (None, s')" and "fd_init s = Some init" and "length object \<le> usize_MAX"
    and "rest_work handle (ini_tracks init) object (ini_demuxer init) (fst (media_fragments object)) = Some (ps, c)"
    and "c \<le> usize_MAX"
  shows "fmp4_todo handle s' = Some (fd_output s @ ps)"
proof -
  from assms(1,2) obtain fragments report where walk: "media_fragments object = (fragments, Inr report)"
    and s': "fd_fragments s' = fragments" "fd_output s' = fd_output s" "fd_init s' = Some init"
      "fd_object s' = Some \<lparr>obj_bytes = object, obj_next_fragment = 0, obj_arrived = 0, obj_releasing = None\<rparr>"
    by (auto simp: begin_object_def split: prod.splits sum.splits if_splits)
  have "list_all (\<lambda>f. fst f < snd f \<and> snd f \<le> length object) fragments"
    by (rule media_fragments_spans [OF walk])
  with assms(3-5) walk s' show ?thesis by (simp add: fmp4_todo_def obj_wf_def work_def)
qed

text \<open>
  C3. Pacing never changes what is published: when nothing in an accepted media segment is
  refused, feeding it in any chunks, taking packets out after each, and ending it yields exactly
  the packets of its fragments in order, each fragment's samples in decode order.
\<close>

theorem fmp4_pacing:
  assumes "begin_object s object = (None, s')" and "fd_init s = Some init" and "length object \<le> usize_MAX"
    and "rest_work handle (ini_tracks init) object (ini_demuxer init) (fst (media_fragments object)) = Some (ps, c)"
    and "c \<le> usize_MAX"
  shows "run_object (feed handle) drain_into (end_object handle) chunks s' = Inr (fd_output s @ ps)"
  by (rule fmp4.run_object_todo [OF begin_object_todo [OF assms]])

text \<open>A session with one AAC track, and a demuxer that finds one sample in every fragment.\<close>

definition aac_handle :: "unit \<Rightarrow> bytes \<Rightarrow> unit \<times> (string + fmp4_sample list)" where
  "aac_handle d fragment = (d, Inr
     [\<lparr>smp_track_id = 2, smp_timescale = 48000, smp_timestamp = 48000, smp_composition_time_offset = None,
       smp_keyframe = True, smp_data_offset = 32, smp_data_size = 1\<rparr>])"

definition aac_session :: "unit fmp4_demux" where
  "aac_session =
     \<lparr>fd_init = Some \<lparr>ini_demuxer = (), ini_tracks =
        [\<lparr>trk_id = 2, trk_media_type = Audio, trk_index = 0,
          trk_codec = Codec_Aac \<lparr>object_type = 2, freq_index = 3, channel_config = 2\<rparr>\<rparr>]\<rparr>,
      fd_object = None, fd_fragments = [], fd_output = [], fd_unknown_logged = False\<rparr>"

definition aac_packet :: media_packet where
  "aac_packet = \<lparr>media_type = Audio, format = Raw, is_keyframe = False, track_index = 0, pts = 1000, dts = 1000,
     payload = [0xFF, 0xF1, 0x4C, 0x80, 1, 0x1F, 0xFC, 7]\<rparr>"

lemma aac_work:
  "rest_work aac_handle (ini_tracks (the (fd_init aac_session))) sample_segment () [(8, 41)] = Some ([aac_packet], 2)"
proof -
  have slice: "slice_get 8 41 sample_segment = Some (drop 8 sample_segment)"
    by (simp add: slice_get_def sample_segment_def ascii_eval)
  have data: "slice_get 32 33 (drop 8 sample_segment) = Some [7]"
    by (simp add: slice_get_def sample_segment_def ascii_eval)
  show ?thesis
    by (simp add: fragment_plans_def slice aac_handle_def aac_session_def plan_fragment_def ticks_to_ms_def i128_ok_def
        checked_le_def max_defs convert_plan_def list_get_def data convert_sample_def build_adts_header_for_def aac_packet_def
        Let_def)
qed

abbreviation aac_started :: "unit fmp4_demux" where
  "aac_started \<equiv> snd (begin_object aac_session sample_segment)"

lemma aac_session_facts:
  "begin_object aac_session sample_segment = (None, aac_started)"
  "fd_init aac_session = Some (the (fd_init aac_session))"
  "length sample_segment \<le> usize_MAX"
  "rest_work aac_handle (ini_tracks (the (fd_init aac_session))) sample_segment
     (ini_demuxer (the (fd_init aac_session))) (fst (media_fragments sample_segment)) = Some ([aac_packet], 2)"
  "2 \<le> usize_MAX" "fd_output aac_session = []"
proof -
  show "begin_object aac_session sample_segment = (None, aac_started)"
    by (simp add: begin_object_def sample_segment_walk) (simp add: aac_session_def)
  have unit: "ini_demuxer (the (fd_init aac_session)) = ()" by simp
  show "rest_work aac_handle (ini_tracks (the (fd_init aac_session))) sample_segment
      (ini_demuxer (the (fd_init aac_session))) (fst (media_fragments sample_segment)) = Some ([aac_packet], 2)"
    unfolding unit sample_segment_walk fst_conv by (rule aac_work)
  show "length sample_segment \<le> usize_MAX" "2 \<le> usize_MAX"
    by (simp_all add: usize_MAX_def sample_segment_def ascii_eval)
qed (simp_all add: aac_session_def)

theorem fmp4_pacing_witness:
  "run_object (feed aac_handle) drain_into (end_object aac_handle) [[1, 2, 3], [], [4]] aac_started = Inr [aac_packet]"
  using fmp4_pacing [OF aac_session_facts(1-5)] by (simp only: aac_session_facts(6) append_Nil)



lemma release_loop_bound:
  "release_loop tracks fragment arrived plans budget nxt out = (err, budget', nxt', out') \<Longrightarrow>
     length out' + budget' \<le> length out + budget"
  by (induction plans arbitrary: budget nxt out) (fastforce split: if_splits sum.splits)+

lemma advance_loop_bound:
  "advance_loop handle tracks fragments d obj out budget = (err, d', obj', out') \<Longrightarrow>
     length out' \<le> length out + budget"
proof (induction handle tracks fragments d obj out budget rule: advance_loop.induct)
  case (1 handle tracks fragments d obj out budget)
  let ?o = "if obj_releasing obj = None then open_fragment handle tracks fragments d obj budget else Opened d obj budget"
  show ?case
  proof (cases ?o)
    case (Opened d1 obj1 b1)
    have b1: "b1 \<le> budget"
      using Opened by (auto simp: open_fragment_def split: if_splits option.splits sum.splits prod.splits)
    show ?thesis
    proof (cases "obj_releasing obj1")
      case None
      with 1(2) Opened show ?thesis by (simp add: advance_loop.simps [of handle])
    next
      case (Some rel)
      show ?thesis
      proof (cases "slice_get (fst (rel_range rel)) (snd (rel_range rel)) (obj_bytes obj1)")
        case None
        with 1(2) Opened Some show ?thesis by (simp add: advance_loop.simps [of handle])
      next
        case fragment: (Some fragment)
        obtain e b2 n2 out2 where loop: "release_loop tracks fragment (obj_arrived obj1) (drop (rel_next rel) (rel_plans rel))
            b1 (rel_next rel) out = (e, b2, n2, out2)" by (metis prod_cases4)
        note bound = release_loop_bound [OF loop]
        note eq = 1(2) [unfolded advance_loop.simps [of handle tracks fragments d obj] Opened opened.case Some fragment option.case loop prod.case]
        show ?thesis
        proof (cases e)
          case None
          show ?thesis
          proof (cases "n2 < length (rel_plans rel)")
            case True
            with eq None bound b1 show ?thesis by simp
          next
            case False
            with eq None have rec: "advance_loop handle tracks fragments d1
                (obj1\<lparr>obj_next_fragment := obj_next_fragment obj1 + 1, obj_releasing := None\<rparr>) out2 b2 = (err, d', obj', out')" by simp
            from 1(1) [OF Opened Some fragment loop [symmetric] None refl refl False rec] bound b1 show ?thesis by simp
          qed
        next
          case (Some x)
          with eq bound b1 show ?thesis by simp
        qed
      qed
    qed
  qed (use 1(2) in \<open>simp_all add: advance_loop.simps [of handle]\<close>)
qed

text \<open>
  C30. One chunk converts at most 256 samples, whatever the segment holds and whether or not the
  step fails.
\<close>

theorem feed_bounded:
  "length (fd_output (snd (feed handle s chunk))) \<le> length (fd_output s) + MAX_SAMPLES_PER_STEP"
proof (cases "fd_object s")
  case (Some obj)
  then show ?thesis
    by (auto simp: feed_def advance_def Let_def dest!: advance_loop_bound split: option.splits prod.splits)
qed (simp add: feed_def)

end
