(* ===== verification/Byte_Queue.thy ===== *)
theory Byte_Queue
  imports Restream_Prelude
begin

text \<open>
  The bounded byte queue between a media producer and a blocking consumer
  (\<open>crates/restream-sync/src/byte_queue.rs\<close>), and the interleavings of its users. Each section the
  source runs under the queue's lock is one function; the loop of a blocked writer is a state
  machine whose steps interleave with those of other writers, the reader and \<open>close\<close>.

  The waiting primitive is Tokio's \<open>Notify\<close>: a \<open>Notified\<close> future completes once
  \<open>notify_waiters\<close> was called after the future was created. It is modelled by a counter of those
  calls, of which the future keeps a copy.
\<close>

subsection \<open>The queue\<close>

definition DEFAULT_RECORDING_QUEUE_CAPACITY :: nat where
  "DEFAULT_RECORDING_QUEUE_CAPACITY = 512 * 1024"

record memory_queue =
  q_buf :: bytes
  q_closed :: bool
  q_capacity :: nat
  q_high_water_bytes :: nat
  q_blocked_writes :: nat
  q_notified :: nat

definition new_with_capacity :: "nat \<Rightarrow> memory_queue" where
  "new_with_capacity capacity =
     \<lparr>q_buf = [], q_closed = False, q_capacity = capacity, q_high_water_bytes = 0, q_blocked_writes = 0, q_notified = 0\<rparr>"

definition MemoryQueue_new :: memory_queue where
  "MemoryQueue_new = new_with_capacity DEFAULT_RECORDING_QUEUE_CAPACITY"

definition record_depth :: "nat \<Rightarrow> memory_queue \<Rightarrow> memory_queue" where
  "record_depth len q = q\<lparr>q_high_water_bytes := max (q_high_water_bytes q) len\<rparr>"

text \<open>The test of the waiting loop: whether the writer may go on to append.\<close>

definition may_write :: "memory_queue \<Rightarrow> bool" where
  "may_write q \<longleftrightarrow> q_closed q \<or> length (q_buf q) < q_capacity q"

definition count_block :: "memory_queue \<Rightarrow> memory_queue" where
  "count_block q = q\<lparr>q_blocked_writes := q_blocked_writes q + 1\<rparr>"

definition write_sync :: "bytes \<Rightarrow> memory_queue \<Rightarrow> memory_queue" where
  "write_sync data q =
     (if q_closed q then q
      else let q = q\<lparr>q_buf := q_buf q @ data\<rparr> in record_depth (length (q_buf q)) q)"

text \<open>
  The append after the loop, for \<open>write\<close>, \<open>write_cancellable\<close> (which also looks at its token and
  answers whether it wrote) and \<open>write_batch\<close> (which answers the bytes written).
\<close>

definition write_append :: "bytes \<Rightarrow> memory_queue \<Rightarrow> memory_queue" where
  "write_append data q =
     (if q_closed q then q
      else let q = q\<lparr>q_buf := q_buf q @ data\<rparr> in record_depth (length (q_buf q)) q)"

definition write_cancellable_append :: "bytes \<Rightarrow> bool \<Rightarrow> memory_queue \<Rightarrow> bool \<times> memory_queue" where
  "write_cancellable_append data cancelled q =
     (if q_closed q \<or> cancelled then (False, q)
      else let q = q\<lparr>q_buf := q_buf q @ data\<rparr> in (True, record_depth (length (q_buf q)) q))"

fun extend_chunks :: "bytes list \<Rightarrow> nat \<Rightarrow> bytes \<Rightarrow> nat \<times> bytes" where
  "extend_chunks [] total_bytes buf = (total_bytes, buf)"
| "extend_chunks (chunk # chunks) total_bytes buf =
     extend_chunks chunks (total_bytes + length chunk) (buf @ chunk)"

definition write_batch_append :: "bytes list \<Rightarrow> memory_queue \<Rightarrow> nat \<times> memory_queue" where
  "write_batch_append chunks q =
     (if q_closed q then (0, q)
      else case extend_chunks chunks 0 (q_buf q) of
        (n, buf) \<Rightarrow>
          let q = q\<lparr>q_buf := buf\<rparr>
          in (n, if n > 0 then record_depth (length (q_buf q)) q else q))"

text \<open>A batch of no bytes returns before the loop.\<close>

definition write_batch_empty :: "bytes list \<Rightarrow> bool" where
  "write_batch_empty chunks \<longleftrightarrow> sum_list (map length chunks) = 0"

definition queue_close :: "memory_queue \<Rightarrow> memory_queue" where
  "queue_close q = q\<lparr>q_closed := True, q_notified := q_notified q + 1\<rparr>"

definition is_closed :: "memory_queue \<Rightarrow> bool" where
  "is_closed q = q_closed q"

definition queue_len :: "memory_queue \<Rightarrow> nat" where
  "queue_len q = length (q_buf q)"

definition queue_is_empty :: "memory_queue \<Rightarrow> bool" where
  "queue_is_empty q = (queue_len q = 0)"

text \<open>
  The copy out of the ring's two slices; \<open>split\<close> is where the ring's storage wraps, which the
  standard library chooses.
\<close>

definition copy_slices :: "nat \<Rightarrow> bytes \<Rightarrow> bytes \<Rightarrow> bytes" where
  "copy_slices to_read front back =
     (if to_read \<le> length front then take to_read front
      else front @ take (to_read - length front) back)"

definition read_nonblocking :: "nat \<Rightarrow> nat \<Rightarrow> memory_queue \<Rightarrow> bytes \<times> memory_queue" where
  "read_nonblocking split target_len q =
     (if q_buf q = [] then ([], q)
      else
        let to_read = min target_len (length (q_buf q));
            out = copy_slices to_read (take split (q_buf q)) (drop split (q_buf q));
            q = q\<lparr>q_buf := drop to_read (q_buf q)\<rparr>
        in (out, if length (q_buf q) < q_capacity q then q\<lparr>q_notified := q_notified q + 1\<rparr> else q))"

text \<open>\<open>read\<close> first waits until there is something to read or the queue is closed.\<close>

definition read_ready :: "memory_queue \<Rightarrow> bool" where
  "read_ready q \<longleftrightarrow> \<not> (q_buf q = [] \<and> \<not> q_closed q)"

definition queue_read :: "nat \<Rightarrow> nat \<Rightarrow> memory_queue \<Rightarrow> bytes \<times> memory_queue" where
  "queue_read split target_len q =
     (if q_buf q = [] \<and> q_closed q then ([], q)
      else
        let to_read = min target_len (length (q_buf q));
            out = copy_slices to_read (take split (q_buf q)) (drop split (q_buf q));
            q = q\<lparr>q_buf := drop to_read (q_buf q)\<rparr>
        in (out, if length (q_buf q) < q_capacity q then q\<lparr>q_notified := q_notified q + 1\<rparr> else q))"

lemma copy_slices_take: "copy_slices n (take k xs) (drop k xs) = take n xs"
proof (cases "n \<le> length (take k xs)")
  case True
  then show ?thesis by (simp add: copy_slices_def min.absorb1)
next
  case False
  then have all: "take n (take k xs) = take k xs" by (intro take_all less_imp_le) (simp only: not_le)
  have "take n xs = take n (take k xs @ drop k xs)" by simp
  also have "\<dots> = take k xs @ take (n - length (take k xs)) (drop k xs)"
    by (simp only: take_append all)
  finally show ?thesis using False by (simp add: copy_slices_def)
qed

lemma extend_chunks_eq: "extend_chunks chunks n buf = (n + sum_list (map length chunks), buf @ concat chunks)"
  by (induction chunks arbitrary: n buf) simp_all

lemma queue_read_eq:
  "queue_read k n q = (take n (q_buf q),
     if q_buf q = [] \<and> q_closed q then q
     else let q' = q\<lparr>q_buf := drop n (q_buf q)\<rparr>
          in if length (q_buf q') < q_capacity q then q'\<lparr>q_notified := q_notified q + 1\<rparr> else q')"
  by (auto simp: queue_read_def copy_slices_take Let_def min_def)

lemma read_nonblocking_eq: "q_buf q \<noteq> [] \<Longrightarrow> read_nonblocking k n q = queue_read k n q"
  by (simp add: read_nonblocking_def queue_read_def)

subsection \<open>Writers, a reader and \<open>close\<close>\<close>

text \<open>
  The three writes that wait for space. The states of a writer follow its loop: about to create
  the future, holding it before the check, waiting on it, past the loop, and returned with whether
  its bytes were appended.
\<close>

datatype write_op = Write bytes | Write_Cancellable bytes | Write_Batch "bytes list"

fun op_bytes :: "write_op \<Rightarrow> bytes" where
  "op_bytes (Write data) = data"
| "op_bytes (Write_Cancellable data) = data"
| "op_bytes (Write_Batch chunks) = concat chunks"

fun op_cancellable :: "write_op \<Rightarrow> bool" where
  "op_cancellable (Write_Cancellable data) \<longleftrightarrow> True"
| "op_cancellable _ \<longleftrightarrow> False"

fun op_empty :: "write_op \<Rightarrow> bool" where
  "op_empty (Write_Batch chunks) \<longleftrightarrow> write_batch_empty chunks"
| "op_empty _ \<longleftrightarrow> False"

datatype writer =
    Start write_op bool
  | Armed nat write_op bool
  | Waiting nat write_op bool
  | Ready write_op
  | Returned bool

record queue_system =
  sys_queue :: memory_queue
  sys_writers :: "writer list"
  sys_written :: bytes
  sys_read :: bytes

fun op_append :: "write_op \<Rightarrow> bool \<Rightarrow> memory_queue \<Rightarrow> bool \<times> memory_queue" where
  "op_append (Write data) cancelled q = (\<not> q_closed q, write_append data q)"
| "op_append (Write_Cancellable data) cancelled q = write_cancellable_append data cancelled q"
| "op_append (Write_Batch chunks) cancelled q = (\<not> q_closed q, snd (write_batch_append chunks q))"

inductive queue_step :: "queue_system \<Rightarrow> queue_system \<Rightarrow> bool" where
  step_empty: "i < length (sys_writers s) \<Longrightarrow> sys_writers s ! i = Start op counted \<Longrightarrow> op_empty op \<Longrightarrow>
    queue_step s (s\<lparr>sys_writers := (sys_writers s)[i := Returned False]\<rparr>)"
| step_arm: "i < length (sys_writers s) \<Longrightarrow> sys_writers s ! i = Start op counted \<Longrightarrow> \<not> op_empty op \<Longrightarrow>
    queue_step s (s\<lparr>sys_writers := (sys_writers s)[i := Armed (q_notified (sys_queue s)) op counted]\<rparr>)"
| step_pass: "i < length (sys_writers s) \<Longrightarrow> sys_writers s ! i = Armed g op counted \<Longrightarrow> may_write (sys_queue s) \<Longrightarrow>
    queue_step s (s\<lparr>sys_writers := (sys_writers s)[i := Ready op]\<rparr>)"
| step_block: "i < length (sys_writers s) \<Longrightarrow> sys_writers s ! i = Armed g op counted \<Longrightarrow> \<not> may_write (sys_queue s) \<Longrightarrow>
    queue_step s (s\<lparr>sys_writers := (sys_writers s)[i := Waiting g op True],
                    sys_queue := (if counted then sys_queue s else count_block (sys_queue s))\<rparr>)"
| step_wake: "i < length (sys_writers s) \<Longrightarrow> sys_writers s ! i = Waiting g op counted \<Longrightarrow> g < q_notified (sys_queue s) \<Longrightarrow>
    queue_step s (s\<lparr>sys_writers := (sys_writers s)[i := Start op counted]\<rparr>)"
| step_cancel: "i < length (sys_writers s) \<Longrightarrow> sys_writers s ! i = Waiting g op counted \<Longrightarrow> op_cancellable op \<Longrightarrow>
    queue_step s (s\<lparr>sys_writers := (sys_writers s)[i := Returned False]\<rparr>)"
| step_append: "i < length (sys_writers s) \<Longrightarrow> sys_writers s ! i = Ready op \<Longrightarrow>
    op_append op cancelled (sys_queue s) = (ok, q) \<Longrightarrow>
    queue_step s (s\<lparr>sys_writers := (sys_writers s)[i := Returned ok], sys_queue := q,
                    sys_written := (if ok then sys_written s @ op_bytes op else sys_written s)\<rparr>)"
| step_write_sync: "queue_step s (s\<lparr>sys_queue := write_sync data (sys_queue s),
    sys_written := (if q_closed (sys_queue s) then sys_written s else sys_written s @ data)\<rparr>)"
| step_read: "read_ready (sys_queue s) \<Longrightarrow> queue_read split n (sys_queue s) = (out, q) \<Longrightarrow>
    queue_step s (s\<lparr>sys_queue := q, sys_read := sys_read s @ out\<rparr>)"
| step_read_nonblocking: "read_nonblocking split n (sys_queue s) = (out, q) \<Longrightarrow>
    queue_step s (s\<lparr>sys_queue := q, sys_read := sys_read s @ out\<rparr>)"
| step_close: "queue_step s (s\<lparr>sys_queue := queue_close (sys_queue s)\<rparr>)"

definition queue_init :: "queue_system \<Rightarrow> bool" where
  "queue_init s \<longleftrightarrow> (\<exists>capacity ops. s =
     \<lparr>sys_queue = new_with_capacity capacity, sys_writers = map (\<lambda>op. Start op False) ops, sys_written = [], sys_read = []\<rparr>)"

text \<open>A writer that waits for a notification still to come waits for space that is not there.\<close>

fun writer_ok :: "memory_queue \<Rightarrow> writer \<Rightarrow> bool" where
  "writer_ok q (Armed g op counted) \<longleftrightarrow> g \<le> q_notified q \<and> \<not> op_empty op"
| "writer_ok q (Waiting g op counted) \<longleftrightarrow> \<not> op_empty op \<and> g \<le> q_notified q \<and> (g = q_notified q \<longrightarrow> \<not> may_write q)"
| "writer_ok q w \<longleftrightarrow> True"

definition queue_inv :: "queue_system \<Rightarrow> bool" where
  "queue_inv s \<longleftrightarrow> sys_written s = sys_read s @ q_buf (sys_queue s) \<and>
     length (q_buf (sys_queue s)) \<le> q_high_water_bytes (sys_queue s) \<and> list_all (writer_ok (sys_queue s)) (sys_writers s)"

text \<open>The queue after a step: nobody's wait is forgotten.\<close>

definition queue_progress :: "memory_queue \<Rightarrow> memory_queue \<Rightarrow> bool" where
  "queue_progress q q' \<longleftrightarrow> q_notified q \<le> q_notified q' \<and> (q_notified q = q_notified q' \<longrightarrow> may_write q' \<longrightarrow> may_write q)"

lemma writer_ok_progress: "queue_progress q q' \<Longrightarrow> writer_ok q w \<Longrightarrow> writer_ok q' w"
  by (cases w) (auto simp: queue_progress_def)

lemma writers_ok_update:
  "list_all (writer_ok q) ws \<Longrightarrow> queue_progress q q' \<Longrightarrow> writer_ok q' w \<Longrightarrow> list_all (writer_ok q') (ws[i := w])"
  by (auto simp: list_all_iff dest!: set_update_subset_insert [THEN subsetD] intro: writer_ok_progress)

lemma progress_refl [simp]: "queue_progress q q"
  by (simp add: queue_progress_def)

lemma count_block_fields [simp]:
  "q_buf (count_block q) = q_buf q" "q_high_water_bytes (count_block q) = q_high_water_bytes q"
  by (simp_all add: count_block_def)

lemma progress_count_block [simp]: "queue_progress q (count_block q)"
  by (simp add: queue_progress_def count_block_def may_write_def)

lemma write_batch_append_eq:
  "write_batch_append chunks q =
     (if q_closed q then (0, q)
      else (length (concat chunks),
        if concat chunks = [] then q
        else record_depth (length (q_buf q @ concat chunks)) (q\<lparr>q_buf := q_buf q @ concat chunks\<rparr>)))"
proof -
  have "sum_list (map length chunks) = length (concat chunks)" by (simp add: length_concat)
  then show ?thesis
    by (simp add: write_batch_append_def extend_chunks_eq Let_def del: concat_eq_Nil_conv)
qed

lemma op_append_queue:
  assumes "op_append op cancelled q = (ok, q')"
  shows "q_notified q' = q_notified q \<and> q_closed q' = q_closed q \<and> q_capacity q' = q_capacity q \<and>
    q_buf q' = (if ok then q_buf q @ op_bytes op else q_buf q) \<and> q_high_water_bytes q \<le> q_high_water_bytes q' \<and>
    (length (q_buf q) \<le> q_high_water_bytes q \<longrightarrow> length (q_buf q') \<le> q_high_water_bytes q') \<and>
    ok = (\<not> q_closed q \<and> \<not> (op_cancellable op \<and> cancelled))"
  using assms
  by (cases op) (auto simp: write_append_def write_cancellable_append_def write_batch_append_eq
      record_depth_def Let_def simp del: concat_eq_Nil_conv split: if_splits)

lemma progress_append:
  assumes "op_append op cancelled q = (ok, q')"
  shows "queue_progress q q'"
  using op_append_queue [OF assms] by (auto simp: queue_progress_def may_write_def)

lemma progress_extend: "queue_progress q (record_depth n (q\<lparr>q_buf := q_buf q @ xs\<rparr>))"
  by (auto simp: queue_progress_def may_write_def record_depth_def)

lemma progress_read: "queue_progress q (snd (queue_read k n q))"
  by (auto simp: queue_read_eq queue_progress_def may_write_def Let_def)

lemma progress_close: "queue_progress q (queue_close q)"
  by (simp add: queue_progress_def queue_close_def)

lemma progress_write_sync: "queue_progress q (write_sync data q)"
  by (simp add: write_sync_def progress_extend Let_def)

inductive_cases queue_stepE: "queue_step s t"

lemma queue_inv_step:
  assumes inv: "queue_inv s" and step: "queue_step s t"
  shows "queue_inv t"
  using step
proof cases
  case (step_append i op cancelled ok q)
  with inv op_append_queue [OF step_append(4)] show ?thesis
    by (auto simp: queue_inv_def intro!: writers_ok_update [OF _ progress_append [OF step_append(4)]])
next
  case (step_read split n out q)
  then have q: "out = take n (q_buf (sys_queue s))" "q = snd (queue_read split n (sys_queue s))"
    "q_buf q = drop n (q_buf (sys_queue s))" "q_high_water_bytes q = q_high_water_bytes (sys_queue s)"
    by (auto simp: queue_read_eq Let_def)
  with inv step_read(1) progress_read [of "sys_queue s" split n] show ?thesis
    by (auto simp: queue_inv_def list_all_iff intro: writer_ok_progress)
next
  case (step_read_nonblocking split n out q)
  show ?thesis
  proof (cases "q_buf (sys_queue s) = []")
    case True
    with inv step_read_nonblocking show ?thesis by (auto simp: read_nonblocking_def queue_inv_def)
  next
    case False
    with step_read_nonblocking read_nonblocking_eq have q: "out = take n (q_buf (sys_queue s))"
      "q = snd (queue_read split n (sys_queue s))" "q_buf q = drop n (q_buf (sys_queue s))"
      "q_high_water_bytes q = q_high_water_bytes (sys_queue s)"
      by (auto simp: queue_read_eq Let_def)
    with inv step_read_nonblocking(1) progress_read [of "sys_queue s" split n] show ?thesis
      by (auto simp: queue_inv_def list_all_iff intro: writer_ok_progress)
  qed
next
  case (step_write_sync data)
  with inv progress_write_sync [of "sys_queue s" data] show ?thesis
    by (auto simp: queue_inv_def list_all_iff write_sync_def record_depth_def Let_def intro: writer_ok_progress)
next
  case step_close
  with inv progress_close [of "sys_queue s"] show ?thesis
    by (auto simp: queue_inv_def list_all_iff queue_close_def intro: writer_ok_progress)
next
  case (step_block i g op counted)
  then have "writer_ok (sys_queue s) (Armed g op counted)" using inv by (auto simp: queue_inv_def list_all_length)
  with step_block(4) have "writer_ok (if counted then sys_queue s else count_block (sys_queue s)) (Waiting g op True)"
    by (auto simp: count_block_def may_write_def)
  with inv step_block(1) show ?thesis
    by (cases counted) (auto simp: queue_inv_def intro!: writers_ok_update)
next
  case (step_wake i g op counted)
  with inv show ?thesis by (auto simp: queue_inv_def intro!: writers_ok_update)
qed (use inv in \<open>auto simp: queue_inv_def intro!: writers_ok_update\<close>)

interpretation queue_sys: inductive_invariant queue_init queue_step queue_inv
proof
  fix s assume "queue_init s"
  then show "queue_inv s" by (auto simp: queue_init_def queue_inv_def new_with_capacity_def list_all_iff)
qed (rule queue_inv_step)

text \<open>
  C34. The queue is first in, first out under every interleaving: the bytes of the completed
  writes, in the order they were appended, are the bytes read so far followed by the buffer, and
  the recorded high water covers the buffer.
\<close>

theorem queue_fifo:
  assumes "reachable queue_init queue_step s"
  shows "sys_written s = sys_read s @ q_buf (sys_queue s) \<and>
    length (q_buf (sys_queue s)) \<le> q_high_water_bytes (sys_queue s)"
  using queue_sys.reachable_inv [OF assms] by (simp add: queue_inv_def)

text \<open>The rest of a writer's loop, run on its own once the future has completed.\<close>

lemma writer_finishes:
  assumes i: "i < length (sys_writers s)" and w: "sys_writers s ! i = Waiting g op counted" and "\<not> op_empty op"
    and woken: "g < q_notified (sys_queue s)" and may: "may_write (sys_queue s)"
    and append: "op_append op False (sys_queue s) = (ok, q)"
  shows "queue_step\<^sup>*\<^sup>* s (s\<lparr>sys_writers := (sys_writers s)[i := Returned ok], sys_queue := q,
    sys_written := (if ok then sys_written s @ op_bytes op else sys_written s)\<rparr>)"
proof -
  let ?s1 = "s\<lparr>sys_writers := (sys_writers s)[i := Start op counted]\<rparr>"
  let ?s2 = "s\<lparr>sys_writers := (sys_writers s)[i := Armed (q_notified (sys_queue s)) op counted]\<rparr>"
  let ?s3 = "s\<lparr>sys_writers := (sys_writers s)[i := Ready op]\<rparr>"
  have "queue_step s ?s1" using step_wake [OF i w woken] .
  moreover have "queue_step ?s1 ?s2" using step_arm [of i ?s1 op counted] i assms(3) by simp
  moreover have "queue_step ?s2 ?s3" using step_pass [of i ?s2 _ op counted] i may by simp
  moreover have "queue_step ?s3 (s\<lparr>sys_writers := (sys_writers s)[i := Returned ok], sys_queue := q,
      sys_written := (if ok then sys_written s @ op_bytes op else sys_written s)\<rparr>)"
    using step_append [of i ?s3 op False ok q] i append by (cases ok) simp_all
  ultimately show ?thesis by (meson converse_rtranclp_into_rtranclp rtranclp.rtrancl_refl)
qed


text \<open>A run in which the second of two writers blocks and the reader then makes room.\<close>

definition run_state :: "bytes \<Rightarrow> writer list \<Rightarrow> nat \<Rightarrow> nat \<Rightarrow> nat \<Rightarrow> bytes \<Rightarrow> bytes \<Rightarrow> queue_system" where
  "run_state buf ws high blocked notified wr rd =
     \<lparr>sys_queue = \<lparr>q_buf = buf, q_closed = False, q_capacity = 1, q_high_water_bytes = high, q_blocked_writes = blocked, q_notified = notified\<rparr>,
      sys_writers = ws, sys_written = wr, sys_read = rd\<rparr>"

lemma run_blocked:
  "reachable queue_init queue_step
     (run_state [] [Returned True, Waiting 0 (Write_Batch [[3]]) True] 2 1 1 [1, 2] [1, 2])"
proof -
  let ?a = "Write [1, 2]" and ?b = "Write_Batch [[3 :: u8]]"
  let ?r = "reachable queue_init queue_step"
  have "?r (run_state [] [Start ?a False, Start ?b False] 0 0 0 [] [])"
    by (rule reachable_init) (auto simp: queue_init_def run_state_def new_with_capacity_def intro!: exI [of _ "[?a, ?b]"])
  from reachable_step [OF this step_arm [of 0 _ ?a False]]
  have "?r (run_state [] [Armed 0 ?a False, Start ?b False] 0 0 0 [] [])" by (simp add: run_state_def)
  from reachable_step [OF this step_pass [of 0 _ 0 ?a False]]
  have "?r (run_state [] [Ready ?a, Start ?b False] 0 0 0 [] [])" by (simp add: run_state_def may_write_def)
  from reachable_step [OF this step_append [of 0 _ ?a False True]]
  have "?r (run_state [1, 2] [Returned True, Start ?b False] 2 0 0 [1, 2] [])"
    by (simp add: run_state_def write_append_def record_depth_def numeral_2_eq_2)
  from reachable_step [OF this step_arm [of 1 _ ?b False]]
  have "?r (run_state [1, 2] [Returned True, Armed 0 ?b False] 2 0 0 [1, 2] [])" by (simp add: run_state_def write_batch_empty_def)
  from reachable_step [OF this step_block [of 1 _ 0 ?b False]]
  have "?r (run_state [1, 2] [Returned True, Waiting 0 ?b True] 2 1 0 [1, 2] [])"
    by (simp add: run_state_def may_write_def count_block_def)
  from reachable_step [OF this step_read [of _ 0 5]] show ?thesis
    by (simp add: run_state_def queue_read_eq read_ready_def)
qed

theorem queue_fifo_witness:
  "sys_written (run_state [] [Returned True, Waiting 0 (Write_Batch [[3]]) True] 2 1 1 [1, 2] [1, 2]) = [1, 2] @ []"
  using queue_fifo [OF run_blocked] by (simp add: run_state_def)


end
