(* ===== verification/Ts_Wire.thy ===== *)
theory Ts_Wire
  imports Bit_Reader
begin

text \<open>
  The wire vocabulary of MPEG-TS (\<open>crates/restream-mpegts/src/wire.rs\<close>): the 33-bit timestamps of
  a PES header, the program clock reference, the 90 kHz clock and the section checksum. An \<open>i64\<close>
  timestamp is an integer; arithmetic that may leave the type wraps, as the release profile
  compiles it.

  Writing and parsing a timestamp is reduction modulo \<open>2 ^ 33\<close>. The table-driven checksum is the
  bitwise shift register of the standard, and a section followed by its checksum has checksum 0.
\<close>

unbundle bit_operations_syntax

subsection \<open>Constants and clocks\<close>

definition TS_PACKET_SIZE :: nat where
  "TS_PACKET_SIZE = 188"

definition TS_SYNC_BYTE :: u8 where
  "TS_SYNC_BYTE = 0x47"

definition PAT_PID :: u16 where
  "PAT_PID = 0x0000"

definition SDT_PID :: u16 where
  "SDT_PID = 0x0011"

definition PES_START_CODE :: bytes where
  "PES_START_CODE = [0x00, 0x00, 0x01]"

text \<open>Two's complement reduction to \<open>i64\<close>.\<close>

definition wrap_i64 :: "int \<Rightarrow> int" where
  "wrap_i64 v = signed_take_bit 63 v"

text \<open>\<open>i64\<close> division rounds towards zero.\<close>

definition ts_to_ms :: "int \<Rightarrow> int" where
  "ts_to_ms ts_90k = sgn ts_90k * (\<bar>ts_90k\<bar> div 90)"

definition ms_to_ts :: "int \<Rightarrow> int" where
  "ms_to_ts ms = wrap_i64 (ms * 90)"

lemma wrap_i64_id: "i64_MIN \<le> v \<Longrightarrow> v \<le> i64_MAX \<Longrightarrow> wrap_i64 v = v"
  by (simp add: wrap_i64_def signed_take_bit_int_eq_self_iff max_defs)

lemma ts_to_ms_nonneg: "0 \<le> t \<Longrightarrow> ts_to_ms t = t div 90"
  by (cases "t = 0") (simp_all add: ts_to_ms_def)

lemma ts_ms_roundtrip: "0 \<le> ms \<Longrightarrow> ms \<le> 2 ^ 56 \<Longrightarrow> ts_to_ms (ms_to_ts ms) = ms"
  by (simp add: ms_to_ts_def wrap_i64_id max_defs ts_to_ms_nonneg)

subsection \<open>Timestamps\<close>

definition parse_timestamp :: "bytes \<Rightarrow> int" where
  "parse_timestamp data =
     (let b = map uint data
      in push_bit 30 (drop_bit 1 (b ! 0) AND 0x07) OR push_bit 22 (b ! 1) OR push_bit 15 (drop_bit 1 (b ! 2))
         OR push_bit 7 (b ! 3) OR drop_bit 1 (b ! 4))"

text \<open>The five bytes written to the buffer.\<close>

definition write_timestamp_buf :: "int \<Rightarrow> u8 \<Rightarrow> bytes" where
  "write_timestamp_buf ts marker =
     [push_bit 4 marker OR push_bit 1 (of_int (drop_bit 30 ts) AND 0x07) OR 0x01,
      of_int (drop_bit 22 ts AND 0xFF),
      push_bit 1 (of_int (drop_bit 15 ts AND 0x7F)) OR 0x01,
      of_int (drop_bit 7 ts AND 0xFF),
      push_bit 1 (of_int (ts AND 0x7F)) OR 0x01]"

definition write_pcr :: "int \<Rightarrow> bytes" where
  "write_pcr ts_90k =
     (let pcr_base = (of_int (max 0 ts_90k) :: u64); pcr_ext = (0 :: u16)
      in [ucast (drop_bit 25 pcr_base), ucast (drop_bit 17 pcr_base), ucast (drop_bit 9 pcr_base),
          ucast (drop_bit 1 pcr_base),
          ucast (push_bit 7 (pcr_base AND 1)) OR 0x7E OR (ucast (drop_bit 8 pcr_ext) AND 0x01),
          ucast pcr_ext])"

lemma length_write_timestamp_buf [simp]: "length (write_timestamp_buf ts marker) = 5"
  by (simp add: write_timestamp_buf_def)

lemma length_write_pcr [simp]: "length (write_pcr ts) = 6"
  by (simp add: write_pcr_def Let_def)

text \<open>
  The bytes copied out of the logical concatenation of a PES header and its payload. The caller
  stays inside the two slices.
\<close>

definition copy_pes_slices :: "bytes \<Rightarrow> bytes \<Rightarrow> nat \<Rightarrow> nat \<Rightarrow> bytes" where
  "copy_pes_slices hdr payload offset len =
     (let from_hdr = (if offset < length hdr then take (min (length hdr - offset) len) (drop offset hdr) else []);
          written = length from_hdr
      in if written < len
         then (let payload_offset = offset - length hdr; remaining = len - written
               in from_hdr @ take remaining (drop payload_offset payload))
         else from_hdr)"

lemma copy_pes_slices_eq: "copy_pes_slices hdr payload offset len = take len (drop offset (hdr @ payload))"
  by (auto simp: copy_pes_slices_def Let_def min_def)

text \<open>Each byte gives back its bits of the timestamp.\<close>

lemma timestamp_byte0:
  "drop_bit 1 (uint (push_bit 4 marker OR push_bit 1 (of_int t AND 0x07) OR 0x01 :: u8)) AND 0x07 = take_bit 3 t"
proof -
  have m: "(7 :: u8) = mask 3" "(7 :: int) = mask 3" by (simp_all add: mask_eq_exp_minus_1)
  show ?thesis unfolding m
    by (rule bit_eqI) (auto simp: bit_simps simp del: One_nat_def push_bit_Suc)
qed

lemma timestamp_byte_full: "uint (of_int (t AND 0xFF) :: u8) = take_bit 8 t"
proof -
  have m: "(0xFF :: int) = mask 8" by (simp add: mask_eq_exp_minus_1)
  show ?thesis unfolding m by (rule bit_eqI) (auto simp: bit_simps simp del: One_nat_def push_bit_Suc)
qed

lemma timestamp_byte_marked: "drop_bit 1 (uint (push_bit 1 (of_int (t AND 0x7F)) OR 0x01 :: u8)) = take_bit 7 t"
proof -
  have m: "(0x7F :: int) = mask 7" by (simp add: mask_eq_exp_minus_1)
  show ?thesis unfolding m by (rule bit_eqI) (auto simp: bit_simps simp del: One_nat_def push_bit_Suc)
qed

lemma parse_timestamp_bytes:
  "parse_timestamp [b0, b1, b2, b3, b4] =
     push_bit 30 (drop_bit 1 (uint b0) AND 0x07) OR push_bit 22 (uint b1) OR push_bit 15 (drop_bit 1 (uint b2))
     OR push_bit 7 (uint b3) OR drop_bit 1 (uint b4)"
  by (simp add: parse_timestamp_def Let_def)

lemma bit_field: "bit (push_bit k (take_bit m (drop_bit k (t :: int)))) n \<longleftrightarrow> k \<le> n \<and> n < k + m \<and> bit t n"
  by (auto simp: bit_simps)

lemma parse_write_timestamp: "parse_timestamp (write_timestamp_buf ts marker) = take_bit 33 ts"
proof -
  have "parse_timestamp (write_timestamp_buf ts marker) =
      push_bit 30 (take_bit 3 (drop_bit 30 ts)) OR push_bit 22 (take_bit 8 (drop_bit 22 ts)) OR
      push_bit 15 (take_bit 7 (drop_bit 15 ts)) OR push_bit 7 (take_bit 8 (drop_bit 7 ts)) OR take_bit 7 ts"
    unfolding write_timestamp_buf_def parse_timestamp_bytes timestamp_byte0 timestamp_byte_full timestamp_byte_marked ..
  also have "\<dots> = take_bit 33 ts"
    by (rule bit_eqI) (auto simp: bit_or_iff bit_field bit_take_bit_iff)
  finally show ?thesis .
qed

lemma parse_write_timestamp_id: "0 \<le> ts \<Longrightarrow> ts < 2 ^ 33 \<Longrightarrow> parse_timestamp (write_timestamp_buf ts marker) = ts"
  by (simp add: parse_write_timestamp take_bit_int_eq_self_iff)

lemma parse_timestamp_range:
  assumes "length data = 5"
  shows "0 \<le> parse_timestamp data \<and> parse_timestamp data < 2 ^ 33"
proof -
  from assms obtain b0 b1 b2 b3 b4 where d: "data = [b0, b1, b2, b3, b4]"
    by (auto simp: length_Suc_conv numeral_eq_Suc)
  have field: "take_bit 33 (push_bit k v) = push_bit k v" if "0 \<le> v" "v < 2 ^ (33 - k)" "k \<le> 33" for v :: int and k
    using that by (simp add: take_bit_push_bit take_bit_int_eq_self)
  have byte: "0 \<le> uint b" "uint b < 256" "0 \<le> drop_bit 1 (uint b)" "drop_bit 1 (uint b) < 256" for b :: u8
    using uint_lt2p [of b] by (auto simp: drop_bit_eq_div)
  have low: "0 \<le> (v AND 7 :: int)" "(v AND 7 :: int) < 8" for v :: int
    using take_bit_int_less_exp [of 3 v] by (simp_all add: take_bit_eq_mask mask_eq_exp_minus_1)
  have "take_bit 33 (push_bit 30 (drop_bit 1 (uint b0) AND 7)) = push_bit 30 (drop_bit 1 (uint b0) AND 7)"
    by (rule field) (use low [of "drop_bit 1 (uint b0)"] in simp_all)
  moreover have "take_bit 33 (push_bit 22 (uint b1)) = push_bit 22 (uint b1)"
    by (rule field) (use byte(2) [of b1] in simp_all)
  moreover have "take_bit 33 (push_bit 15 (drop_bit 1 (uint b2))) = push_bit 15 (drop_bit 1 (uint b2))"
    by (rule field) (use byte(3,4) [of b2] in simp_all)
  moreover have "take_bit 33 (push_bit 7 (uint b3)) = push_bit 7 (uint b3)"
    by (rule field) (use byte(2) [of b3] in simp_all)
  moreover have "take_bit 33 (drop_bit 1 (uint b4)) = drop_bit 1 (uint b4)"
    using byte(3,4) [of b4] by (simp add: take_bit_int_eq_self)
  ultimately have "take_bit 33 (parse_timestamp data) = parse_timestamp data"
    unfolding d parse_timestamp_bytes take_bit_or by (simp only:)
  then show ?thesis by (metis take_bit_int_less_exp take_bit_nonnegative)
qed

subsection \<open>Checksums\<close>

text \<open>One shift of the register, and the table of eight shifts of every top byte.\<close>

definition crc_shift :: "u32 \<Rightarrow> u32" where
  "crc_shift crc = (if crc AND 0x80000000 \<noteq> 0 then push_bit 1 crc XOR 0x04C11DB7 else push_bit 1 crc)"

definition CRC32_TABLE :: "u32 list" where
  "CRC32_TABLE = map (\<lambda>i. (crc_shift ^^ 8) (push_bit 24 (of_nat i))) [0..<256]"

definition crc32_step :: "u32 \<Rightarrow> u8 \<Rightarrow> u32" where
  "crc32_step crc byte =
     (let idx = unat ((drop_bit 24 crc XOR ucast byte) AND 0xFF)
      in push_bit 8 crc XOR CRC32_TABLE ! idx)"

definition crc32_mpeg2 :: "bytes \<Rightarrow> u32" where
  "crc32_mpeg2 data = foldl crc32_step 0xFFFFFFFF data"

definition crc_bytes :: "u32 \<Rightarrow> bytes" where
  "crc_bytes crc = [ucast (drop_bit 24 crc), ucast (drop_bit 16 crc), ucast (drop_bit 8 crc), ucast crc]"

text \<open>The register is linear over \<open>XOR\<close>.\<close>

lemma crc_shift_bit: "crc AND 0x80000000 \<noteq> 0 \<longleftrightarrow> bit (crc :: u32) 31"
proof -
  have m: "(0x80000000 :: u32) = push_bit 31 1" by (simp add: push_bit_eq_mult)
  have top: "bit (0x80000000 :: u32) n \<longleftrightarrow> n = 31" for n
  proof -
    have "bit (0x80000000 :: u32) n \<longleftrightarrow> 31 \<le> n \<and> n < 32 \<and> n - 31 = 0"
      unfolding m bit_push_bit_iff bit_1_iff by auto
    then show ?thesis by auto
  qed
  have "bit (crc AND 0x80000000) n \<longleftrightarrow> n = 31 \<and> bit crc 31" for n
    unfolding bit_and_iff top by auto
  then show ?thesis by (metis bit_0_eq bot_apply bot_bool_def bit_eqI)
qed

lemma crc_shift_xor: "crc_shift (x XOR y) = crc_shift x XOR crc_shift y"
  unfolding crc_shift_def crc_shift_bit bit_xor_iff push_bit_xor by (auto simp: ac_simps)

lemma crc_shifts_xor: "(crc_shift ^^ n) (x XOR y) = (crc_shift ^^ n) x XOR (crc_shift ^^ n) y"
  by (induction n) (simp_all add: crc_shift_xor)

lemma crc_shifts_low: "n + k \<le> 32 \<Longrightarrow> (crc_shift ^^ n) (take_bit k x) = push_bit n (take_bit k x)"
proof (induction n)
  case (Suc n)
  then have "\<not> bit (push_bit n (take_bit k x)) 31" by (auto simp: bit_simps)
  with Suc show ?case by (simp add: crc_shift_def crc_shift_bit del: push_bit_Suc)
qed simp

text \<open>The checksum of the standard: a register fed one bit at a time, most significant first.\<close>

definition crc_feed_bit :: "u32 \<Rightarrow> bool \<Rightarrow> u32" where
  "crc_feed_bit crc d = push_bit 1 crc XOR (if bit crc 31 \<noteq> d then 0x04C11DB7 else 0)"

definition crc32_reference :: "bytes \<Rightarrow> u32" where
  "crc32_reference data = foldl crc_feed_bit 0xFFFFFFFF (concat (map byte_bits data))"

text \<open>The bits of a list placed from the top of the register down.\<close>

definition top_bits :: "bool list \<Rightarrow> u32" where
  "top_bits ds = foldl (\<lambda>v i. if ds ! i then v XOR push_bit (31 - i) 1 else v) 0 [0..<length ds]"

lemma top_bits_snoc:
  "top_bits (ds @ [d]) = (if d then top_bits ds XOR push_bit (31 - length ds) 1 else top_bits ds)"
proof -
  have "foldl (\<lambda>v i. if (ds @ [d]) ! i then v XOR push_bit (31 - i) 1 else v) (0 :: u32) [0..<length ds] = top_bits ds"
    unfolding top_bits_def by (rule foldl_cong) (simp_all add: nth_append)
  then show ?thesis by (simp add: top_bits_def)
qed

lemma crc_feed_bit_shift: "crc_feed_bit crc d = crc_shift (if d then crc XOR push_bit 31 1 else crc)"
proof -
  have "push_bit 1 (push_bit 31 1 :: u32) = 0" by (simp only: push_bit_push_bit) (simp add: push_bit_eq_mult)
  moreover have "bit (push_bit 31 1 :: u32) 31" by (simp only: bit_push_bit_iff bit_1_iff) simp
  ultimately show ?thesis
    unfolding crc_feed_bit_def crc_shift_def crc_shift_bit
    by (simp add: bit_xor_iff push_bit_xor del: push_bit_Suc One_nat_def push_bit_of_1)
qed

lemma crc_shifts_one:
  assumes "n \<le> 31"
  shows "(crc_shift ^^ n) (push_bit (31 - n) 1) = push_bit 31 1"
proof -
  have "push_bit (31 - n) 1 = take_bit (32 - n) (push_bit (31 - n) (1 :: u32))"
    using assms by (intro bit_eqI) (auto simp: bit_simps)
  then have "(crc_shift ^^ n) (push_bit (31 - n) 1) = push_bit n (push_bit (31 - n) 1)"
    using crc_shifts_low [of n "32 - n" "push_bit (31 - n) 1"] assms by simp
  with assms show ?thesis by (simp only: push_bit_push_bit) simp
qed

lemma crc_feed_bits:
  "length ds \<le> 32 \<Longrightarrow> foldl crc_feed_bit crc ds = (crc_shift ^^ length ds) (crc XOR top_bits ds)"
proof (induction ds rule: rev_induct)
  case Nil
  then show ?case by (simp add: top_bits_def)
next
  case (snoc d ds)
  then have n: "length ds \<le> 31" by simp
  have IH: "foldl crc_feed_bit crc ds = (crc_shift ^^ length ds) (crc XOR top_bits ds)" using snoc by simp
  have "foldl crc_feed_bit crc (ds @ [d]) = crc_shift (if d
      then (crc_shift ^^ length ds) (crc XOR top_bits ds) XOR (crc_shift ^^ length ds) (push_bit (31 - length ds) 1)
      else (crc_shift ^^ length ds) (crc XOR top_bits ds))"
    unfolding foldl_append foldl.simps IH crc_shifts_one [OF n] by (rule crc_feed_bit_shift)
  also have "\<dots> = (crc_shift ^^ length (ds @ [d])) (crc XOR top_bits (ds @ [d]))"
    unfolding crc_shifts_xor [symmetric] top_bits_snoc by (cases d) (simp_all add: ac_simps)
  finally show ?case .
qed

lemma bit_top_bits:
  "length ds \<le> 32 \<Longrightarrow> n < 32 \<Longrightarrow> bit (top_bits ds) n \<longleftrightarrow> 31 - n < length ds \<and> ds ! (31 - n)"
proof (induction ds rule: rev_induct)
  case Nil
  then show ?case by (simp add: top_bits_def)
next
  case (snoc d ds)
  have one: "bit (push_bit (31 - length ds) (1 :: u32)) n \<longleftrightarrow> 31 - n = length ds"
    using snoc.prems by (auto simp: bit_simps)
  from snoc.IH snoc.prems have IH: "bit (top_bits ds) n \<longleftrightarrow> 31 - n < length ds \<and> ds ! (31 - n)" by simp
  have "bit (top_bits (ds @ [d])) n \<longleftrightarrow> bit (top_bits ds) n \<noteq> (d \<and> 31 - n = length ds)"
    unfolding top_bits_snoc by (cases d) (simp_all only: if_True if_False bit_xor_iff one simp_thms)
  then show ?case unfolding IH by (auto simp: nth_append less_Suc_eq)
qed

lemma top_bits_byte: "top_bits (byte_bits b) = push_bit 24 (ucast b)"
proof (rule bit_eqI)
  fix n assume "possible_bit TYPE(u32) n"
  then have n: "n < 32" by simp
  have b: "byte_bits b = map (\<lambda>i. bit b (7 - i)) [0..<8]" by (simp add: byte_bits_def upt_rec)
  show "bit (top_bits (byte_bits b)) n = bit (push_bit 24 (ucast b :: u32)) n"
    using n unfolding bit_top_bits [of "byte_bits b" n, unfolded b, simplified] b
    by (cases "24 \<le> n") (auto simp: bit_top_bits bit_simps)
qed

text \<open>Eight shifts at once: the low part moves up, the top byte selects the table entry.\<close>

lemma crc_shifts_table:
  "(crc_shift ^^ 8) x = push_bit 8 x XOR CRC32_TABLE ! unat (drop_bit 24 x AND 0xFF)"
proof -
  have "drop_bit 24 x AND 0xFF = drop_bit 24 x"
  proof (rule bit_eqI)
    have m: "(0xFF :: u32) = mask 8" by (simp add: mask_eq_exp_minus_1)
    fix n show "bit (drop_bit 24 x AND 0xFF) n = bit (drop_bit 24 x) n"
      unfolding m by (auto simp: bit_simps dest: bit_imp_le_length)
  qed
  moreover have "unat (drop_bit 24 x) < 256"
  proof -
    have "unat (drop_bit 24 x) = unat x div 2 ^ 24" unfolding unat_drop_bit_eq by (rule drop_bit_eq_div)
    moreover have "unat x < 2 ^ 32" using unsigned_less [where ?'a = nat, of x] by simp
    ultimately show ?thesis by simp
  qed
  then have "CRC32_TABLE ! unat (drop_bit 24 x) = (crc_shift ^^ 8) (push_bit 24 (drop_bit 24 x))"
    by (simp add: CRC32_TABLE_def)
  moreover have "x = take_bit 24 x XOR push_bit 24 (drop_bit 24 x)"
    by (rule bit_eqI) (auto simp: bit_simps)
  then have "(crc_shift ^^ 8) x = push_bit 8 (take_bit 24 x) XOR (crc_shift ^^ 8) (push_bit 24 (drop_bit 24 x))"
    using crc_shifts_low [of 8 24 x] crc_shifts_xor [of 8 "take_bit 24 x" "push_bit 24 (drop_bit 24 x)"] by simp
  moreover have "push_bit 8 (take_bit 24 x) = push_bit 8 x"
    by (rule bit_eqI) (auto simp: bit_simps)
  ultimately show ?thesis by simp
qed

lemma crc32_step_bits: "crc32_step crc b = foldl crc_feed_bit crc (byte_bits b)"
proof -
  have len: "length (byte_bits b) = 8" by (simp add: byte_bits_def)
  have "foldl crc_feed_bit crc (byte_bits b) = (crc_shift ^^ 8) (crc XOR push_bit 24 (ucast b))"
    using crc_feed_bits [of "byte_bits b" crc] unfolding len top_bits_byte by simp
  also have "\<dots> = crc32_step crc b"
  proof -
    have "push_bit 8 (push_bit 24 (ucast b)) = (0 :: u32)" by (rule bit_eqI) (auto simp: bit_simps)
    moreover have "drop_bit 24 (push_bit 24 (ucast b)) = (ucast b :: u32)"
      by (rule bit_eqI) (auto simp: bit_simps dest: bit_imp_le_length)
    ultimately show ?thesis
      unfolding crc_shifts_table crc32_step_def Let_def push_bit_xor drop_bit_xor by simp
  qed
  finally show ?thesis by simp
qed

lemma crc32_bits: "crc32_mpeg2 data = crc32_reference data"
proof -
  have "foldl crc32_step crc data = foldl crc_feed_bit crc (concat (map byte_bits data))" for crc
    by (induction data arbitrary: crc) (simp_all add: crc32_step_bits)
  then show ?thesis by (simp add: crc32_mpeg2_def crc32_reference_def)
qed

text \<open>Feeding a register its own bytes clears it.\<close>

lemma crc32_step_own: "crc32_step crc (ucast (drop_bit 24 crc)) = push_bit 8 crc"
proof -
  have "CRC32_TABLE ! 0 = (crc_shift ^^ 8) 0" unfolding CRC32_TABLE_def by (subst nth_map) simp_all
  then have "CRC32_TABLE ! 0 = 0" using crc_shifts_low [of 8 0 0] by simp
  moreover have "ucast (ucast (drop_bit 24 crc) :: u8) = drop_bit 24 crc"
    by (rule bit_eqI) (auto simp: bit_simps dest: bit_imp_le_length)
  ultimately show ?thesis by (simp add: crc32_step_def)
qed

lemma crc_residue: "crc32_mpeg2 (data @ crc_bytes (crc32_mpeg2 data)) = 0"
proof -
  define c where "c = crc32_mpeg2 data"
  have top: "ucast (drop_bit k c) = (ucast (drop_bit 24 (push_bit (24 - k) c)) :: u8)" if "k \<le> 24" for k
    using that by (intro bit_eqI) (auto simp: bit_simps add.commute)
  have step: "crc32_step (push_bit (24 - k) c) (ucast (drop_bit k c)) = push_bit (32 - k) c" if "k \<le> 24" for k
    using that unfolding top [OF that] crc32_step_own push_bit_push_bit by (simp add: add.commute)
  have "foldl crc32_step c (crc_bytes c) = push_bit 32 c"
    using step [of 24] step [of 16] step [of 8] step [of 0] by (simp add: crc_bytes_def)
  also have "\<dots> = 0" by (rule bit_eqI) (auto simp: bit_simps)
  finally show ?thesis by (simp add: c_def crc32_mpeg2_def)
qed

text \<open>
  C37. The table-driven checksum is the bit-serial register of the standard on every input, and a
  section followed by the four bytes of its checksum has checksum 0, which is what a receiver
  tests.
\<close>

theorem crc32_exact:
  "crc32_mpeg2 data = crc32_reference data \<and> crc32_mpeg2 (data @ crc_bytes (crc32_mpeg2 data)) = 0"
  using crc32_bits crc_residue by blast

end
