(* ===== verification/Ts_Mux.thy ===== *)
theory Ts_Mux
  imports Ts_Wire Media_Packet Media_Meta Aac
begin

text \<open>
  The MPEG-TS muxer (\<open>crates/restream-mpegts/src/mux.rs\<close>): one PES packet per media packet, cut into
  188-byte transport packets with continuity counters, a clock reference on the first stream and
  stuffing in the last packet; the program tables before the first packet, before keyframes and
  every half second.

  The source writes each transport packet into a buffer preset to 0xFF. Here a packet is its header,
  its payload and what is left of the preset bytes. The operations return the muxer and the bytes
  appended to the caller's buffer.
\<close>

unbundle bit_operations_syntax

subsection \<open>State\<close>

definition STREAM_TYPE_H264 :: u8 where
  "STREAM_TYPE_H264 = 0x1B"

definition STREAM_TYPE_H265 :: u8 where
  "STREAM_TYPE_H265 = 0x24"

definition STREAM_TYPE_AAC_ADTS :: u8 where
  "STREAM_TYPE_AAC_ADTS = 0x0F"

definition is_ascii_alphabetic :: "u8 \<Rightarrow> bool" where
  "is_ascii_alphabetic b \<longleftrightarrow> 0x41 \<le> b \<and> b \<le> 0x5A \<or> 0x61 \<le> b \<and> b \<le> 0x7A"

definition to_ascii_lowercase :: "u8 \<Rightarrow> u8" where
  "to_ascii_lowercase b = (if 0x41 \<le> b \<and> b \<le> 0x5A then b + 0x20 else b)"

definition iso639_language_descriptor :: "string option \<Rightarrow> bytes" where
  "iso639_language_descriptor language =
     (case language of
        None \<Rightarrow> []
      | Some language \<Rightarrow>
          let code = map to_ascii_lowercase (take 3 (filter is_ascii_alphabetic (str_bytes language)))
          in if length code \<noteq> 3 then [] else [0x0A, 0x04] @ code @ [0x00])"

record mux_stream_config =
  mc_stream_type :: u8
  mc_pid :: u16
  mc_media_type :: media_type
  mc_track_index :: nat
  mc_sample_rate :: nat
  mc_language :: "string option"

record ts_service_metadata =
  provider_name :: string
  service_name :: string

record ts_muxer =
  mx_streams :: "mux_stream_config list"
  mx_continuity :: "u8 list"
  mx_pat_cc :: u8
  mx_pmt_cc :: u8
  mx_sdt_cc :: u8
  mx_pmt_pid :: u16
  mx_pcr_pid :: u16
  mx_last_pat_pmt_dts :: "int option"
  mx_last_dts_90k :: "int list"
  mx_service_metadata :: ts_service_metadata
  mx_output :: bytes

record packet_meta =
  meta_pts_ms :: int
  meta_dts_ms :: int
  meta_is_keyframe :: bool

definition TsServiceMetadata_default :: ts_service_metadata where
  "TsServiceMetadata_default = \<lparr>provider_name = ''Restream'', service_name = ''Restream Recording''\<rparr>"

definition TsServiceMetadata_disabled :: ts_service_metadata where
  "TsServiceMetadata_disabled = \<lparr>provider_name = [], service_name = []\<rparr>"

definition video_stream :: "video_meta \<Rightarrow> u16 \<Rightarrow> mux_stream_config" where
  "video_stream v pid =
     \<lparr>mc_stream_type =
        (if vm_codec v = ''h264'' then STREAM_TYPE_H264
         else if vm_codec v = ''hevc'' then STREAM_TYPE_H265
         else STREAM_TYPE_H264),
      mc_pid = pid, mc_media_type = Video, mc_track_index = 0, mc_sample_rate = 0, mc_language = None\<rparr>"

fun audio_streams :: "audio_meta list \<Rightarrow> u16 \<Rightarrow> mux_stream_config list" where
  "audio_streams [] pid = []"
| "audio_streams (a # as) pid =
     \<lparr>mc_stream_type = STREAM_TYPE_AAC_ADTS, mc_pid = pid, mc_media_type = Audio,
      mc_track_index = am_track_index a, mc_sample_rate = am_sample_rate a, mc_language = am_language a\<rparr>
     # audio_streams as (pid + 1)"

definition new_with_metadata :: "video_meta option \<Rightarrow> audio_meta list \<Rightarrow> ts_service_metadata \<Rightarrow> ts_muxer" where
  "new_with_metadata video audio_tracks service_metadata =
     (let streams =
            (case video of
               None \<Rightarrow> audio_streams audio_tracks 0x100
             | Some v \<Rightarrow> video_stream v 0x100 # audio_streams audio_tracks 0x101);
          stream_count = length streams
      in \<lparr>mx_streams = streams, mx_continuity = replicate stream_count 0, mx_pat_cc = 0, mx_pmt_cc = 0,
          mx_sdt_cc = 0, mx_pmt_pid = 0x1000,
          mx_pcr_pid = (case streams of [] \<Rightarrow> 0x100 | s # _ \<Rightarrow> mc_pid s),
          mx_last_pat_pmt_dts = None, mx_last_dts_90k = replicate stream_count i64_MIN,
          mx_service_metadata = service_metadata, mx_output = []\<rparr>)"

definition TsMuxer_new :: "video_meta option \<Rightarrow> audio_meta list \<Rightarrow> ts_muxer" where
  "TsMuxer_new video audio_tracks = new_with_metadata video audio_tracks TsServiceMetadata_disabled"

definition stream_index :: "ts_muxer \<Rightarrow> media_type \<Rightarrow> nat \<Rightarrow> nat option" where
  "stream_index m mt track =
     position_from (\<lambda>s. mc_media_type s = mt \<and> mc_track_index s = track) 0 (mx_streams m)"

subsection \<open>Tables\<close>

definition next_cc :: "u8 \<Rightarrow> u8" where
  "next_cc cc = (cc + 1) AND 0x0F"

definition pad_ts :: "bytes \<Rightarrow> bytes" where
  "pad_ts bs = bs @ replicate (TS_PACKET_SIZE - length bs) 0xFF"

definition pid_high :: "u16 \<Rightarrow> u8" where
  "pid_high pid = ucast (drop_bit 8 pid) AND 0x1F"

definition write_pat :: "ts_muxer \<Rightarrow> ts_muxer \<times> bytes" where
  "write_pat m =
     (let pat = [0x00, 0xB0, 13, 0x00, 0x01, 0xC1, 0x00, 0x00, 0x00, 0x01,
                 0xE0 OR pid_high (mx_pmt_pid m), ucast (mx_pmt_pid m)]
      in (m\<lparr>mx_pat_cc := next_cc (mx_pat_cc m)\<rparr>,
          pad_ts ([TS_SYNC_BYTE, 0x40, 0x00, 0x10 OR (mx_pat_cc m AND 0x0F), 0x00] @ pat @ crc_bytes (crc32_mpeg2 pat))))"

definition stream_descriptors :: "mux_stream_config \<Rightarrow> bytes" where
  "stream_descriptors s =
     (case mc_media_type s of Audio \<Rightarrow> iso639_language_descriptor (mc_language s) | Video \<Rightarrow> [])"

definition pmt_entry :: "mux_stream_config \<Rightarrow> bytes" where
  "pmt_entry s =
     (let descriptors = stream_descriptors s
      in [mc_stream_type s, 0xE0 OR pid_high (mc_pid s), ucast (mc_pid s),
          0xF0 OR (of_nat (length descriptors div 256) AND 0x0F), of_nat (length descriptors)] @ descriptors)"

definition pmt_section_len :: "ts_muxer \<Rightarrow> nat" where
  "pmt_section_len m = 9 + sum_list (map (\<lambda>s. 5 + length (stream_descriptors s)) (mx_streams m)) + 4"

definition pmt_section :: "ts_muxer \<Rightarrow> bytes" where
  "pmt_section m =
     (let section_len = pmt_section_len m;
          section = [0x02, 0xB0 OR (of_nat (section_len div 256) AND 0x0F), of_nat section_len,
             0x00, 0x01, 0xC1, 0x00, 0x00, 0xE0 OR pid_high (mx_pcr_pid m), ucast (mx_pcr_pid m), 0xF0, 0x00]
             @ concat (map pmt_entry (mx_streams m))
      in section @ crc_bytes (crc32_mpeg2 section))"

text \<open>The loop that cuts the section; \<open>section\<close> is what is left of it.\<close>

function pmt_loop :: "u16 \<Rightarrow> bool \<Rightarrow> bytes \<Rightarrow> u8 \<Rightarrow> bytes \<Rightarrow> u8 \<times> bytes" where
  "pmt_loop pid first section cc out =
     (if section = [] then (cc, out)
      else
        let header = [TS_SYNC_BYTE, pid_high pid OR (if first then 0x40 else 0x00), ucast pid, 0x10 OR (cc AND 0x0F)]
              @ (if first then [0x00] else []);
            n = min (TS_PACKET_SIZE - length header) (length section)
        in pmt_loop pid False (drop n section) (next_cc cc) (out @ pad_ts (header @ take n section)))"
  by pat_completeness auto
termination
  by (relation "measure (\<lambda>(pid, first, section, cc, out). length section)") (auto simp: TS_PACKET_SIZE_def)

declare pmt_loop.simps [simp del]

text \<open>A table that does not fit is not written.\<close>

definition write_pmt :: "ts_muxer \<Rightarrow> ts_muxer \<times> bytes" where
  "write_pmt m =
     (if pmt_section_len m > 1021 then (m, [])
      else case pmt_loop (mx_pmt_pid m) True (pmt_section m) (mx_pmt_cc m) [] of
        (cc, out) \<Rightarrow> (m\<lparr>mx_pmt_cc := cc\<rparr>, out))"

text \<open>\<open>is_char_boundary\<close> and the cut at the last boundary within the limit.\<close>

definition is_char_boundary :: "bytes \<Rightarrow> nat \<Rightarrow> bool" where
  "is_char_boundary s i \<longleftrightarrow> i = 0 \<or> i = length s \<or> i < length s \<and> \<not> utf8_cont (s ! i)"

fun boundary_before :: "bytes \<Rightarrow> nat \<Rightarrow> nat" where
  "boundary_before s 0 = 0"
| "boundary_before s (Suc i) = (if \<not> is_char_boundary s (Suc i) then boundary_before s i else Suc i)"

definition truncate_utf8_bytes :: "bytes \<Rightarrow> nat \<Rightarrow> bytes" where
  "truncate_utf8_bytes s max_bytes =
     (if length s \<le> max_bytes then s else take (boundary_before s max_bytes) s)"

definition write_sdt :: "ts_muxer \<Rightarrow> ts_muxer \<times> bytes" where
  "write_sdt m =
     (let provider = truncate_utf8_bytes (str_bytes (provider_name (mx_service_metadata m))) 48;
          service = truncate_utf8_bytes (str_bytes (service_name (mx_service_metadata m))) 110;
          descriptor_len = 3 + length provider + length service;
          service_loop_len = 5 + 2 + descriptor_len;
          section_len = 12 + service_loop_len;
          sdt = [0x42, 0xF0 OR (of_nat (section_len div 256) AND 0x0F), of_nat section_len, 0x00, 0x01, 0xC1,
                 0x00, 0x00, 0x00, 0x01, 0xFF,
                 0x00, 0x01, 0xFC, 0x80 OR (of_nat (descriptor_len div 256) AND 0x0F), of_nat descriptor_len,
                 0x48, of_nat descriptor_len, 0x01, of_nat (length provider)] @ provider
                @ [of_nat (length service)] @ service
      in (m\<lparr>mx_sdt_cc := next_cc (mx_sdt_cc m)\<rparr>,
          pad_ts ([TS_SYNC_BYTE, 0x40 OR pid_high SDT_PID, ucast SDT_PID, 0x10 OR (mx_sdt_cc m AND 0x0F), 0x00]
            @ sdt @ crc_bytes (crc32_mpeg2 sdt))))"

subsection \<open>PES packets\<close>

text \<open>The time up to which a packet's audio frames reach.\<close>

definition packet_span_end_90k :: "ts_muxer \<Rightarrow> nat \<Rightarrow> int \<Rightarrow> bytes \<Rightarrow> int" where
  "packet_span_end_90k m stream_idx dts_90k data =
     (case list_get (mx_streams m) stream_idx of
        None \<Rightarrow> dts_90k
      | Some stream \<Rightarrow>
          if mc_media_type stream \<noteq> Audio \<or> mc_sample_rate stream = 0 then dts_90k
          else
            let frame_count = adts_frame_count data
            in if frame_count \<le> 1 then dts_90k
               else
                 let frame_ticks = (90000 * 1024) div int (mc_sample_rate stream)
                 in wrap_i64 (dts_90k + wrap_i64 (frame_ticks * (int frame_count - 1))))"

text \<open>The times of a packet: its decode time passes the stream's last one, its presentation is not before.\<close>

definition packet_times :: "int option \<Rightarrow> packet_meta \<Rightarrow> int \<times> int" where
  "packet_times last_dts meta =
     (let pts_90k = ms_to_ts (meta_pts_ms meta);
          dts_90k = ms_to_ts (meta_dts_ms meta);
          pts_offset_90k = max 0 (wrap_i64 (pts_90k - dts_90k));
          (pts_90k, dts_90k) =
            (case last_dts of
               Some prev \<Rightarrow>
                 if dts_90k \<le> prev
                 then (let dts_90k = wrap_i64 (prev + 1) in (wrap_i64 (dts_90k + pts_offset_90k), dts_90k))
                 else (pts_90k, dts_90k)
             | None \<Rightarrow> (pts_90k, dts_90k))
      in (if pts_90k < dts_90k then dts_90k else pts_90k, dts_90k))"

definition pes_header :: "media_type \<Rightarrow> int \<Rightarrow> int \<Rightarrow> nat \<Rightarrow> bytes" where
  "pes_header mt pts_90k dts_90k payload_len =
     (let pts_differs = pts_90k \<noteq> dts_90k;
          stream_id = (case mt of Video \<Rightarrow> 0xE0 | Audio \<Rightarrow> 0xC0);
          hdr_len = (if pts_differs then 19 else 14);
          pes_data_len = hdr_len - 6 + payload_len;
          len_bytes = (if mt = Audio \<and> pes_data_len \<le> 0xFFFF
                       then [of_nat (pes_data_len div 256), of_nat pes_data_len] else [0, 0])
      in PES_START_CODE @ [stream_id] @ len_bytes
         @ [0x80, if pts_differs then 0xC0 else 0x80, if pts_differs then 10 else 5]
         @ write_timestamp_buf pts_90k (if pts_differs then 0x03 else 0x02)
         @ (if pts_differs then write_timestamp_buf dts_90k 0x01 else []))"

text \<open>The header of a transport packet with \<open>remaining\<close> bytes of the PES packet still to send.\<close>

definition ts_header :: "u16 \<Rightarrow> u16 \<Rightarrow> bool \<Rightarrow> int \<Rightarrow> bool \<Rightarrow> u8 \<Rightarrow> nat \<Rightarrow> bytes" where
  "ts_header pid pcr_pid key dts_90k first cc remaining_pes =
     (let start = [TS_SYNC_BYTE, (if first then 0x40 else 0x00) OR pid_high pid, ucast pid]
      in if first \<and> (key \<or> pid = pcr_pid) then
           (let pcr_bytes = (if pid = pcr_pid then 6 else 0);
                af_flags = (if key then 0x40 else 0x00) OR (if pcr_bytes > 0 then 0x10 else 0x00);
                min_af_len = 1 + pcr_bytes;
                available = TS_PACKET_SIZE - 4 - 1 - min_af_len;
                payload_in_packet = min remaining_pes available;
                stuff = available - payload_in_packet;
                af_len = min_af_len + stuff
            in start @ [0x30 OR cc, of_nat af_len, af_flags]
               @ (if pcr_bytes > 0 then write_pcr dts_90k else []) @ replicate stuff 0xFF)
         else
           (let available = TS_PACKET_SIZE - 4;
                payload_in_packet = min remaining_pes available
            in if payload_in_packet < available then
                 (let stuff = available - payload_in_packet
                  in if stuff = 1 then start @ [0x30 OR cc, 0x00]
                     else start @ [0x30 OR cc, of_nat (stuff - 1), 0x00] @ replicate (stuff - 2) 0xFF)
               else start @ [0x10 OR cc]))"

lemma ts_header_length:
  assumes "0 < remaining"
  shows "4 \<le> length (ts_header pid pcr_pid key t first cc remaining) \<and>
    length (ts_header pid pcr_pid key t first cc remaining) < TS_PACKET_SIZE"
  using assms by (auto simp: ts_header_def Let_def TS_PACKET_SIZE_def)

function pes_loop ::
    "u16 \<Rightarrow> u16 \<Rightarrow> bool \<Rightarrow> int \<Rightarrow> bytes \<Rightarrow> bytes \<Rightarrow> nat \<Rightarrow> bool \<Rightarrow> u8 \<Rightarrow> bytes \<Rightarrow> u8 \<times> bytes" where
  "pes_loop pid pcr_pid key dts_90k pes_hdr data pes_offset first cc out =
     (let total_pes = length pes_hdr + length data
      in if pes_offset < total_pes then
           let remaining_pes = total_pes - pes_offset;
               header = ts_header pid pcr_pid key dts_90k first cc remaining_pes;
               payload_space = TS_PACKET_SIZE - length header;
               copy_len = min remaining_pes payload_space
           in pes_loop pid pcr_pid key dts_90k pes_hdr data (pes_offset + copy_len) False (next_cc cc)
                (out @ pad_ts (header @ copy_pes_slices pes_hdr data pes_offset copy_len))
         else (cc, out))"
  by pat_completeness auto
termination
proof (relation "measure (\<lambda>(pid, pcr_pid, key, t, pes_hdr, data, pes_offset, first, cc, out).
    length pes_hdr + length data - pes_offset)", goal_cases)
  case (2 pid pcr_pid key t pes_hdr data pes_offset first cc out total remaining header space copy_len)
  then have "0 < copy_len" using ts_header_length [of remaining pid pcr_pid key t first cc] by auto
  moreover have "pes_offset < length pes_hdr + length data" using 2 by simp
  ultimately show ?case by simp
qed simp

declare pes_loop.simps [simp del]

definition mux_packet_at ::
    "nat \<Rightarrow> media_type \<Rightarrow> packet_meta \<Rightarrow> bytes \<Rightarrow> ts_muxer \<Rightarrow> bytes \<Rightarrow> ts_muxer \<times> bytes" where
  "mux_packet_at stream_idx mt meta data m out =
     (if data = [] then (m, out)
      else
        let pid = mc_pid (mx_streams m ! stream_idx);
            (pts_90k, dts_90k) = packet_times (list_get (mx_last_dts_90k m) stream_idx) meta;
            packet_span_end = packet_span_end_90k m stream_idx dts_90k data;
            m = m\<lparr>mx_last_dts_90k := (mx_last_dts_90k m)[stream_idx := packet_span_end]\<rparr>;
            should_insert_tables =
              (case mx_last_pat_pmt_dts m of
                 None \<Rightarrow> True
               | Some at \<Rightarrow> meta_is_keyframe meta \<or> wrap_i64 \<bar>wrap_i64 (meta_dts_ms meta - at)\<bar> \<ge> 500);
            (m, out) =
              (if should_insert_tables then
                 let (m, pat) = write_pat m;
                     (m, pmt) = write_pmt m;
                     (m, sdt) =
                       (if provider_name (mx_service_metadata m) \<noteq> [] \<or> service_name (mx_service_metadata m) \<noteq> []
                        then write_sdt m else (m, []))
                 in (m\<lparr>mx_last_pat_pmt_dts := Some (meta_dts_ms meta)\<rparr>, out @ pat @ pmt @ sdt)
               else (m, out));
            pes_hdr = pes_header mt pts_90k dts_90k (length data);
            (cc, out) = pes_loop pid (mx_pcr_pid m) (meta_is_keyframe meta) dts_90k pes_hdr data 0 True
              (mx_continuity m ! stream_idx) out
        in (m\<lparr>mx_continuity := (mx_continuity m)[stream_idx := cc]\<rparr>, out))"

text \<open>The three entry points; the first two answer the muxer's own buffer.\<close>

definition mux_packet ::
    "media_type \<Rightarrow> nat \<Rightarrow> int \<Rightarrow> int \<Rightarrow> bool \<Rightarrow> bytes \<Rightarrow> ts_muxer \<Rightarrow> bytes \<times> ts_muxer" where
  "mux_packet mt track pts_ms dts_ms key data m =
     (let (m, out) =
        (case stream_index m mt track of
           Some stream_idx \<Rightarrow>
             mux_packet_at stream_idx mt
               \<lparr>meta_pts_ms = pts_ms, meta_dts_ms = dts_ms, meta_is_keyframe = key\<rparr> data m []
         | None \<Rightarrow> (m, []))
      in (out, m\<lparr>mx_output := out\<rparr>))"

definition mux_packet_by_stream_idx ::
    "nat \<Rightarrow> media_type \<Rightarrow> int \<Rightarrow> int \<Rightarrow> bool \<Rightarrow> bytes \<Rightarrow> ts_muxer \<Rightarrow> bytes \<times> ts_muxer" where
  "mux_packet_by_stream_idx stream_idx mt pts_ms dts_ms key data m =
     (let (m, out) =
        (if map_option mc_media_type (list_get (mx_streams m) stream_idx) = Some mt
         then mux_packet_at stream_idx mt
               \<lparr>meta_pts_ms = pts_ms, meta_dts_ms = dts_ms, meta_is_keyframe = key\<rparr> data m []
         else (m, []))
      in (out, m\<lparr>mx_output := out\<rparr>))"

definition mux_packet_into ::
    "media_type \<Rightarrow> nat \<Rightarrow> packet_meta \<Rightarrow> bytes \<Rightarrow> ts_muxer \<Rightarrow> bytes \<Rightarrow> ts_muxer \<times> bytes" where
  "mux_packet_into mt track meta data m out =
     (case stream_index m mt track of
        Some stream_idx \<Rightarrow> mux_packet_at stream_idx mt meta data m out
      | None \<Rightarrow> (m, out))"

end
