(* ===== verification/Ts_Probe.thy ===== *)
theory Ts_Probe
  imports Media_Meta H264_Sps Avcc Aac
begin

text \<open>
  The stream probes of the MPEG-TS demuxer (\<open>crates/restream-mpegts/src/probe.rs\<close>, \<open>probe/h264.rs\<close> and
  \<open>probe/h265.rs\<close>): keyframe tests and codec parameters from the first access units. The H.265 parser
  reads the whole sequence parameter set up to the timing information; a \<open>?\<close> of the source is a
  bind of the option monad, and a value outside \<open>u32\<close> ends it. As elsewhere the frame rate is the
  pair of operands of its division.
\<close>

unbundle bit_operations_syntax

datatype stream_kind = Kind_H264 | Kind_H265 | Kind_AacAdts | Kind_AacLatm

fun codec_name :: "stream_kind \<Rightarrow> string" where
  "codec_name Kind_H264 = ''h264''"
| "codec_name Kind_H265 = ''hevc''"
| "codec_name Kind_AacAdts = ''aac''"
| "codec_name Kind_AacLatm = ''aac''"

subsection \<open>NAL units\<close>

definition for_each_nal_raw ::
    "(bytes \<Rightarrow> nat list) \<Rightarrow> bytes \<Rightarrow> (bytes \<Rightarrow> 's \<Rightarrow> bool \<times> 's) \<Rightarrow> 's \<Rightarrow> bool \<times> 's" where
  "for_each_nal_raw find_iter data callback st = for_each_annexb_nalu find_iter data callback st"

definition h264_is_keyframe :: "(bytes \<Rightarrow> nat list) \<Rightarrow> bytes \<Rightarrow> bool" where
  "h264_is_keyframe find_iter data =
     fst (for_each_nal_raw find_iter data
       (\<lambda>nal st. (case nal of [] \<Rightarrow> False | header # _ \<Rightarrow> header AND 0x1F = 5, st)) ())"

definition find_h264_sps :: "(bytes \<Rightarrow> nat list) \<Rightarrow> bytes \<Rightarrow> bytes option" where
  "find_h264_sps find_iter data =
     snd (for_each_nal_raw find_iter data
       (\<lambda>nal result. case nal of
          [] \<Rightarrow> (False, result)
        | header # body \<Rightarrow> if header AND 0x1F = 7 then (True, Some body) else (False, result)) None)"

definition h265_is_keyframe :: "(bytes \<Rightarrow> nat list) \<Rightarrow> bytes \<Rightarrow> bool" where
  "h265_is_keyframe find_iter data =
     fst (for_each_nal_raw find_iter data
       (\<lambda>nal st. (case nal of
            [] \<Rightarrow> False
          | header # _ \<Rightarrow> let nal_type = drop_bit 1 header AND 0x3F in 16 \<le> nal_type \<and> nal_type \<le> 23, st)) ())"

definition find_h265_sps :: "(bytes \<Rightarrow> nat list) \<Rightarrow> bytes \<Rightarrow> bytes option" where
  "find_h265_sps find_iter data =
     snd (for_each_nal_raw find_iter data
       (\<lambda>nal result. case split_first_chunk 2 nal of
          None \<Rightarrow> (False, result)
        | Some (head, body) \<Rightarrow>
            if drop_bit 1 (head ! 0) AND 0x3F = 33 then (True, Some body) else (False, result)) None)"

definition parse_h264_meta :: "bytes \<Rightarrow> video_meta \<Rightarrow> video_meta option" where
  "parse_h264_meta raw_sps meta = do {
     sps \<leftarrow> parse_h264_sps raw_sps;
     let meta = meta\<lparr>vm_profile := Some (profile_name (profile_idc sps)), vm_level := Some (level_name (level_idc sps)),
                    vm_width := sps_width sps, vm_height := sps_height sps\<rparr>;
     Some (case sps_timing sps of
             None \<Rightarrow> meta
           | Some (time_scale, num_units_in_tick) \<Rightarrow> meta\<lparr>vm_fps := Some (time_scale, 2 * num_units_in_tick)\<rparr>)
   }"

subsection \<open>The H.265 sequence parameter set\<close>

text \<open>\<open>for _ in 0..n\<close> over a reader step.\<close>

fun repeat_read :: "nat \<Rightarrow> (bit_reader \<Rightarrow> ('a \<times> bit_reader) option) \<Rightarrow> bit_reader \<Rightarrow> (unit \<times> bit_reader) option" where
  "repeat_read 0 get r = Some ((), r)"
| "repeat_read (Suc n) get r = do { (_, r) \<leftarrow> get r; repeat_read n get r }"

definition present_flags :: "bit_reader \<Rightarrow> ((bool \<times> bool) \<times> bit_reader) option" where
  "present_flags r = do {
     (p, r) \<leftarrow> read_bits 1 r;
     (l, r) \<leftarrow> read_bits 1 r;
     Some ((p = 1, l = 1), r)
   }"

fun skip_present :: "(bool \<times> bool) list \<Rightarrow> bit_reader \<Rightarrow> (unit \<times> bit_reader) option" where
  "skip_present [] r = Some ((), r)"
| "skip_present ((p, l) # present) r = do {
     (_, r) \<leftarrow> (if p then skip 88 r else Some ((), r));
     (_, r) \<leftarrow> (if l then skip 8 r else Some ((), r));
     skip_present present r
   }"

definition skip_sub_layers :: "nat \<Rightarrow> bit_reader \<Rightarrow> (unit \<times> bit_reader) option" where
  "skip_sub_layers max_sub_layers r =
     (if max_sub_layers > 1 then do {
        (present, r) \<leftarrow> take_n present_flags (max_sub_layers - 1) r;
        n \<leftarrow> checked_sub 9 max_sub_layers;
        (_, r) \<leftarrow> skip (n * 2) r;
        skip_present present r
      } else Some ((), r))"

text \<open>The window offsets of one direction, in luma samples.\<close>

definition h265_crop :: "nat \<Rightarrow> bit_reader \<Rightarrow> (nat \<times> bit_reader) option" where
  "h265_crop unit r = do {
     (a, r) \<leftarrow> read_ue r;
     (b, r) \<leftarrow> read_ue r;
     sum \<leftarrow> checked_le u32_MAX (a + b);
     crop \<leftarrow> checked_le u32_MAX (sum * unit);
     Some (crop, r)
   }"

definition h265_size :: "nat \<Rightarrow> nat \<Rightarrow> nat \<Rightarrow> bit_reader \<Rightarrow> ((nat \<times> nat) \<times> bit_reader) option" where
  "h265_size chroma_format_idc width height r = do {
     (conformance_window, r) \<leftarrow> read_bits 1 r;
     if conformance_window = 1 then do {
       let sub_wc = (if chroma_format_idc = 1 \<or> chroma_format_idc = 2 then 2 else 1);
       let sub_hc = (if chroma_format_idc = 1 then 2 else 1);
       (crop_horizontal, r) \<leftarrow> h265_crop sub_wc r;
       (crop_vertical, r) \<leftarrow> h265_crop sub_hc r;
       w \<leftarrow> checked_sub width crop_horizontal;
       h \<leftarrow> checked_sub height crop_vertical;
       Some ((w, h), r)
     } else Some ((width, height), r)
   }"

text \<open>One explicitly coded scaling list, of \<open>size_id\<close>.\<close>

definition skip_scaling_entry :: "nat \<Rightarrow> bit_reader \<Rightarrow> (unit \<times> bit_reader) option" where
  "skip_scaling_entry size_id r = do {
     (pred_mode, r) \<leftarrow> read_bits 1 r;
     if pred_mode = 0 then do { (_, r) \<leftarrow> read_ue r; Some ((), r) }
     else do {
       let coef_num = min (2 ^ (size_id * 2 + 4)) 64;
       (_, r) \<leftarrow> (if size_id > 1 then do { (_, r) \<leftarrow> read_se r; Some ((), r) } else Some ((), r));
       repeat_read coef_num read_se r
     }
   }"

text \<open>Six matrices of each of the first three sizes and two of the last.\<close>

definition skip_scaling_list_data :: "bit_reader \<Rightarrow> (unit \<times> bit_reader) option" where
  "skip_scaling_list_data r = do {
     (_, r) \<leftarrow> repeat_read 6 (skip_scaling_entry 0) r;
     (_, r) \<leftarrow> repeat_read 6 (skip_scaling_entry 1) r;
     (_, r) \<leftarrow> repeat_read 6 (skip_scaling_entry 2) r;
     repeat_read 2 (skip_scaling_entry 3) r
   }"

definition MAX_SHORT_TERM_REF_PIC_SETS :: nat where
  "MAX_SHORT_TERM_REF_PIC_SETS = 64"

definition MAX_DELTA_POCS :: nat where
  "MAX_DELTA_POCS = 64"

definition MAX_LONG_TERM_REF_PICS :: nat where
  "MAX_LONG_TERM_REF_PICS = 32"

fun inter_rps_loop :: "nat \<Rightarrow> nat \<Rightarrow> bit_reader \<Rightarrow> (nat \<times> bit_reader) option" where
  "inter_rps_loop 0 this_count r = Some (this_count, r)"
| "inter_rps_loop (Suc n) this_count r = do {
     (used, r) \<leftarrow> read_bits 1 r;
     if used = 0 then do {
       (use_delta, r) \<leftarrow> read_bits 1 r;
       inter_rps_loop n (if use_delta = 1 then this_count + 1 else this_count) r
     } else inter_rps_loop n (this_count + 1) r
   }"

definition delta_poc :: "bit_reader \<Rightarrow> (unit \<times> bit_reader) option" where
  "delta_poc r = do { (_, r) \<leftarrow> read_ue r; skip 1 r }"

text \<open>The short-term reference picture sets from index \<open>i\<close> on; \<open>counts\<close> are the sizes of those before.\<close>

fun short_term_rps_loop :: "nat \<Rightarrow> nat \<Rightarrow> nat list \<Rightarrow> bit_reader \<Rightarrow> (nat list \<times> bit_reader) option" where
  "short_term_rps_loop 0 i counts r = Some (counts, r)"
| "short_term_rps_loop (Suc n) i counts r = do {
     (inter_pred, r) \<leftarrow> (if i > 0 then read_bits 1 r else Some (0, r));
     if inter_pred = 1 then do {
       (_, r) \<leftarrow> skip 1 r;
       (_, r) \<leftarrow> read_ue r;
       j \<leftarrow> checked_sub i 1;
       count \<leftarrow> list_get counts j;
       (this_count, r) \<leftarrow> inter_rps_loop (count + 1) 0 r;
       if this_count > MAX_DELTA_POCS then None
       else short_term_rps_loop n (i + 1) (counts @ [this_count]) r
     } else do {
       (num_negative, r) \<leftarrow> read_ue r;
       (num_positive, r) \<leftarrow> read_ue r;
       total \<leftarrow> checked_le u32_MAX (num_negative + num_positive);
       if total > MAX_DELTA_POCS then None
       else do {
         (_, r) \<leftarrow> repeat_read num_negative delta_poc r;
         (_, r) \<leftarrow> repeat_read num_positive delta_poc r;
         short_term_rps_loop n (i + 1) (counts @ [total]) r
       }
     }
   }"

definition h265_vui :: "bit_reader \<Rightarrow> ((nat \<times> nat) option \<times> bit_reader) option" where
  "h265_vui r = do {
     (aspect_ratio_present, r) \<leftarrow> read_bits 1 r;
     (_, r) \<leftarrow> (if aspect_ratio_present = 1 then do {
         (sar_idx, r) \<leftarrow> read_bits 8 r;
         if sar_idx = 255 then skip 32 r else Some ((), r)
       } else Some ((), r));
     (overscan_present, r) \<leftarrow> read_bits 1 r;
     (_, r) \<leftarrow> (if overscan_present = 1 then skip 1 r else Some ((), r));
     (video_signal_present, r) \<leftarrow> read_bits 1 r;
     (_, r) \<leftarrow> (if video_signal_present = 1 then do {
         (_, r) \<leftarrow> skip (3 + 1) r;
         (colour_desc_present, r) \<leftarrow> read_bits 1 r;
         if colour_desc_present = 1 then skip 24 r else Some ((), r)
       } else Some ((), r));
     (chroma_loc_present, r) \<leftarrow> read_bits 1 r;
     (_, r) \<leftarrow> (if chroma_loc_present = 1 then repeat_read 2 read_ue r else Some ((), r));
     (_, r) \<leftarrow> skip 3 r;
     (default_display_window, r) \<leftarrow> read_bits 1 r;
     (_, r) \<leftarrow> (if default_display_window = 1 then repeat_read 4 read_ue r else Some ((), r));
     (timing_info_present, r) \<leftarrow> read_bits 1 r;
     if timing_info_present = 1 then do {
       (num_units_in_tick, r) \<leftarrow> read_bits 32 r;
       (time_scale, r) \<leftarrow> read_bits 32 r;
       Some (if num_units_in_tick > 0 \<and> time_scale > 0 then Some (time_scale, num_units_in_tick) else None, r)
     } else Some (None, r)
   }"

text \<open>The coding tools between the size and the reference picture sets.\<close>

definition h265_coding_tools :: "nat \<Rightarrow> bit_reader \<Rightarrow> (unit \<times> bit_reader) option" where
  "h265_coding_tools max_sub_layers r = do {
     (sub_layer_ordering_info_present, r) \<leftarrow> read_bits 1 r;
     start \<leftarrow> (if sub_layer_ordering_info_present = 1 then Some 0 else checked_sub max_sub_layers 1);
     (_, r) \<leftarrow> repeat_read (max_sub_layers - start) (repeat_read 3 read_ue) r;
     (a, r) \<leftarrow> read_ue r;
     _ \<leftarrow> checked_le u32_MAX (a + 3);
     (_, r) \<leftarrow> read_ue r;
     (a, r) \<leftarrow> read_ue r;
     _ \<leftarrow> checked_le u32_MAX (a + 2);
     (_, r) \<leftarrow> repeat_read 3 read_ue r;
     (scaling_list_enabled, r) \<leftarrow> read_bits 1 r;
     (_, r) \<leftarrow> (if scaling_list_enabled = 1 then do {
         (scaling_list_data_present, r) \<leftarrow> read_bits 1 r;
         if scaling_list_data_present = 1 then skip_scaling_list_data r else Some ((), r)
       } else Some ((), r));
     (_, r) \<leftarrow> skip 1 r;
     (_, r) \<leftarrow> skip 1 r;
     (pcm_enabled, r) \<leftarrow> read_bits 1 r;
     if pcm_enabled = 1 then do {
       (_, r) \<leftarrow> skip 4 r;
       (_, r) \<leftarrow> skip 4 r;
       (_, r) \<leftarrow> read_ue r;
       (_, r) \<leftarrow> read_ue r;
       skip 1 r
     } else Some ((), r)
   }"

definition h265_reference_pictures :: "nat \<Rightarrow> bit_reader \<Rightarrow> (unit \<times> bit_reader) option" where
  "h265_reference_pictures log2_max_pic_order_cnt r = do {
     (num_short_term_rps, r) \<leftarrow> read_ue r;
     if num_short_term_rps > MAX_SHORT_TERM_REF_PIC_SETS then None
     else do {
       (_, r) \<leftarrow> short_term_rps_loop num_short_term_rps 0 [] r;
       (long_term_ref_pics_present, r) \<leftarrow> read_bits 1 r;
       if long_term_ref_pics_present = 1 then do {
         (num_long_term_ref_pics, r) \<leftarrow> read_ue r;
         if num_long_term_ref_pics > MAX_LONG_TERM_REF_PICS then None
         else repeat_read num_long_term_ref_pics
           (\<lambda>r. do { (_, r) \<leftarrow> read_bits log2_max_pic_order_cnt r; skip 1 r }) r
       } else Some ((), r)
     }
   }"

definition h265_profile_name :: "nat \<Rightarrow> string" where
  "h265_profile_name p =
     (if p = 1 then ''Main'' else if p = 2 then ''Main 10'' else if p = 3 then ''Main Still Picture'' else ''Unknown'')"

definition parse_h265_sps :: "bytes \<Rightarrow> video_meta \<Rightarrow> video_meta option" where
  "parse_h265_sps sps meta =
     (if length sps < 2 then None else do {
        let r = BitReader_new sps;
        (_, r) \<leftarrow> read_bits 4 r;
        (minus1, r) \<leftarrow> read_bits 3 r;
        max_sub_layers \<leftarrow> checked_le u32_MAX (minus1 + 1);
        (_, r) \<leftarrow> skip 1 r;
        (_, r) \<leftarrow> skip 2 r;
        (_, r) \<leftarrow> skip 1 r;
        (general_profile_idc, r) \<leftarrow> read_bits 5 r;
        (_, r) \<leftarrow> skip 32 r;
        (_, r) \<leftarrow> skip 48 r;
        (general_level_idc, r) \<leftarrow> read_bits 8 r;
        let meta = meta\<lparr>vm_profile := Some (h265_profile_name general_profile_idc),
          vm_level := Some (show_nat (general_level_idc div 30) @ ''.'' @ show_nat (general_level_idc mod 30 div 3))\<rparr>;
        (_, r) \<leftarrow> skip_sub_layers max_sub_layers r;
        (_, r) \<leftarrow> read_ue r;
        (chroma_format_idc, r) \<leftarrow> read_ue r;
        if chroma_format_idc > 3 then None else do {
        (_, r) \<leftarrow> (if chroma_format_idc = 3 then skip 1 r else Some ((), r));
        (width, r) \<leftarrow> read_ue r;
        (height, r) \<leftarrow> read_ue r;
        if width = 0 \<or> height = 0 then None else do {
        ((w, h), r) \<leftarrow> h265_size chroma_format_idc width height r;
        let meta = meta\<lparr>vm_width := w, vm_height := h\<rparr>;
        if w = 0 \<or> h = 0 then None else do {
        (depth, r) \<leftarrow> read_ue r;
        bit_depth_luma \<leftarrow> checked_le u32_MAX (depth + 8);
        (depth, r) \<leftarrow> read_ue r;
        bit_depth_chroma \<leftarrow> checked_le u32_MAX (depth + 8);
        if bit_depth_luma > 16 \<or> bit_depth_chroma > 16 then None else do {
        (minus4, r) \<leftarrow> read_ue r;
        log2_max_pic_order_cnt \<leftarrow> checked_le u32_MAX (minus4 + 4);
        if log2_max_pic_order_cnt > 16 then None else do {
        (_, r) \<leftarrow> h265_coding_tools max_sub_layers r;
        (_, r) \<leftarrow> h265_reference_pictures log2_max_pic_order_cnt r;
        (_, r) \<leftarrow> skip 1 r;
        (_, r) \<leftarrow> skip 1 r;
        (vui_present, r) \<leftarrow> read_bits 1 r;
        if vui_present = 1 then do {
          (timing, r) \<leftarrow> h265_vui r;
          Some (case timing of None \<Rightarrow> meta | Some t \<Rightarrow> meta\<lparr>vm_fps := Some t\<rparr>)
        } else Some meta
        }}}}}
      })"

subsection \<open>Probing\<close>

definition probe_video ::
    "(bytes \<Rightarrow> nat list) \<Rightarrow> stream_kind \<Rightarrow> nat \<Rightarrow> string option \<Rightarrow> string option \<Rightarrow> bytes \<Rightarrow> video_meta" where
  "probe_video find_iter kind pid language title pes_payload =
     (let meta = \<lparr>vm_codec = codec_name kind, vm_width = 0, vm_height = 0, vm_fps = None, vm_bw = None,
            vm_pid = Some pid, vm_language = language, vm_title = title, vm_profile = None, vm_level = None,
            vm_pixel_format = None\<rparr>;
          parsed =
            (case kind of
               Kind_H264 \<Rightarrow> do { sps \<leftarrow> find_h264_sps find_iter pes_payload; parse_h264_meta sps meta }
             | Kind_H265 \<Rightarrow> do { raw_sps \<leftarrow> find_h265_sps find_iter pes_payload; parse_h265_sps (rbsp raw_sps) meta }
             | _ \<Rightarrow> None)
      in case_option meta id parsed)"

fun video_meta_complete :: "stream_kind \<Rightarrow> video_meta \<Rightarrow> bool" where
  "video_meta_complete Kind_H264 meta \<longleftrightarrow> vm_width meta > 0 \<and> vm_height meta > 0"
| "video_meta_complete Kind_H265 meta \<longleftrightarrow> vm_width meta > 0 \<and> vm_height meta > 0"
| "video_meta_complete _ meta \<longleftrightarrow> True"

definition adts_profile_name :: "u8 \<Rightarrow> string option" where
  "adts_profile_name idx =
     (if idx = 0 then Some ''Main'' else if idx = 1 then Some ''LC'' else if idx = 2 then Some ''SSR''
      else if idx = 3 then Some ''LTP/Reserved'' else None)"

definition probe_adts_header :: "u8 \<Rightarrow> u8 \<Rightarrow> audio_meta \<Rightarrow> audio_meta" where
  "probe_adts_header b2 b3 meta =
     (let sample_rate_idx = unat (drop_bit 2 b2 AND 0x0F);
          channel_config = drop_bit 6 (be_fold [b2, b3]) AND 0x07;
          meta = meta\<lparr>am_profile := adts_profile_name (drop_bit 6 b2)\<rparr>;
          meta = (case list_get AAC_SAMPLE_RATES sample_rate_idx of
                    None \<Rightarrow> meta
                  | Some rate \<Rightarrow> meta\<lparr>am_sample_rate := rate\<rparr>)
      in meta\<lparr>am_channels := (if channel_config = 7 then 8 else channel_config)\<rparr>)"

definition probe_audio ::
    "stream_kind \<Rightarrow> nat \<Rightarrow> nat \<Rightarrow> string option \<Rightarrow> string option \<Rightarrow> bytes \<Rightarrow> audio_meta" where
  "probe_audio kind track pid language title pes_payload =
     (let meta = \<lparr>am_codec = codec_name kind, am_sample_rate = 0, am_channels = 0, am_channel_layout = None,
            am_track_index = track, am_pid = Some pid, am_language = language, am_title = title, am_profile = None\<rparr>
      in if kind = Kind_AacAdts then
           (case split_first_chunk 7 pes_payload of
              None \<Rightarrow> meta
            | Some (h, _) \<Rightarrow>
                if h ! 0 = 0xFF \<and> h ! 1 AND 0xF0 = 0xF0 then probe_adts_header (h ! 2) (h ! 3) meta else meta)
         else meta)"

fun audio_meta_complete :: "stream_kind \<Rightarrow> audio_meta \<Rightarrow> bool" where
  "audio_meta_complete Kind_AacAdts meta \<longleftrightarrow> am_sample_rate meta > 0 \<and> am_channels meta > 0"
| "audio_meta_complete _ meta \<longleftrightarrow> True"

definition hevc_video_meta :: "(bytes \<Rightarrow> nat list) \<Rightarrow> bytes \<Rightarrow> video_meta" where
  "hevc_video_meta find_iter annex_b = (probe_video find_iter Kind_H265 0 None None annex_b)\<lparr>vm_pid := None\<rparr>"

definition h264_video_meta :: "(bytes \<Rightarrow> nat list) \<Rightarrow> bytes \<Rightarrow> video_meta" where
  "h264_video_meta find_iter annex_b = (probe_video find_iter Kind_H264 0 None None annex_b)\<lparr>vm_pid := None\<rparr>"

end
