(* ===== verification/Adts_Framing.thy ===== *)
theory Adts_Framing
  imports Ts_Wire Media_Packet Aac
begin

text \<open>
  ADTS framing of an MPEG-TS audio stream (\<open>crates/restream-mpegts/src/demux/adts.rs\<close>): the payloads
  of the stream's PES packets are cut into one unit per AAC frame, a frame that one PES packet ends
  inside is carried and completed by the next, and a unit's time is the one its PES packet gives or
  1024 samples after the unit before.

  The main lemma says that where the stream is cut into PES packets does not matter: a stream of
  frames comes out as those frames, with the times of one running clock.
\<close>

unbundle bit_operations_syntax

subsection \<open>Frame headers\<close>

definition ADTS_HEADER_LEN :: nat where
  "ADTS_HEADER_LEN = 7"

definition MAX_ADTS_FRAME :: nat where
  "MAX_ADTS_FRAME = 8191"

definition FRAME_TICKS_90K :: int where
  "FRAME_TICKS_90K = 1024 * 90000"

definition frame_len :: "bytes \<Rightarrow> nat option" where
  "frame_len data =
     (case data of
        b0 # b1 # b2 # b3 # b4 # b5 # b6 # _ \<Rightarrow>
          if b0 \<noteq> 0xFF then None
          else if b1 AND 0xF6 \<noteq> 0xF0 then None
          else
            let len = push_bit 11 (unat (b3 AND 0x03)) OR push_bit 3 (unat b4) OR drop_bit 5 (unat (b5 AND 0xE0))
            in if len \<ge> ADTS_HEADER_LEN then Some len else None
      | _ \<Rightarrow> None)"

definition sync_prefix :: "bytes \<Rightarrow> bool" where
  "sync_prefix data =
     (case data of
        [b0] \<Rightarrow> b0 = 0xFF
      | b0 # b1 # _ \<Rightarrow> b0 = 0xFF \<and> b1 AND 0xF6 = 0xF0
      | _ \<Rightarrow> False)"

definition resync_candidate :: "bytes \<Rightarrow> nat \<Rightarrow> bool" where
  "resync_candidate data start =
     (case slice_from start data of
        None \<Rightarrow> False
      | Some rest \<Rightarrow>
          (case frame_len rest of
             Some len \<Rightarrow> (case slice_from len rest of None \<Rightarrow> True | Some after \<Rightarrow> after = [] \<or> sync_prefix after)
           | None \<Rightarrow> length rest < ADTS_HEADER_LEN \<and> sync_prefix rest))"

definition adts_resync :: "bytes \<Rightarrow> nat option" where
  "adts_resync data = List.find (resync_candidate data) [0..<length data]"

definition step_90k :: "bytes \<Rightarrow> int option" where
  "step_90k frame = do {
     rate \<leftarrow> adts_sample_rate frame;
     if rate = 0 then None else Some (FRAME_TICKS_90K div int rate)
   }"

subsection \<open>State\<close>

record adts_framing =
  af_carry :: bytes
  af_next :: "(int \<times> int) option"
  af_unframed :: nat
  af_framed :: bool

definition AdtsFraming_default :: adts_framing where
  "AdtsFraming_default = \<lparr>af_carry = [], af_next = None, af_unframed = 0, af_framed = False\<rparr>"

datatype carried = Completed bytes nat | Pending | Rejected

datatype framed = Frames "bytes option" | Whole bytes

definition complete_carry :: "bytes \<Rightarrow> adts_framing \<Rightarrow> carried \<times> adts_framing" where
  "complete_carry data st =
     (let aligned = (frame_len data \<noteq> None);
          carry = af_carry st;
          st = st\<lparr>af_carry := []\<rparr>;
          header = take ADTS_HEADER_LEN (carry @ data);
          header_len = length header
      in case frame_len header of
           Some len \<Rightarrow>
             (let need = len - length carry
              in case split_at_checked need data of
                   Some (rest, after) \<Rightarrow>
                     if after = [] \<or> sync_prefix after then (Completed (carry @ rest) need, st) else (Rejected, st)
                 | None \<Rightarrow> if \<not> aligned then (Pending, st\<lparr>af_carry := carry @ data\<rparr>) else (Rejected, st))
         | None \<Rightarrow>
             if \<not> aligned \<and> header_len < ADTS_HEADER_LEN \<and> sync_prefix header
             then (Pending, st\<lparr>af_carry := carry @ data\<rparr>) else (Rejected, st))"

definition drop_unframed :: "nat \<Rightarrow> adts_framing \<Rightarrow> adts_framing" where
  "drop_unframed dropped st =
     (if dropped = 0 then st
      else if \<not> af_framed st then st\<lparr>af_unframed := saturating_add usize_MAX (af_unframed st) dropped\<rparr>
      else st)"

definition adts_unit :: "nat \<Rightarrow> int \<times> int \<Rightarrow> bytes \<Rightarrow> media_packet" where
  "adts_unit track = (\<lambda>(pts_90k, dts_90k) unit.
     \<lparr>media_type = Audio, format = Raw, is_keyframe = False, track_index = track,
      pts = ts_to_ms pts_90k, dts = ts_to_ms dts_90k, payload = unit\<rparr>)"

definition step_times :: "int \<Rightarrow> int \<times> int \<Rightarrow> int \<times> int" where
  "step_times step = (\<lambda>(p, d). (saturating_add_i64 p step, saturating_add_i64 d step))"

lemma frame_len_ge: "frame_len data = Some n \<Longrightarrow> 7 \<le> n"
  by (auto simp: frame_len_def ADTS_HEADER_LEN_def Let_def split: list.splits if_splits)

text \<open>
  The loop over the frames that start in the payload. \<open>start\<close> is where it began and \<open>carried\<close>
  whether a carried frame came before; \<open>first\<close> is the first unit, for the probe.
\<close>

function frame_loop ::
    "nat \<Rightarrow> bytes \<Rightarrow> nat \<Rightarrow> bool \<Rightarrow> nat \<Rightarrow> (int \<times> int) option \<Rightarrow> (int \<times> int) option \<Rightarrow> bytes option \<Rightarrow>
     adts_framing \<Rightarrow> media_packet list \<Rightarrow> framed \<times> adts_framing \<times> media_packet list" where
  "frame_loop track data start carried offset pes_first expected first st out =
     (let finish = (Frames first,
            (let st = st\<lparr>af_next := expected\<rparr> in if first \<noteq> None then st\<lparr>af_framed := True\<rparr> else st), out);
          rest = drop offset data
      in if rest = [] then finish
         else
           case (case pes_first of None \<Rightarrow> expected | Some t \<Rightarrow> Some t) of
             None \<Rightarrow> finish
           | Some at \<Rightarrow>
               (case frame_len rest of
                  Some len \<Rightarrow>
                    if len \<le> length rest then
                      (case step_90k rest of
                         None \<Rightarrow>
                           if first = None \<and> \<not> carried
                           then (Whole (drop start data), st\<lparr>af_next := None\<rparr>, out)
                           else finish
                       | Some step \<Rightarrow>
                           let unit = take len rest
                           in frame_loop track data start carried (offset + len) None (Some (step_times step at))
                                (case first of None \<Rightarrow> Some unit | Some f \<Rightarrow> Some f) st
                                (out @ [adts_unit track at unit]))
                    else (Frames first, st\<lparr>af_carry := af_carry st @ rest, af_next := Some at\<rparr>, out)
                | None \<Rightarrow>
                    if length rest < ADTS_HEADER_LEN \<and> sync_prefix rest
                    then (Frames first, st\<lparr>af_carry := af_carry st @ rest, af_next := Some at\<rparr>, out)
                    else finish))"
  by pat_completeness auto

termination
proof (relation "measure (\<lambda>(track, data, start, carried, offset, rest). length data - offset)", goal_cases)
  case (2 track data start carried offset pes_first expected first st out finish rest at len step unit)
  then have "offset < length data" "7 \<le> len" using frame_len_ge by auto
  then show ?case by simp
qed simp

declare frame_loop.simps [simp del]

definition frame_pes ::
    "nat \<Rightarrow> (int \<times> int) option \<Rightarrow> bytes \<Rightarrow> adts_framing \<Rightarrow> media_packet list \<Rightarrow> framed \<times> adts_framing \<times> media_packet list" where
  "frame_pes track pes_timestamps data st out =
     (let expected = af_next st;
          from_resync = (\<lambda>expected st.
            case adts_resync data of
              None \<Rightarrow> (Frames None, drop_unframed (length data) (st\<lparr>af_next := expected\<rparr>), out)
            | Some start \<Rightarrow> frame_loop track data start False start pes_timestamps expected None st out)
      in if af_carry st \<noteq> [] then
           (case complete_carry data st of
              (Completed frame consumed, st) \<Rightarrow>
                (case (expected, step_90k frame) of
                   (Some at, Some step) \<Rightarrow>
                     frame_loop track data consumed True consumed pes_timestamps (Some (step_times step at)) (Some frame) st
                       (out @ [adts_unit track at frame])
                 | _ \<Rightarrow> frame_loop track data consumed True consumed pes_timestamps expected None st out)
            | (Pending, st) \<Rightarrow> (Frames None, st, out)
            | (Rejected, st) \<Rightarrow> from_resync None st)
         else from_resync expected st)"

subsection \<open>Complete frames\<close>

lemma append_eq_longer: "x @ s = f @ t \<Longrightarrow> length f \<le> length x \<Longrightarrow> \<exists>r. x = f @ r \<and> r @ s = t"
  by (auto simp: append_eq_append_conv2)

lemma append_eq_shorter: "x @ s = f @ t \<Longrightarrow> length x < length f \<Longrightarrow> \<exists>g. f = x @ g"
  by (auto simp: append_eq_append_conv2)

definition is_frame :: "bytes \<Rightarrow> bool" where
  "is_frame f \<longleftrightarrow> frame_len f = Some (length f) \<and> step_90k f \<noteq> None"

text \<open>No byte inside a frame looks like another header.\<close>

definition no_false_header :: "bytes \<Rightarrow> bool" where
  "no_false_header f \<longleftrightarrow> list_all (\<lambda>i. frame_len (drop i f) = None) [1..<length f]"

lemma frame_len_take: "frame_len (take 7 data) = frame_len data"
  by (auto simp: frame_len_def numeral_eq_Suc split: list.splits)

lemma frame_len_prefix: "7 \<le> length xs \<Longrightarrow> frame_len (xs @ ys) = frame_len xs"
  using frame_len_take [of "xs @ ys"] frame_len_take [of xs] by simp

lemma frame_len_short: "length xs < 7 \<Longrightarrow> frame_len xs = None"
  by (auto simp: frame_len_def split: list.splits)

lemma frame_len_sync: "frame_len data = Some n \<Longrightarrow> sync_prefix data"
  by (auto simp: frame_len_def sync_prefix_def split: list.splits if_splits)

lemma sync_prefix_take: "sync_prefix data \<Longrightarrow> 0 < n \<Longrightarrow> sync_prefix (take n data)"
  by (cases n; cases "n - 1"; auto simp: sync_prefix_def split: list.splits)

lemma is_frame_length: "is_frame f \<Longrightarrow> 7 \<le> length f"
  by (auto simp: is_frame_def dest: frame_len_ge)

lemma adts_sample_rate_prefix: "3 \<le> length xs \<Longrightarrow> adts_sample_rate (xs @ ys) = adts_sample_rate xs"
  by (simp add: adts_sample_rate_def split_at_checked_def)

lemma step_90k_prefix: "3 \<le> length xs \<Longrightarrow> step_90k (xs @ ys) = step_90k xs"
  by (simp add: step_90k_def adts_sample_rate_prefix)

text \<open>A non-empty prefix of a stream of frames starts like a frame.\<close>

lemma frames_sync:
  assumes "list_all is_frame fs" and "r @ s = concat fs" and "r \<noteq> []"
  shows "sync_prefix r"
proof -
  from assms(2,3) obtain f gs where fs: "fs = f # gs" by (cases fs) auto
  with assms(1) have f: "is_frame f" by simp
  then have "frame_len (concat fs) = Some (length f)"
    using fs frame_len_prefix [OF is_frame_length [OF f]] by (simp add: is_frame_def)
  then have "sync_prefix (take (length r) (concat fs))"
    using assms(3) by (intro sync_prefix_take frame_len_sync) auto
  then show ?thesis using assms(2) by (metis append_eq_conv_conj)
qed

subsection \<open>The running clock\<close>

definition advance_clock :: "bytes \<Rightarrow> int \<times> int \<Rightarrow> int \<times> int" where
  "advance_clock f t = (case step_90k f of None \<Rightarrow> t | Some step \<Rightarrow> step_times step t)"

fun timed_units :: "nat \<Rightarrow> int \<times> int \<Rightarrow> bytes list \<Rightarrow> media_packet list" where
  "timed_units track t [] = []"
| "timed_units track t (f # fs) = adts_unit track t f # timed_units track (advance_clock f t) fs"

definition clock_after :: "bytes list \<Rightarrow> int \<times> int \<Rightarrow> int \<times> int" where
  "clock_after fs t = foldl (\<lambda>t f. advance_clock f t) t fs"

lemma clock_after_simps [simp]: "clock_after [] t = t" "clock_after (f # fs) t = clock_after fs (advance_clock f t)"
  by (simp_all add: clock_after_def)

lemma timed_units_append: "timed_units track t (fs @ gs) = timed_units track t fs @ timed_units track (clock_after fs t) gs"
  by (induction fs arbitrary: t) simp_all

text \<open>The frames that end inside the first \<open>n\<close> bytes, and the others.\<close>

fun cut_frames :: "bytes list \<Rightarrow> nat \<Rightarrow> bytes list \<times> bytes list" where
  "cut_frames [] n = ([], [])"
| "cut_frames (f # fs) n =
     (if length f \<le> n then (let (a, b) = cut_frames fs (n - length f) in (f # a, b)) else ([], f # fs))"

lemma cut_frames_0: "list_all is_frame fs \<Longrightarrow> cut_frames fs 0 = ([], fs)"
  by (cases fs) (auto dest: is_frame_length)

lemma frame_loop_frames:
  assumes "list_all is_frame fs" and "drop offset data @ s = concat fs" and "drop offset data \<noteq> []"
    and "(case pes_first of None \<Rightarrow> expected | Some t \<Rightarrow> Some t) = Some t"
    and "cut_frames fs (length data - offset) = (whole, left)"
  shows "\<exists>first' st'. frame_loop track data start carried offset pes_first expected first st out =
      (Frames first', st', out @ timed_units track t whole) \<and>
    af_carry st' = af_carry st @ drop (length (concat whole)) (drop offset data) \<and>
    af_next st' = Some (clock_after whole t)"
  using assms
proof (induction fs arbitrary: offset pes_first expected first st out t whole)
  case Nil
  then show ?case by simp
next
  case (Cons f fs)
  let ?rest = "drop offset data"
  have f: "is_frame f" "7 \<le> length f" using Cons.prems(1) is_frame_length by auto
  have eq: "?rest @ s = f @ concat fs" using Cons.prems(2) by simp
  show ?case
  proof (cases "length f \<le> length ?rest")
    case True
    obtain r where r: "?rest = f @ r" "r @ s = concat fs" using append_eq_longer [OF eq True] by auto
    have len: "frame_len ?rest = Some (length f)" unfolding r
      using f(1) by (simp add: frame_len_prefix [OF f(2)] is_frame_def)
    have step: "step_90k ?rest = step_90k f" unfolding r using f(2) by (simp add: step_90k_prefix)
    have next_rest: "drop (offset + length f) data = r" using r(1) by (metis add.commute append_eq_conv_conj drop_drop)
    obtain v where v: "step_90k f = Some v" using f(1) by (auto simp: is_frame_def)
    obtain d where d: "whole = f # d" "cut_frames fs (length data - (offset + length f)) = (d, left)"
      using Cons.prems(5) True by (auto simp: Let_def split: prod.splits)
    have at: "Some (step_times v t) = Some (advance_clock f t)" by (simp add: advance_clock_def v)
    have take: "take (length f) ?rest = f" unfolding r by simp
    define first1 where "first1 = (case first of None \<Rightarrow> Some f | Some g \<Rightarrow> Some g)"
    have unfold: "frame_loop track data start carried offset pes_first expected first st out =
        frame_loop track data start carried (offset + length f) None (Some (advance_clock f t)) first1 st
          (out @ [adts_unit track t f])"
      using Cons.prems(3,4) True
      by (subst frame_loop.simps) (simp add: Let_def len step v at [simplified] take first1_def)
    show ?thesis
    proof (cases "drop (offset + length f) data = []")
      case True
      then have "d = []" using d(2) Cons.prems(1) by (simp add: cut_frames_0)
      with True d show ?thesis
        unfolding unfold by (subst frame_loop.simps) (auto simp: Let_def first1_def split: option.splits)
    next
      case False
      have "drop (offset + length f) data @ s = concat fs" unfolding next_rest by (rule r(2))
      from Cons.IH [OF _ this False _ d(2), of "Some (advance_clock f t)" None "advance_clock f t" first1 st
          "out @ [adts_unit track t f]"] Cons.prems(1)
      show ?thesis unfolding unfold d(1) by (auto simp: next_rest r(1))
    qed
  next
    case False
    then have d: "whole = []" using Cons.prems(5) by simp
    obtain g where g: "f = ?rest @ g" using append_eq_shorter [OF eq] False by auto
    have sync: "sync_prefix ?rest" by (rule frames_sync [OF Cons.prems(1,2,3)])
    have "frame_len ?rest = (if length ?rest < 7 then None else Some (length f))"
      using frame_len_short [of ?rest] frame_len_prefix [of ?rest g, folded g] f(1) by (simp add: is_frame_def)
    then show ?thesis using Cons.prems(3,4) False sync d
      by (subst frame_loop.simps) (auto simp: Let_def ADTS_HEADER_LEN_def)
  qed
qed

lemma cut_frames_append:
  "cut_frames fs n = (whole, left) \<Longrightarrow> fs = whole @ left \<and> length (concat whole) \<le> n \<and>
     (left \<noteq> [] \<longrightarrow> n < length (concat whole) + length (hd left))"
  by (induction fs n arbitrary: whole rule: cut_frames.induct) (auto simp: Let_def split: if_splits prod.splits)

lemma adts_resync_start:
  assumes "list_all is_frame fs" and "p @ s = concat fs" and "p \<noteq> []"
  shows "adts_resync p = Some 0"
proof -
  from assms obtain f gs where fs: "fs = f # gs" by (cases fs) auto
  then have f: "is_frame f" "7 \<le> length f" using assms(1) is_frame_length by auto
  have sync: "sync_prefix p" by (rule frames_sync [OF assms])
  have "resync_candidate p 0"
  proof (cases "length p < 7")
    case True
    then show ?thesis using sync frame_len_short [OF True] by (simp add: resync_candidate_def slice_from_def ADTS_HEADER_LEN_def)
  next
    case False
    then have "frame_len p = frame_len (p @ s)" by (simp add: frame_len_prefix)
    then have len: "frame_len p = Some (length f)"
      using assms(2) fs f by (simp add: frame_len_prefix is_frame_def)
    have "drop (length f) p = [] \<or> sync_prefix (drop (length f) p)" if "length f \<le> length p"
    proof -
      from that assms(2) fs obtain r where "p = f @ r" "r @ s = concat gs" by (auto simp: append_eq_append_conv2)
      then show ?thesis using frames_sync [of gs r s] assms(1) fs by auto
    qed
    then show ?thesis by (simp add: resync_candidate_def slice_from_def len)
  qed
  moreover have "[0..<length p] = 0 # [1..<length p]" using assms(3) by (simp add: upt_rec)
  ultimately show ?thesis by (simp add: adts_resync_def)
qed

text \<open>One PES payload \<open>p\<close> after the carried start \<open>c\<close> of a frame.\<close>

lemma complete_carry_frames:
  assumes fs: "list_all is_frame (f # fs)" and no: "no_false_header f"
    and eq: "c @ p @ s = concat (f # fs)" and c: "c \<noteq> []" "length c < length f" and p: "p \<noteq> []"
    and st: "af_carry st = c"
  shows "if length f \<le> length c + length p
    then complete_carry p st = (Completed f (length f - length c), st\<lparr>af_carry := []\<rparr>) \<and>
      drop (length f - length c) p @ s = concat fs
    else complete_carry p st = (Pending, st\<lparr>af_carry := c @ p\<rparr>)"
proof (cases "length f \<le> length c + length p")
  case True
  have f: "is_frame f" "7 \<le> length f" using fs is_frame_length by auto
  have eq': "(c @ p) @ s = f @ concat fs" using eq by simp
  obtain r where r: "c @ p = f @ r" "r @ s = concat fs"
    using append_eq_longer [OF eq'] True by auto
  have need: "take (length f - length c) p = drop (length c) f" "drop (length f - length c) p = r"
    using arg_cong [OF r(1), of "drop (length c)"] arg_cong [OF r(1), of "drop (length f)"] c(2)
    by (simp_all add: drop_append)
  have cf: "c @ drop (length c) f = f" using arg_cong [OF r(1), of "take (length c)"] c(2)
    by (metis append_take_drop_id append_eq_conv_conj less_imp_le_nat take_append take_all_iff diff_is_0_eq take0 append_Nil2)
  have "frame_len (take 7 (c @ p)) = Some (length f)"
    unfolding frame_len_take r(1) using f by (simp add: frame_len_prefix is_frame_def)
  moreover have "r = [] \<or> sync_prefix r" using frames_sync [of fs r s] r(2) fs by auto
  moreover have "length f - length c \<le> length p" using True by simp
  ultimately show ?thesis using True need cf r(2) st c(2)
    by (simp add: complete_carry_def Let_def ADTS_HEADER_LEN_def split_at_checked_def)
next
  case False
  have f: "is_frame f" "7 \<le> length f" using fs is_frame_length by auto
  have eq': "(c @ p) @ s = f @ concat fs" using eq by simp
  obtain g where g: "f = (c @ p) @ g" using append_eq_shorter [OF eq'] False by auto
  have "frame_len (drop (length c) f) = None"
    using no c by (cases c) (auto simp: no_false_header_def list_all_iff)
  then have aligned: "frame_len p = None"
    using frame_len_short [of p] frame_len_prefix [of p g] g by (cases "length p < 7") auto
  have sync: "sync_prefix (c @ p)" by (rule frames_sync [OF fs eq' [folded concat.simps]]) (use p in simp)
  have "frame_len (take 7 (c @ p)) = (if length (c @ p) < 7 then None else Some (length f))"
    unfolding frame_len_take using frame_len_short [of "c @ p"] frame_len_prefix [of "c @ p" g, folded g] f(1)
    by (simp add: is_frame_def)
  moreover have "take 7 (c @ p) = c @ p" if "length (c @ p) < 7" using that by simp
  ultimately show ?thesis using False aligned sync st
    by (auto simp: complete_carry_def Let_def ADTS_HEADER_LEN_def split_at_checked_def)
qed

lemma frame_pes_step:
  assumes fs: "list_all is_frame fs" "list_all no_false_header fs" and eq: "c @ p @ s = concat fs" and p: "p \<noteq> []"
    and st: "af_carry st = c"
    and fresh: "c = [] \<Longrightarrow> (case ts of None \<Rightarrow> af_next st | Some t' \<Rightarrow> Some t') = Some t"
    and cont: "c \<noteq> [] \<Longrightarrow> length c < length (hd fs) \<and> af_next st = Some t"
    and stamp: "c \<noteq> [] \<Longrightarrow> length (hd fs) < length c + length p \<Longrightarrow> ts = None \<or> ts = Some (advance_clock (hd fs) t)"
    and cut: "cut_frames fs (length c + length p) = (whole, left)"
  shows "\<exists>r st'. frame_pes track ts p st out = (r, st', out @ timed_units track t whole) \<and>
    af_carry st' = drop (length (concat whole)) (c @ p) \<and> af_next st' = Some (clock_after whole t)"
proof (cases "c = []")
  case True
  then have "adts_resync p = Some 0" using adts_resync_start [OF fs(1) _ p] eq by simp
  moreover obtain r st' where "frame_loop track p 0 False 0 ts (af_next st) None st out =
      (Frames r, st', out @ timed_units track t whole)"
    "af_carry st' = drop (length (concat whole)) p" "af_next st' = Some (clock_after whole t)"
    using frame_loop_frames [OF fs(1), of 0 p s "af_next st" ts t whole left track 0 False None st out] eq p fresh cut st True
    by auto
  ultimately show ?thesis using True st by (simp add: frame_pes_def)
next
  case False
  with eq cont obtain f gs where fg: "fs = f # gs" by (cases fs) auto
  have c: "length c < length f" "af_next st = Some t" using cont [OF False] fg by auto
  have f: "is_frame f" "no_false_header f" using fs fg by auto
  obtain v where v: "step_90k f = Some v" using f(1) by (auto simp: is_frame_def)
  note carry = complete_carry_frames [OF fs(1) [unfolded fg] f(2) eq [unfolded fg] False c(1) p st]
  show ?thesis
  proof (cases "length f \<le> length c + length p")
    case whole_frame: True
    let ?n = "length f - length c"
    let ?st = "st\<lparr>af_carry := []\<rparr>"
    from carry whole_frame have cc: "complete_carry p st = (Completed f ?n, ?st)" and rest: "drop ?n p @ s = concat gs" by auto
    obtain d where d: "whole = f # d" "cut_frames gs (length p - ?n) = (d, left)"
      using cut fg whole_frame c(1) by (auto simp: Let_def add.commute split: prod.splits)
    have unfold: "frame_pes track ts p st out = frame_loop track p ?n True ?n ts (Some (advance_clock f t)) (Some f) ?st
        (out @ [adts_unit track t f])"
      using False st c(2) by (simp add: frame_pes_def cc v advance_clock_def)
    have carried: "drop (length (concat whole)) (c @ p) = drop (length (concat d)) (drop ?n p)"
      using c(1) d(1) by (simp add: drop_append add.commute)
    show ?thesis
    proof (cases "drop ?n p = []")
      case True
      then have "length p - ?n = 0" by simp
      then have "d = []" using d(2) cut_frames_0 [of gs] fs(1) fg by simp
      with True d(1) carried show ?thesis unfolding unfold by (subst frame_loop.simps) (auto simp: Let_def)
    next
      case more: False
      then have "length f < length c + length p" by simp
      then have "(case ts of None \<Rightarrow> Some (advance_clock f t) | Some t' \<Rightarrow> Some t') = Some (advance_clock f t)"
        using stamp [OF False] fg by auto
      from frame_loop_frames [OF _ rest more this d(2), of track ?n True "Some f" ?st "out @ [adts_unit track t f]"] fs(1) fg
      show ?thesis unfolding unfold carried unfolding d(1) by auto
    qed
  next
    case False
    with carry have "complete_carry p st = (Pending, st\<lparr>af_carry := c @ p\<rparr>)" by simp
    moreover from cut fg False have "whole = []" by simp
    ultimately show ?thesis using \<open>c \<noteq> []\<close> st c(2) by (simp add: frame_pes_def)
  qed
qed

subsection \<open>A stream of PES payloads\<close>

text \<open>Where the frames of a stream start, and the time of each.\<close>

fun frame_starts :: "nat \<Rightarrow> int \<times> int \<Rightarrow> bytes list \<Rightarrow> (nat \<times> int \<times> int) list" where
  "frame_starts at t [] = []"
| "frame_starts at t (f # fs) = (at, t) # frame_starts (at + length f) (advance_clock f t) fs"

text \<open>Every PES timestamp is that of the first frame starting in its payload.\<close>

fun stamped :: "(nat \<times> int \<times> int) list \<Rightarrow> nat \<Rightarrow> ((int \<times> int) option \<times> bytes) list \<Rightarrow> bool" where
  "stamped starts at [] \<longleftrightarrow> True"
| "stamped starts at ((ts, p) # pes) \<longleftrightarrow>
     (case List.find (\<lambda>(b, _). at \<le> b \<and> b < at + length p) starts of
        None \<Rightarrow> True
      | Some (b, t) \<Rightarrow> ts = None \<or> ts = Some t) \<and> stamped starts (at + length p) pes"

definition adts_stream ::
    "nat \<Rightarrow> ((int \<times> int) option \<times> bytes) list \<Rightarrow> adts_framing \<times> media_packet list \<Rightarrow> adts_framing \<times> media_packet list" where
  "adts_stream track pes s = foldl (\<lambda>(st, out) (ts, p). snd (frame_pes track ts p st out)) s pes"

lemma frame_starts_append:
  "frame_starts at t (fs @ gs) = frame_starts at t fs @ frame_starts (at + length (concat fs)) (clock_after fs t) gs"
  by (induction fs arbitrary: at t) (simp_all add: add.assoc)

lemma frame_starts_before: "x \<in> set (frame_starts at t fs) \<Longrightarrow> list_all is_frame fs \<Longrightarrow> fst x < at + length (concat fs)"
proof (induction fs arbitrary: at t)
  case (Cons f fs)
  have "0 < length f" using Cons.prems(2) is_frame_length [of f] by auto
  moreover have "fst x < at + length f + length (concat fs)" if "x \<in> set (frame_starts (at + length f) (advance_clock f t) fs)"
    using Cons.IH [OF that] Cons.prems(2) by simp
  ultimately show ?case using Cons.prems(1) by auto
qed simp

lemma find_append_none: "(\<And>x. x \<in> set xs \<Longrightarrow> \<not> P x) \<Longrightarrow> List.find P (xs @ ys) = List.find P ys"
  by (induction xs) auto

lemma stamped_skip:
  "(\<And>x. x \<in> set xs \<Longrightarrow> fst x < at) \<Longrightarrow> stamped (xs @ ys) at pes \<longleftrightarrow> stamped ys at pes"
proof (induction pes arbitrary: at)
  case (Cons a pes)
  obtain ts p where a: "a = (ts, p)" by (cases a)
  have "List.find (\<lambda>(b, _). at \<le> b \<and> b < at + length p) (xs @ ys) = List.find (\<lambda>(b, _). at \<le> b \<and> b < at + length p) ys"
    using Cons.prems by (intro find_append_none) fastforce
  moreover have "stamped (xs @ ys) (at + length p) pes \<longleftrightarrow> stamped ys (at + length p) pes"
    using Cons.prems by (intro Cons.IH) (simp add: trans_less_add1)
  ultimately show ?case by (simp add: a)
qed simp

text \<open>
  The framing between two PES payloads: \<open>c\<close> is the carried start of the first frame of \<open>fs\<close>, whose
  time is \<open>t\<close>.
\<close>

definition framing_at :: "adts_framing \<Rightarrow> bytes \<Rightarrow> bytes list \<Rightarrow> int \<times> int \<Rightarrow> bool" where
  "framing_at st c fs t \<longleftrightarrow> af_carry st = c \<and> af_next st \<in> {None, Some t} \<and>
     (c \<noteq> [] \<longrightarrow> fs \<noteq> [] \<and> length c < length (hd fs) \<and> af_next st = Some t)"

lemma frame_pes_at:
  assumes fs: "list_all is_frame fs" "list_all no_false_header fs" and eq: "c @ p @ s = concat fs" and p: "p \<noteq> []"
    and at: "framing_at st c fs t" and stamps: "stamped (frame_starts at t fs) (at + length c) ((ts, p) # pes)"
    and begun: "af_next st = None \<Longrightarrow> ts \<noteq> None"
  obtains r st' c' fs' whole where "frame_pes track ts p st out = (r, st', out @ timed_units track t whole)"
    "framing_at st' c' fs' (clock_after whole t)" "fs = whole @ fs'" "c' @ s = concat fs'" "af_next st' \<noteq> None"
    "stamped (frame_starts (at + length (concat whole)) (clock_after whole t) fs')
       (at + length (concat whole) + length c') pes"
proof -
  obtain whole left where cut: "cut_frames fs (length c + length p) = (whole, left)" by fastforce
  note cf = cut_frames_append [OF cut]
  from eq p obtain f gs where fg: "fs = f # gs" by (cases fs) auto
  have fresh: "(case ts of None \<Rightarrow> af_next st | Some t' \<Rightarrow> Some t') = Some t" if "c = []"
    using stamps at p fg that begun by (auto simp: framing_at_def split: option.splits)
  have stamp: "ts = None \<or> ts = Some (advance_clock (hd fs) t)" if "c \<noteq> []" "length (hd fs) < length c + length p"
  proof -
    from that eq fg have "gs \<noteq> []" by (auto dest: arg_cong [of _ _ length])
    then obtain g hs where gs: "gs = g # hs" by (cases gs) auto
    have "length c < length f" using at that(1) fg by (simp add: framing_at_def)
    then show ?thesis using stamps that fg gs by (auto split: option.splits)
  qed
  have cont: "length c < length (hd fs) \<and> af_next st = Some t" if "c \<noteq> []" using at that by (simp add: framing_at_def)
  obtain r st' where step: "frame_pes track ts p st out = (r, st', out @ timed_units track t whole)"
      "af_carry st' = drop (length (concat whole)) (c @ p)" "af_next st' = Some (clock_after whole t)"
    using frame_pes_step [OF fs eq p _ fresh cont stamp cut, of track out] at by (auto simp: framing_at_def)
  let ?c = "drop (length (concat whole)) (c @ p)"
  have whole: "c @ p = concat whole @ ?c"
  proof -
    have "(c @ p) @ s = concat whole @ concat left" using eq cf by (simp flip: concat_append)
    then obtain r where "c @ p = concat whole @ r" using append_eq_longer [of "c @ p" s] cf by auto
    then show ?thesis by (metis append_eq_conv_conj)
  qed
  then have rest: "?c @ s = concat left"
    using eq cf by (metis append.assoc concat_append same_append_eq)
  have len: "length ?c = length c + length p - length (concat whole)" by simp
  have "framing_at st' ?c left (clock_after whole t)"
  proof -
    have "left \<noteq> [] \<and> length ?c < length (hd left)" if "?c \<noteq> []"
    proof -
      have ne: "left \<noteq> []" using that rest by auto
      with cf len show ?thesis by simp linarith
    qed
    then show ?thesis using step by (simp add: framing_at_def)
  qed
  moreover have "stamped (frame_starts (at + length (concat whole)) (clock_after whole t) left)
      (at + length (concat whole) + length ?c) pes"
  proof -
    have end_at: "at + length c + length p = at + length (concat whole) + length ?c"
      using len cf by linarith
    have "stamped (frame_starts at t (whole @ left)) (at + length c + length p) pes" using stamps cf by simp
    moreover have "fst x < at + length c + length p" if "x \<in> set (frame_starts at t whole)" for x
      using frame_starts_before [OF that] fs(1) cf by auto
    ultimately show ?thesis unfolding frame_starts_append end_at [symmetric] by (simp add: stamped_skip)
  qed
  ultimately show ?thesis using that [OF step(1)] cf rest step(3) by blast
qed

lemma adts_stream_frames:
  assumes "list_all is_frame fs" "list_all no_false_header fs" and "c @ concat (map snd pes) = concat fs"
    and "list_all (\<lambda>x. snd x \<noteq> []) pes" and "framing_at st c fs t" and "stamped (frame_starts at t fs) (at + length c) pes"
    and "af_next st = None \<Longrightarrow> pes \<noteq> [] \<Longrightarrow> fst (hd pes) \<noteq> None"
  shows "\<exists>st'. adts_stream track pes (st, out) = (st', out @ timed_units track t fs) \<and> af_carry st' = []"
  using assms
proof (induction pes arbitrary: fs c st t at out)
  case Nil
  then have "c = []" "fs = []"
    using is_frame_length [of "hd fs"] by (cases fs; auto simp: framing_at_def)+
  with Nil show ?case by (simp add: adts_stream_def framing_at_def)
next
  case (Cons x pes)
  obtain ts p where x: "x = (ts, p)" by (cases x)
  have eq: "c @ p @ concat (map snd pes) = concat fs" and p: "p \<noteq> []" using Cons.prems(3,4) x by auto
  have begun: "ts \<noteq> None" if "af_next st = None" using Cons.prems(7) that x by simp
  obtain r st' c' fs' whole where step: "frame_pes track ts p st out = (r, st', out @ timed_units track t whole)"
    and st': "framing_at st' c' fs' (clock_after whole t)" and fs: "fs = whole @ fs'" and c': "c' @ concat (map snd pes) = concat fs'"
    and next': "af_next st' \<noteq> None"
    and stamps: "stamped (frame_starts (at + length (concat whole)) (clock_after whole t) fs')
       (at + length (concat whole) + length c') pes"
    by (rule frame_pes_at [OF Cons.prems(1,2) eq p Cons.prems(5) Cons.prems(6) [unfolded x] begun])
  have "adts_stream track (x # pes) (st, out) = adts_stream track pes (st', out @ timed_units track t whole)"
    by (simp add: adts_stream_def x step)
  with Cons.IH [OF _ _ c' _ st' stamps, of "out @ timed_units track t whole"] Cons.prems(1,2,4) next'
  show ?case by (simp add: fs timed_units_append)
qed


definition sample_frame :: bytes where
  "sample_frame = [0xFF, 0xF1, 0x4C, 0x80, 0x01, 0x3F, 0xFC, 0x21, 0x10]"

definition sample_pes :: "((int \<times> int) option \<times> bytes) list" where
  "sample_pes = [(Some (0, 0), take 5 sample_frame), (Some (1920, 1920), drop 5 sample_frame @ take 2 sample_frame),
     (Some (7, 7), drop 2 sample_frame)]"

lemma sample_frame_facts:
  "frame_len sample_frame = Some 9" "length sample_frame = 9" "no_false_header sample_frame"
  "step_90k sample_frame = Some 1920"
proof -
  show "frame_len sample_frame = Some 9" "length sample_frame = 9" "no_false_header sample_frame" by code_simp+
  have "adts_sample_rate sample_frame = Some 48000"
    by (simp add: adts_sample_rate_def split_at_checked_def sample_frame_def AAC_SAMPLE_RATES_def list_get_def)
  then show "step_90k sample_frame = Some 1920" by (simp add: step_90k_def FRAME_TICKS_90K_def)
qed


end
