(* ===== verification/Ts_Demux.thy ===== *)
theory Ts_Demux
  imports Ts_Probe Adts_Framing "HOL-Library.AList"
begin

text \<open>
  The MPEG-TS demuxer (\<open>crates/restream-mpegts/src/demux.rs\<close>): it finds the transport packets of a
  byte stream fed in chunks, follows the program tables, reassembles the PES packets of each stream
  and emits media packets; the probe results and topology changes are taken by its owner.

  The state is one record and every method one definition on it. \<open>memchr\<close> is the byte search of the
  \<open>memchr\<close> crate, an argument of the synchronisation, and \<open>find_iter\<close> the start-code search. The
  table of stream indices by PID is a function. The staging buffer of \<open>feed\<close> is not part of
  the state: it is overwritten before every use.
\<close>

unbundle bit_operations_syntax

subsection \<open>Streams\<close>

definition MAX_PES_BUFFER :: nat where
  "MAX_PES_BUFFER = 512 * 1024"

definition PID_COUNT :: nat where
  "PID_COUNT = 8192"

definition NO_STREAM :: nat where
  "NO_STREAM = 65535"

definition CC_UNSET :: u8 where
  "CC_UNSET = 255"

definition PMT_VER_UNSET :: u8 where
  "PMT_VER_UNSET = 255"

definition pes_payload_len :: "nat \<Rightarrow> nat \<Rightarrow> nat option" where
  "pes_payload_len pes_packet_len pes_header_len =
     (if pes_packet_len = 0 then None else checked_sub pes_packet_len (pes_header_len + 3))"

definition from_stream_type :: "u8 \<Rightarrow> stream_kind option" where
  "from_stream_type st =
     (if st = 0x1B then Some Kind_H264 else if st = 0x24 then Some Kind_H265
      else if st = 0x0F then Some Kind_AacAdts else if st = 0x11 then Some Kind_AacLatm else None)"

fun kind_media_type :: "stream_kind \<Rightarrow> media_type" where
  "kind_media_type Kind_H264 = Video"
| "kind_media_type Kind_H265 = Video"
| "kind_media_type Kind_AacAdts = Audio"
| "kind_media_type Kind_AacLatm = Audio"

record pes_accumulator =
  pes_buf :: bytes
  pes_expected_payload_len :: "nat option"
  pes_pts :: int
  pes_dts :: int
  pes_has_timestamp :: bool
  pes_random_access :: bool
  pes_adts :: adts_framing

definition PesAccumulator_new :: pes_accumulator where
  "PesAccumulator_new =
     \<lparr>pes_buf = [], pes_expected_payload_len = None, pes_pts = 0, pes_dts = 0, pes_has_timestamp = False,
      pes_random_access = False, pes_adts = AdtsFraming_default\<rparr>"

definition append_bounded :: "bytes \<Rightarrow> pes_accumulator \<Rightarrow> pes_accumulator" where
  "append_bounded data pes =
     (if saturating_add usize_MAX (length (pes_buf pes)) (length data) \<le> MAX_PES_BUFFER
      then pes\<lparr>pes_buf := pes_buf pes @ data\<rparr> else pes)"

definition pes_reset :: "pes_accumulator \<Rightarrow> pes_accumulator" where
  "pes_reset pes =
     pes\<lparr>pes_buf := [], pes_expected_payload_len := None, pes_pts := 0, pes_dts := 0,
         pes_has_timestamp := False, pes_random_access := False\<rparr>"

record stream_info =
  si_pid :: u16
  si_kind :: stream_kind
  si_track_index :: nat
  si_language :: "string option"
  si_title :: "string option"
  si_continuity :: u8
  si_pes :: pes_accumulator

record demux_probe =
  dp_video :: "video_meta option"
  dp_video_sequence_header :: "bytes option"
  dp_video_track_count :: nat
  dp_audio_tracks :: "audio_meta list"

record topology_changes =
  tc_audio :: bool
  tc_video :: bool

definition no_changes :: topology_changes where
  "no_changes = \<lparr>tc_audio = False, tc_video = False\<rparr>"

definition mark_change :: "stream_kind \<Rightarrow> topology_changes \<Rightarrow> topology_changes" where
  "mark_change kind c =
     (case kind_media_type kind of Audio \<Rightarrow> c\<lparr>tc_audio := True\<rparr> | Video \<Rightarrow> c\<lparr>tc_video := True\<rparr>)"

datatype stream_probe = Probe_Video video_meta "bytes option" | Probe_Audio audio_meta

subsection \<open>Tables\<close>

text \<open>The language of a descriptor loop; the source has no descriptor for a title.\<close>

definition descriptor_language :: "bytes \<Rightarrow> string option" where
  "descriptor_language body = do {
     (code, _) \<leftarrow> split_first_chunk 3 body;
     chars \<leftarrow> utf8_decode code;
     let language = map to_ascii_lower (chars_str (trim_chars chars));
     if language \<noteq> [] then Some language else None
   }"

fun parse_stream_descriptors :: "string option \<Rightarrow> bytes \<Rightarrow> string option" where
  "parse_stream_descriptors language (tag # len # tail) =
     (if unat len \<le> length tail then
        parse_stream_descriptors
          (if tag = 0x0A
           then (case descriptor_language (take (unat len) tail) of None \<Rightarrow> language | Some l \<Rightarrow> Some l)
           else language)
          (drop (unat len) tail)
      else language)"
| "parse_stream_descriptors language _ = language"

definition length_12 :: "u8 \<Rightarrow> u8 \<Rightarrow> nat" where
  "length_12 high low = be_fold [high AND 0x0F, low]"

definition pid_13 :: "u8 \<Rightarrow> u8 \<Rightarrow> u16" where
  "pid_13 high low = push_bit 8 (ucast (high AND 0x1F)) OR ucast low"

fun descriptors_are_valid :: "bytes \<Rightarrow> bool" where
  "descriptors_are_valid [] \<longleftrightarrow> True"
| "descriptors_are_valid [x] \<longleftrightarrow> False"
| "descriptors_are_valid (x # len # tail) \<longleftrightarrow> unat len \<le> length tail \<and> descriptors_are_valid (drop (unat len) tail)"

fun entries_are_valid :: "bytes \<Rightarrow> bool" where
  "entries_are_valid [] \<longleftrightarrow> True"
| "entries_are_valid (t # ph # pl # ih # il # tail) \<longleftrightarrow>
     length_12 ih il \<le> length tail \<and> descriptors_are_valid (take (length_12 ih il) tail) \<and>
     entries_are_valid (drop (length_12 ih il) tail)"
| "entries_are_valid _ \<longleftrightarrow> False"

definition pmt_stream_loop_bounds :: "bytes \<Rightarrow> nat \<Rightarrow> (nat \<times> nat) option" where
  "pmt_stream_loop_bounds data stop = do {
     stream_loop_end \<leftarrow> checked_sub stop 4;
     if stop > length data \<or> stream_loop_end < 12 then None else do {
       info \<leftarrow> slice_get 10 12 data;
       let stream_loop_start = 12 + length_12 (info ! 0) (info ! 1);
       program_info \<leftarrow> slice_get 12 stream_loop_start data;
       if \<not> descriptors_are_valid program_info then None else do {
         entries \<leftarrow> slice_get stream_loop_start stream_loop_end data;
         if entries_are_valid entries then Some (stream_loop_start, stream_loop_end) else None
       }
     }
   }"

subsection \<open>The demuxer\<close>

record ts_demuxer =
  dx_streams :: "stream_info list"
  dx_pid_to_stream :: "nat \<Rightarrow> nat"
  dx_pmt_pid :: "u16 option"
  dx_probed :: bool
  dx_initial_probe_done :: bool
  dx_probe_result :: "demux_probe option"
  dx_topology_changes :: topology_changes
  dx_remainder :: bytes
  dx_output :: "media_packet list"
  dx_audio_track_counter :: nat
  dx_video_track_count :: nat
  dx_stream_probes :: "stream_probe option list"
  dx_pmt_layout :: bytes
  dx_pmt_buf :: bytes
  dx_pmt_expected :: nat
  dx_pmt_version :: u8

definition TsDemuxer_new :: ts_demuxer where
  "TsDemuxer_new =
     \<lparr>dx_streams = [], dx_pid_to_stream = (\<lambda>_. NO_STREAM), dx_pmt_pid = None, dx_probed = False,
      dx_initial_probe_done = False, dx_probe_result = None, dx_topology_changes = no_changes, dx_remainder = [],
      dx_output = [], dx_audio_track_counter = 0, dx_video_track_count = 0, dx_stream_probes = [],
      dx_pmt_layout = [], dx_pmt_buf = [], dx_pmt_expected = 0, dx_pmt_version = PMT_VER_UNSET\<rparr>"

text \<open>An update of one stream, where the source holds a \<open>get_mut\<close> reference to it.\<close>

definition update_stream :: "nat \<Rightarrow> (stream_info \<Rightarrow> stream_info) \<Rightarrow> ts_demuxer \<Rightarrow> ts_demuxer" where
  "update_stream i f d =
     (case list_get (dx_streams d) i of
        None \<Rightarrow> d
      | Some s \<Rightarrow> d\<lparr>dx_streams := (dx_streams d)[i := f s]\<rparr>)"

definition update_pes :: "nat \<Rightarrow> (pes_accumulator \<Rightarrow> pes_accumulator) \<Rightarrow> ts_demuxer \<Rightarrow> ts_demuxer" where
  "update_pes i f = update_stream i (\<lambda>s. s\<lparr>si_pes := f (si_pes s)\<rparr>)"

subsubsection \<open>Probe results\<close>

fun publish_tracks ::
    "(stream_info \<times> stream_probe option) list \<Rightarrow> video_meta option \<times> bytes option \<times> audio_meta list \<Rightarrow>
     video_meta option \<times> bytes option \<times> audio_meta list" where
  "publish_tracks [] acc = acc"
| "publish_tracks ((s, p) # rest) (video, header, audio) =
     publish_tracks rest
       (case p of
          Some (Probe_Video meta sequence_header) \<Rightarrow>
            (Some (meta\<lparr>vm_language := si_language s, vm_title := si_title s\<rparr>), sequence_header, audio)
        | Some (Probe_Audio meta) \<Rightarrow>
            (video, header, audio @ [meta\<lparr>am_track_index := si_track_index s, am_language := si_language s,
               am_title := si_title s\<rparr>])
        | None \<Rightarrow> (video, header, audio))"

definition publish_probe :: "ts_demuxer \<Rightarrow> ts_demuxer" where
  "publish_probe d =
     (case publish_tracks (zip (dx_streams d) (dx_stream_probes d)) (None, None, []) of
        (video, header, audio) \<Rightarrow>
          d\<lparr>dx_initial_probe_done := True,
            dx_probe_result := Some
              \<lparr>dp_video = video, dp_video_sequence_header = header,
               dp_video_track_count = (if video \<noteq> None then max (dx_video_track_count d) 1 else 0),
               dp_audio_tracks = audio\<rparr>\<rparr>)"

definition build_stream_probe :: "(bytes \<Rightarrow> nat list) \<Rightarrow> stream_info \<Rightarrow> bytes \<Rightarrow> stream_probe option" where
  "build_stream_probe find_iter s data =
     (case kind_media_type (si_kind s) of
        Video \<Rightarrow>
          (let meta = probe_video find_iter (si_kind s) (unat (si_pid s)) None None data
           in if \<not> video_meta_complete (si_kind s) meta then None
              else Some (Probe_Video meta
                (if si_kind s = Kind_H264 then build_avcc_sequence_header find_iter data else None)))
      | Audio \<Rightarrow>
          (let meta = probe_audio (si_kind s) (si_track_index s) (unat (si_pid s)) None None data
           in if \<not> audio_meta_complete (si_kind s) meta then None else Some (Probe_Audio meta)))"

definition try_build_probe :: "(bytes \<Rightarrow> nat list) \<Rightarrow> nat \<Rightarrow> bytes \<Rightarrow> ts_demuxer \<Rightarrow> ts_demuxer" where
  "try_build_probe find_iter stream_idx data d =
     (let d = d\<lparr>dx_stream_probes :=
            dx_stream_probes d @ replicate (length (dx_streams d) - length (dx_stream_probes d)) None\<rparr>
      in case list_get (dx_stream_probes d) stream_idx of
           None \<Rightarrow> d
         | Some (Some _) \<Rightarrow> d
         | Some None \<Rightarrow>
             (case list_get (dx_streams d) stream_idx of
                None \<Rightarrow> d
              | Some s \<Rightarrow>
                  (case build_stream_probe find_iter s data of
                     None \<Rightarrow> d
                   | Some probe \<Rightarrow>
                       let d = d\<lparr>dx_stream_probes := (dx_stream_probes d)[stream_idx := Some probe]\<rparr>
                       in if list_all (\<lambda>p. p \<noteq> None) (dx_stream_probes d)
                          then publish_probe (d\<lparr>dx_probed := True\<rparr>) else d)))"

subsubsection \<open>Completed PES packets\<close>

definition emit_packet :: "(bytes \<Rightarrow> nat list) \<Rightarrow> nat \<Rightarrow> media_packet \<Rightarrow> ts_demuxer \<Rightarrow> ts_demuxer" where
  "emit_packet find_iter stream_idx p d =
     (let d = (if \<not> dx_probed d then try_build_probe find_iter stream_idx (payload p) d else d)
      in d\<lparr>dx_output := dx_output d @ [p]\<rparr>)"

definition pes_is_keyframe :: "(bytes \<Rightarrow> nat list) \<Rightarrow> stream_kind \<Rightarrow> bool \<Rightarrow> bytes \<Rightarrow> bool" where
  "pes_is_keyframe find_iter kind random_access data =
     (case kind of
        Kind_H264 \<Rightarrow> random_access \<or> h264_is_keyframe find_iter data
      | Kind_H265 \<Rightarrow> h265_is_keyframe find_iter data
      | _ \<Rightarrow> False)"

definition pes_packet :: "(bytes \<Rightarrow> nat list) \<Rightarrow> stream_info \<Rightarrow> bytes \<Rightarrow> bytes \<Rightarrow> media_packet" where
  "pes_packet find_iter s tested unit =
     \<lparr>media_type = kind_media_type (si_kind s), format = Raw,
      is_keyframe = pes_is_keyframe find_iter (si_kind s) (pes_random_access (si_pes s)) tested,
      track_index = si_track_index s, pts = ts_to_ms (pes_pts (si_pes s)), dts = ts_to_ms (pes_dts (si_pes s)),
      payload = unit\<rparr>"

definition flush_pes :: "(bytes \<Rightarrow> nat list) \<Rightarrow> nat \<Rightarrow> ts_demuxer \<Rightarrow> ts_demuxer" where
  "flush_pes find_iter stream_idx d =
     (case list_get (dx_streams d) stream_idx of
        None \<Rightarrow> d
      | Some s \<Rightarrow>
          let pes = si_pes s; data = pes_buf pes
          in if data = [] \<or> \<not> (pes_has_timestamp pes \<or> si_kind s = Kind_AacAdts)
             then update_pes stream_idx pes_reset d
             else
               let d = update_pes stream_idx pes_reset d
               in if si_kind s = Kind_AacAdts then
                    let timestamps = (if pes_has_timestamp pes then Some (pes_pts pes, pes_dts pes) else None)
                    in case frame_pes (si_track_index s) timestamps data (pes_adts pes) (dx_output d) of
                         (result, adts, out) \<Rightarrow>
                           let d = (update_pes stream_idx (\<lambda>pes. pes\<lparr>pes_adts := adts\<rparr>) d)\<lparr>dx_output := out\<rparr>
                           in case result of
                                Frames first \<Rightarrow>
                                  (case first of
                                     Some unit \<Rightarrow> if \<not> dx_probed d then try_build_probe find_iter stream_idx unit d else d
                                   | None \<Rightarrow> d)
                              | Whole unit \<Rightarrow>
                                  if pes_has_timestamp pes
                                  then emit_packet find_iter stream_idx (pes_packet find_iter s data unit) d
                                  else d
                  else emit_packet find_iter stream_idx (pes_packet find_iter s data data) d)"

definition flush_completed_pes :: "(bytes \<Rightarrow> nat list) \<Rightarrow> nat \<Rightarrow> ts_demuxer \<Rightarrow> ts_demuxer" where
  "flush_completed_pes find_iter stream_idx d =
     (case list_get (dx_streams d) stream_idx of
        None \<Rightarrow> d
      | Some s \<Rightarrow>
          (case pes_expected_payload_len (si_pes s) of
             None \<Rightarrow> d
           | Some expected \<Rightarrow>
               if length (pes_buf (si_pes s)) \<ge> expected
               then flush_pes find_iter stream_idx
                      (update_pes stream_idx (\<lambda>pes. pes\<lparr>pes_buf := take expected (pes_buf pes)\<rparr>) d)
               else d))"

subsubsection \<open>Program tables\<close>

definition section_after_pointer :: "bytes \<Rightarrow> bytes option" where
  "section_after_pointer data =
     (case data of
        [] \<Rightarrow> None
      | pointer # rest \<Rightarrow>
          (case slice_from (unat pointer) rest of
             None \<Rightarrow> None
           | Some table \<Rightarrow> if table = [] then None else Some table))"

text \<open>The first program of the association table that is not the network.\<close>

fun find_program :: "bytes \<Rightarrow> u16 option" where
  "find_program (nh # nl # ph # pl # rest) =
     (if be_fold [nh, nl] \<noteq> 0 then Some (pid_13 ph pl) else find_program rest)"
| "find_program _ = None"

definition parse_pat :: "bytes \<Rightarrow> bool \<Rightarrow> ts_demuxer \<Rightarrow> ts_demuxer" where
  "parse_pat data pusi d =
     (case (if pusi then section_after_pointer data else Some data) of
        None \<Rightarrow> d
      | Some table \<Rightarrow>
          (case split_first_chunk 8 table of
             None \<Rightarrow> d
           | Some (head, _) \<Rightarrow>
               if head ! 0 \<noteq> 0x00 then d
               else
                 let stop = min (length_12 (head ! 1) (head ! 2) + 3) (length table) - 4
                 in case slice_get 8 stop table of
                      None \<Rightarrow> d
                    | Some programs \<Rightarrow>
                        (case find_program programs of None \<Rightarrow> d | Some pid \<Rightarrow> d\<lparr>dx_pmt_pid := Some pid\<rparr>)))"

text \<open>
  The scan of an accepted program map: the streams it builds, and what is left of the old ones, by
  PID.
\<close>

record pmt_scan =
  ps_streams :: "stream_info list"
  ps_probes :: "stream_probe option list"
  ps_pid_to_stream :: "nat \<Rightarrow> nat"
  ps_audio_track_counter :: nat
  ps_video_track_count :: nat
  ps_has_video :: bool
  ps_old :: "(u16 \<times> stream_info \<times> stream_probe option) list"
  ps_removed_config :: bool
  ps_retained_metadata_changed :: bool
  ps_changes :: topology_changes

definition scan_add_stream :: "stream_kind \<Rightarrow> u16 \<Rightarrow> nat \<Rightarrow> string option \<Rightarrow> pmt_scan \<Rightarrow> pmt_scan" where
  "scan_add_stream kind es_pid track language sc =
     (let old = map_of (ps_old sc) es_pid;
          sc = sc\<lparr>ps_old := AList.delete es_pid (ps_old sc)\<rparr>;
          (pes, continuity, probe, sc) =
            (case old of
               Some (old, probe) \<Rightarrow>
                 if si_kind old = kind then
                   (si_pes old, si_continuity old, probe,
                    sc\<lparr>ps_changes := (if si_track_index old \<noteq> track then mark_change kind (ps_changes sc) else ps_changes sc),
                       ps_retained_metadata_changed := (ps_retained_metadata_changed sc \<or> (probe \<noteq> None \<and>
                         (si_track_index old \<noteq> track \<or> si_language old \<noteq> language \<or> si_title old \<noteq> None)))\<rparr>)
                 else
                   (PesAccumulator_new, CC_UNSET, None,
                    sc\<lparr>ps_changes := mark_change kind (mark_change (si_kind old) (ps_changes sc)),
                       ps_removed_config := (ps_removed_config sc \<or> probe \<noteq> None)\<rparr>)
             | None \<Rightarrow> (PesAccumulator_new, CC_UNSET, None, sc\<lparr>ps_changes := mark_change kind (ps_changes sc)\<rparr>));
          stream_idx = length (ps_streams sc);
          s = \<lparr>si_pid = es_pid, si_kind = kind, si_track_index = track, si_language = language, si_title = None,
               si_continuity = continuity, si_pes = pes\<rparr>
      in sc\<lparr>ps_streams := ps_streams sc @ [s], ps_probes := ps_probes sc @ [probe],
            ps_pid_to_stream := (if unat es_pid < PID_COUNT \<and> stream_idx \<le> 0xFFFF
              then (ps_pid_to_stream sc)(unat es_pid := stream_idx) else ps_pid_to_stream sc)\<rparr>)"

definition scan_entry :: "u8 \<Rightarrow> u16 \<Rightarrow> bytes \<Rightarrow> pmt_scan \<Rightarrow> pmt_scan" where
  "scan_entry stream_type es_pid descriptor_bytes sc =
     (case from_stream_type stream_type of
        None \<Rightarrow> sc
      | Some kind \<Rightarrow>
          (case kind_media_type kind of
             Video \<Rightarrow>
               (let sc = sc\<lparr>ps_video_track_count := saturating_add usize_MAX (ps_video_track_count sc) 1\<rparr>
                in if ps_has_video sc then sc
                   else scan_add_stream kind es_pid 0 (parse_stream_descriptors None descriptor_bytes)
                          (sc\<lparr>ps_has_video := True\<rparr>))
           | Audio \<Rightarrow>
               (let idx = ps_audio_track_counter sc;
                    sc = sc\<lparr>ps_audio_track_counter := saturating_add u32_MAX idx 1\<rparr>
                in scan_add_stream kind es_pid idx (parse_stream_descriptors None descriptor_bytes) sc)))"

fun scan_entries :: "bytes \<Rightarrow> pmt_scan \<Rightarrow> pmt_scan" where
  "scan_entries (stream_type # ph # pl # ih # il # tail) sc =
     (if length_12 ih il \<le> length tail
      then scan_entries (drop (length_12 ih il) tail)
             (scan_entry stream_type (pid_13 ph pl) (take (length_12 ih il) tail) sc)
      else sc)"
| "scan_entries _ sc = sc"

text \<open>The old streams by PID, the last of a PID winning, with their probes.\<close>

definition old_streams :: "stream_info list \<Rightarrow> stream_probe option list \<Rightarrow> (u16 \<times> stream_info \<times> stream_probe option) list" where
  "old_streams streams probes =
     fold (\<lambda>(s, p). AList.update (si_pid s) (s, p))
       (zip streams (probes @ replicate (length streams - length probes) None)) []"

definition keeps_packet :: "topology_changes \<Rightarrow> media_packet \<Rightarrow> bool" where
  "keeps_packet c p = (case media_type p of Audio \<Rightarrow> \<not> tc_audio c | Video \<Rightarrow> \<not> tc_video c)"

definition clear_pmt_buf :: "ts_demuxer \<Rightarrow> ts_demuxer" where
  "clear_pmt_buf d = d\<lparr>dx_pmt_buf := [], dx_pmt_expected := 0\<rparr>"

text \<open>The new topology from an accepted stream loop: the scan, and what it replaces.\<close>

definition scan_start :: "ts_demuxer \<Rightarrow> pmt_scan" where
  "scan_start d =
     \<lparr>ps_streams = [], ps_probes = [], ps_pid_to_stream = (\<lambda>_. NO_STREAM), ps_audio_track_counter = 0,
      ps_video_track_count = 0, ps_has_video = False, ps_old = old_streams (dx_streams d) (dx_stream_probes d),
      ps_removed_config = False, ps_retained_metadata_changed = False, ps_changes = no_changes\<rparr>"

text \<open>The completed packets of a changed media type are discarded and the change is reported.\<close>

definition discard_changed :: "topology_changes \<Rightarrow> ts_demuxer \<Rightarrow> ts_demuxer" where
  "discard_changed changes d =
     (if tc_audio changes \<or> tc_video changes
      then d\<lparr>dx_output := filter (keeps_packet changes) (dx_output d),
             dx_topology_changes :=
               \<lparr>tc_audio = tc_audio (dx_topology_changes d) \<or> tc_audio changes,
                tc_video = tc_video (dx_topology_changes d) \<or> tc_video changes\<rparr>\<rparr>
      else d)"

definition install_scan :: "pmt_scan \<Rightarrow> ts_demuxer \<Rightarrow> ts_demuxer" where
  "install_scan sc d =
     (let changes = fold (\<lambda>(_, old, _). mark_change (si_kind old)) (ps_old sc) (ps_changes sc);
          removed_config = (ps_removed_config sc \<or> list_ex (\<lambda>(_, _, probe). probe \<noteq> None) (ps_old sc));
          d = d\<lparr>dx_streams := ps_streams sc, dx_stream_probes := ps_probes sc,
                dx_pid_to_stream := ps_pid_to_stream sc, dx_audio_track_counter := ps_audio_track_counter sc,
                dx_video_track_count := ps_video_track_count sc\<rparr>;
          d = discard_changed changes d;
          d = clear_pmt_buf (d\<lparr>dx_probed := list_all (\<lambda>p. p \<noteq> None) (dx_stream_probes d)\<rparr>)
      in if dx_probed d \<or> (dx_initial_probe_done d \<and> (removed_config \<or> ps_retained_metadata_changed sc))
         then publish_probe d else d)"

definition apply_pmt :: "bytes \<Rightarrow> ts_demuxer \<Rightarrow> ts_demuxer" where
  "apply_pmt entries d = install_scan (scan_entries entries (scan_start d)) d"

text \<open>A complete section: refused, already in force, or a new topology.\<close>

definition complete_pmt :: "ts_demuxer \<Rightarrow> ts_demuxer" where
  "complete_pmt d =
     (let data = dx_pmt_buf d
      in case (pmt_stream_loop_bounds data (dx_pmt_expected d), list_get data 5) of
           (Some (loop_start, loop_end), Some version_byte) \<Rightarrow>
             if crc32_mpeg2 data \<noteq> 0 \<or> version_byte AND 1 = 0 \<or> slice_get 6 8 data \<noteq> Some [0, 0]
             then clear_pmt_buf d
             else
               let d = d\<lparr>dx_pmt_version := drop_bit 1 version_byte AND 0x1F\<rparr>;
                   layout = case_option [] id (slice_get 10 loop_end data)
               in if dx_pmt_layout d = layout then clear_pmt_buf d
                  else apply_pmt (case_option [] id (slice_get loop_start loop_end data)) (d\<lparr>dx_pmt_layout := layout\<rparr>)
         | _ \<Rightarrow> clear_pmt_buf d)"

definition collect_pmt :: "bytes \<Rightarrow> ts_demuxer \<Rightarrow> ts_demuxer" where
  "collect_pmt data d =
     (let remaining = dx_pmt_expected d - length (dx_pmt_buf d);
          d = d\<lparr>dx_pmt_buf := dx_pmt_buf d @ take (min (length data) remaining) data\<rparr>
      in if length (dx_pmt_buf d) < dx_pmt_expected d then d else complete_pmt d)"

definition parse_pmt :: "bytes \<Rightarrow> bool \<Rightarrow> ts_demuxer \<Rightarrow> ts_demuxer" where
  "parse_pmt data pusi d =
     (if pusi then
        let d = clear_pmt_buf d
        in case section_after_pointer data of
             None \<Rightarrow> d
           | Some table \<Rightarrow>
               (case split_first_chunk 3 table of
                  None \<Rightarrow> d
                | Some (head, _) \<Rightarrow>
                    if head ! 0 \<noteq> 0x02 then d
                    else
                      let section_len = length_12 (head ! 1) (head ! 2)
                      in if \<not> (13 \<le> section_len \<and> section_len \<le> 1021) then d
                         else collect_pmt table (d\<lparr>dx_pmt_expected := section_len + 3\<rparr>))
      else if dx_pmt_expected d > 0 then collect_pmt data d
      else d)"

subsubsection \<open>Transport packets\<close>

text \<open>The header of a PES packet at the start of a transport packet's payload.\<close>

definition start_pes :: "bool \<Rightarrow> bytes \<Rightarrow> bytes \<Rightarrow> pes_accumulator \<Rightarrow> pes_accumulator" where
  "start_pes random_access head rest pes =
     (let pes_packet_len = be_fold [head ! 4, head ! 5];
          pes_flags = head ! 7;
          pes_header_len = unat (head ! 8);
          has_pts = (pes_flags AND 0x80 \<noteq> 0);
          has_dts = (pes_flags AND 0x40 \<noteq> 0);
          pes = pes\<lparr>pes_random_access := random_access,
                    pes_expected_payload_len := pes_payload_len pes_packet_len pes_header_len\<rparr>;
          pes = (if has_pts \<and> 5 \<le> length rest
                 then pes\<lparr>pes_pts := parse_timestamp (take 5 rest), pes_has_timestamp := True\<rparr> else pes);
          pes = (if has_dts \<and> 10 \<le> length rest
                 then pes\<lparr>pes_dts := parse_timestamp (take 5 (drop 5 rest))\<rparr>
                 else if has_pts then pes\<lparr>pes_dts := pes_pts pes\<rparr> else pes)
      in case slice_from pes_header_len rest of
           None \<Rightarrow> pes
         | Some pes_data \<Rightarrow> if pes_data \<noteq> [] then append_bounded pes_data pes else pes)"

definition process_stream :: "(bytes \<Rightarrow> nat list) \<Rightarrow> nat \<Rightarrow> u8 \<Rightarrow> bool \<Rightarrow> bool \<Rightarrow> bytes \<Rightarrow> ts_demuxer \<Rightarrow> ts_demuxer" where
  "process_stream find_iter stream_idx cc pusi random_access data d =
     (case list_get (dx_streams d) stream_idx of
        None \<Rightarrow> d
      | Some _ \<Rightarrow>
          let d = update_stream stream_idx (\<lambda>s. s\<lparr>si_continuity := cc\<rparr>) d
          in if pusi then
               let d = flush_pes find_iter stream_idx d
               in case split_first_chunk 9 data of
                    None \<Rightarrow> d
                  | Some (head, rest) \<Rightarrow>
                      if take 3 head = [0x00, 0x00, 0x01]
                      then flush_completed_pes find_iter stream_idx
                             (update_pes stream_idx (start_pes random_access head rest) d)
                      else d
             else flush_completed_pes find_iter stream_idx (update_pes stream_idx (append_bounded data) d))"

text \<open>The payload behind the adaptation field, and its random-access flag.\<close>

definition ts_payload :: "bytes \<Rightarrow> (bool \<times> bytes) option" where
  "ts_payload pkt =
     (let control = drop_bit 4 (pkt ! 3) AND 0x03; after_header = drop 4 pkt
      in if control = 0x00 \<or> control = 0x02 then None
         else if control = 0x03 then
           (case after_header of
              [] \<Rightarrow> None
            | af_len # rest \<Rightarrow>
                Some (af_len > 0 \<and> (case rest of [] \<Rightarrow> False | af_flags # _ \<Rightarrow> af_flags AND 0x40 \<noteq> 0),
                      case_option [] id (slice_from (unat af_len) rest)))
         else Some (False, after_header))"

definition process_ts_packet :: "(bytes \<Rightarrow> nat list) \<Rightarrow> bytes \<Rightarrow> ts_demuxer \<Rightarrow> ts_demuxer" where
  "process_ts_packet find_iter pkt d =
     (let pid = pid_13 (pkt ! 1) (pkt ! 2); pusi = (pkt ! 1 AND 0x40 \<noteq> 0); cc = pkt ! 3 AND 0x0F
      in case ts_payload pkt of
           None \<Rightarrow> d
         | Some (random_access, data) \<Rightarrow>
             if data = [] then d
             else if pid = PAT_PID then parse_pat data pusi d
             else if Some pid = dx_pmt_pid d then parse_pmt data pusi d
             else if unat pid \<ge> PID_COUNT then d
             else if dx_pid_to_stream d (unat pid) = NO_STREAM then d
             else process_stream find_iter (dx_pid_to_stream d (unat pid)) cc pusi random_access data d)"

subsubsection \<open>Synchronisation\<close>

definition ts_sync_candidate_is_valid :: "bytes \<Rightarrow> nat \<Rightarrow> bool" where
  "ts_sync_candidate_is_valid data candidate =
     (if list_get data candidate \<noteq> Some TS_SYNC_BYTE then False
      else
        let remaining = length data - candidate
        in if remaining \<le> TS_PACKET_SIZE then True
           else
             let second = candidate + TS_PACKET_SIZE
             in if list_get data second \<noteq> Some TS_SYNC_BYTE then False
                else remaining \<le> 2 * TS_PACKET_SIZE \<or> list_get data (second + TS_PACKET_SIZE) = Some TS_SYNC_BYTE)"

function sync_search :: "(u8 \<Rightarrow> bytes \<Rightarrow> nat option) \<Rightarrow> bytes \<Rightarrow> nat \<Rightarrow> nat" where
  "sync_search memchr data search_offset =
     (case slice_from search_offset data of
        None \<Rightarrow> length data
      | Some rest \<Rightarrow>
          (case memchr TS_SYNC_BYTE rest of
             None \<Rightarrow> length data
           | Some relative \<Rightarrow>
               let candidate = search_offset + relative
               in if ts_sync_candidate_is_valid data candidate then candidate
                  else sync_search memchr data (candidate + 1)))"
  by pat_completeness auto
termination
  by (relation "measure (\<lambda>(memchr, data, search_offset). length data + 1 - search_offset)")
    (auto simp: slice_from_def split: if_splits)

declare sync_search.simps [simp del]

definition find_ts_sync :: "(u8 \<Rightarrow> bytes \<Rightarrow> nat option) \<Rightarrow> bytes \<Rightarrow> nat" where
  "find_ts_sync memchr data =
     (if ts_sync_candidate_is_valid data 0 then 0 else sync_search memchr data 0)"

text \<open>Every whole packet of the buffer; the answer is where the unprocessed tail starts.\<close>

function feed_loop ::
    "(u8 \<Rightarrow> bytes \<Rightarrow> nat option) \<Rightarrow> (bytes \<Rightarrow> nat list) \<Rightarrow> bytes \<Rightarrow> nat \<Rightarrow> ts_demuxer \<Rightarrow> nat \<times> ts_demuxer" where
  "feed_loop memchr find_iter buf offset d =
     (if offset + TS_PACKET_SIZE \<le> length buf then
        let packet = take TS_PACKET_SIZE (drop offset buf)
        in if packet ! 0 \<noteq> TS_SYNC_BYTE
           then feed_loop memchr find_iter buf (offset + 1 + find_ts_sync memchr (drop (offset + 1) buf)) d
           else feed_loop memchr find_iter buf (offset + TS_PACKET_SIZE) (process_ts_packet find_iter packet d)
      else (offset, d))"
  by pat_completeness auto
termination
  by (relation "measure (\<lambda>(memchr, find_iter, buf, offset, d). length buf - offset)") (auto simp: TS_PACKET_SIZE_def)

declare feed_loop.simps [simp del]

definition feed_slice ::
    "(u8 \<Rightarrow> bytes \<Rightarrow> nat option) \<Rightarrow> (bytes \<Rightarrow> nat list) \<Rightarrow> bytes \<Rightarrow> ts_demuxer \<Rightarrow> nat \<times> ts_demuxer" where
  "feed_slice memchr find_iter buf d = feed_loop memchr find_iter buf (find_ts_sync memchr buf) d"

definition MAX_REMAINDER :: nat where
  "MAX_REMAINDER = TS_PACKET_SIZE - 1"

definition ts_feed :: "(u8 \<Rightarrow> bytes \<Rightarrow> nat option) \<Rightarrow> (bytes \<Rightarrow> nat list) \<Rightarrow> bytes \<Rightarrow> ts_demuxer \<Rightarrow> ts_demuxer" where
  "ts_feed memchr find_iter data d =
     (let d =
        (if dx_remainder d = [] then
           (case feed_slice memchr find_iter data d of
              (leftover, d) \<Rightarrow> d\<lparr>dx_remainder := dx_remainder d @ drop leftover data\<rparr>)
         else
           let scratch = dx_remainder d @ data
           in case feed_slice memchr find_iter scratch d of
                (leftover, d) \<Rightarrow> d\<lparr>dx_remainder := drop leftover scratch\<rparr>)
      in case checked_sub (length (dx_remainder d)) MAX_REMAINDER of
           None \<Rightarrow> d
         | Some excess \<Rightarrow> d\<lparr>dx_remainder := drop excess (dx_remainder d)\<rparr>)"

subsubsection \<open>The owner's side\<close>

definition ts_drain :: "ts_demuxer \<Rightarrow> media_packet list \<times> ts_demuxer" where
  "ts_drain d = (dx_output d, d\<lparr>dx_output := []\<rparr>)"

definition ts_drain_into :: "media_packet list \<Rightarrow> ts_demuxer \<Rightarrow> nat \<times> media_packet list \<times> ts_demuxer" where
  "ts_drain_into output d = (length (dx_output d), output @ dx_output d, d\<lparr>dx_output := []\<rparr>)"

definition take_probe :: "ts_demuxer \<Rightarrow> demux_probe option \<times> ts_demuxer" where
  "take_probe d = (dx_probe_result d, d\<lparr>dx_probe_result := None\<rparr>)"

definition take_topology_changes :: "ts_demuxer \<Rightarrow> topology_changes \<times> ts_demuxer" where
  "take_topology_changes d = (dx_topology_changes d, d\<lparr>dx_topology_changes := no_changes\<rparr>)"

definition has_streams :: "ts_demuxer \<Rightarrow> bool" where
  "has_streams d \<longleftrightarrow> dx_streams d \<noteq> []"

definition ts_flush :: "(bytes \<Rightarrow> nat list) \<Rightarrow> ts_demuxer \<Rightarrow> ts_demuxer" where
  "ts_flush find_iter d = fold (flush_pes find_iter) [0..<length (dx_streams d)] d"

subsection \<open>What PES handling leaves alone\<close>

definition tables :: "ts_demuxer \<Rightarrow> (nat \<Rightarrow> nat) \<times> u16 option \<times> bytes \<times> bytes \<times> bytes \<times> nat \<times> topology_changes" where
  "tables d = (dx_pid_to_stream d, dx_pmt_pid d, dx_remainder d, dx_pmt_layout d, dx_pmt_buf d, dx_pmt_expected d, dx_topology_changes d)"

lemma tables_simps [simp]:
  "tables (update_stream i f d) = tables d"
  "tables (update_pes i g d) = tables d"
  "tables (publish_probe d) = tables d"
  "tables (try_build_probe find_iter i data d) = tables d"
  "tables (emit_packet find_iter i p d) = tables d"
proof -
  show u: "tables (update_stream i f d) = tables d" for f by (simp add: tables_def update_stream_def split: option.splits)
  show "tables (update_pes i g d) = tables d" by (simp add: update_pes_def u)
  show p: "tables (publish_probe d) = tables d" for d by (simp add: tables_def publish_probe_def split: prod.splits)
  have q: "tables (d\<lparr>dx_stream_probes := ps, dx_probed := b\<rparr>) = tables d" "tables (d\<lparr>dx_stream_probes := ps\<rparr>) = tables d" for ps b
    by (simp_all add: tables_def)
  show t: "tables (try_build_probe find_iter i data d) = tables d" for data
    by (auto simp: try_build_probe_def Let_def p q split: option.splits)
  show "tables (emit_packet find_iter i p d) = tables d"
    using t [of "payload p"] by (simp add: emit_packet_def Let_def tables_def)
qed

lemma tables_output [simp]: "tables (d\<lparr>dx_output := out\<rparr>) = tables d"
  by (simp add: tables_def)

lemma tables_flush_pes [simp]: "tables (flush_pes find_iter i d) = tables d"
  by (auto simp: flush_pes_def Let_def split: option.splits prod.splits framed.splits)

lemma tables_flush_completed_pes [simp]: "tables (flush_completed_pes find_iter i d) = tables d"
  by (auto simp: flush_completed_pes_def split: option.splits)

lemma tables_process_stream [simp]: "tables (process_stream find_iter i cc pusi ra data d) = tables d"
  by (auto simp: process_stream_def Let_def split: option.splits)

text \<open>
  A chunk that does not fit is left out, and the bytes buffered before it are still emitted at the next
  flush.
\<close>

lemma oversized_pes_emits_prefix:
  assumes "list_get (dx_streams d) i = Some s" and "si_kind s = Kind_H264" and "pes_buf (si_pes s) \<noteq> []"
    and "pes_has_timestamp (si_pes s)" and "dx_probed d" and "MAX_PES_BUFFER < length (pes_buf (si_pes s)) + length chunk"
    and "length (pes_buf (si_pes s)) + length chunk \<le> usize_MAX"
  shows "dx_output (flush_pes find_iter i (update_pes i (append_bounded chunk) d)) =
    dx_output d @ [pes_packet find_iter s (pes_buf (si_pes s)) (pes_buf (si_pes s))]"
proof -
  have "append_bounded chunk (si_pes s) = si_pes s" using assms(6,7) by (simp add: append_bounded_def saturating_add_def)
  moreover have "(dx_streams d)[i := s] = dx_streams d" using assms(1) by (auto simp: list_get_def split: if_splits)
  ultimately have "update_pes i (append_bounded chunk) d = d"
    using assms(1) by (simp add: update_pes_def update_stream_def)
  then show ?thesis using assms
    by (simp add: flush_pes_def Let_def emit_packet_def update_pes_def update_stream_def)
qed

end
