(* ===== verification/Ts_Demux_Wf.thy ===== *)
theory Ts_Demux_Wf
  imports Ts_Demux
begin

text \<open>
  What holds of the demuxer whatever bytes a publisher sends: the memory it holds is bounded, stream
  indices resolve, track indices are unambiguous and every packet it emits is well formed. The
  invariant is preserved by every operation, so it holds in every reachable state.
\<close>

unbundle bit_operations_syntax

subsection \<open>ADTS framing\<close>

lemma frame_len_le: "frame_len data = Some n \<Longrightarrow> n \<le> 8191"
proof -
  have bound: "push_bit 11 (unat (b3 AND 0x03 :: u8)) OR push_bit 3 (unat (b4 :: u8)) OR drop_bit 5 (unat (b5 AND 0xE0 :: u8)) < 2 ^ 13" for b3 b4 b5
  proof -
    have small: "x OR y < 2 ^ 13" if "x < 2 ^ 13" "y < 2 ^ 13" for x y :: nat
      using that by (metis take_bit_nat_eq_self_iff take_bit_or)
    have m: "(3 :: u8) = mask 2" by (simp add: mask_eq_exp_minus_1)
    have "unat (b3 AND 3) < 4"
      unfolding m take_bit_eq_mask [symmetric] unsigned_take_bit_eq by (simp add: take_bit_nat_less_exp [of 2, simplified])
    then have "push_bit 11 (unat (b3 AND 3)) < 2 ^ 13" by (simp add: push_bit_eq_mult)
    moreover have "unat b4 < 256" using unsigned_less [where ?'a = nat, of b4] by simp
    then have "push_bit 3 (unat b4) < 2 ^ 13" by (simp add: push_bit_eq_mult)
    moreover have "unat (b5 AND 0xE0) < 256" using unsigned_less [where ?'a = nat, of "b5 AND 0xE0"] by simp
    then have "drop_bit 5 (unat (b5 AND 0xE0)) < 2 ^ 13" by (simp add: drop_bit_eq_div)
    ultimately show ?thesis by (intro small)
  qed
  assume "frame_len data = Some n"
  then obtain b3 b4 b5 where "n = push_bit 11 (unat (b3 AND 0x03 :: u8)) OR push_bit 3 (unat (b4 :: u8)) OR drop_bit 5 (unat (b5 AND 0xE0 :: u8))"
    by (auto simp: frame_len_def Let_def split: list.splits if_splits)
  with bound [of b3 b4 b5] show ?thesis by simp
qed

definition adts_wf :: "adts_framing \<Rightarrow> bool" where
  "adts_wf st \<longleftrightarrow> length (af_carry st) < MAX_ADTS_FRAME"

definition packet_wf :: "media_packet \<Rightarrow> bool" where
  "packet_wf p \<longleftrightarrow> format p = Raw \<and> (media_type p = Audio \<longrightarrow> \<not> is_keyframe p) \<and>
     payload p \<noteq> [] \<and> length (payload p) \<le> MAX_PES_BUFFER"

definition of_track :: "media_type \<Rightarrow> nat \<Rightarrow> media_packet \<Rightarrow> bool" where
  "of_track mt track p \<longleftrightarrow> media_type p = mt \<and> track_index p = track"

lemma adts_unit_wf: "7 \<le> length unit \<Longrightarrow> length unit \<le> 8191 \<Longrightarrow> packet_wf (adts_unit track t unit) \<and> of_track Audio track (adts_unit track t unit)"
  by (cases t) (auto simp: adts_unit_def packet_wf_def of_track_def MAX_PES_BUFFER_def)

lemma frame_loop_wf:
  assumes "frame_loop track data start carried offset pes_first expected first st out = (r, st', out')"
    and "af_carry st = []" and "first = None \<longrightarrow> carried \<or> offset = start"
  shows "adts_wf st' \<and> (\<exists>us. out' = out @ us \<and> list_all (\<lambda>p. packet_wf p \<and> of_track Audio track p) us) \<and>
    (\<forall>unit. r = Whole unit \<longrightarrow> unit \<noteq> [] \<and> length unit \<le> length data)"
  using assms
proof (induction track data start carried offset pes_first expected first st out rule: frame_loop.induct)
  case (1 track data start carried offset pes_first expected first st out)
  let ?rest = "drop offset data"
  show ?case
  proof (cases "?rest \<noteq> [] \<and> (\<exists>at. (case pes_first of None \<Rightarrow> expected | Some t \<Rightarrow> Some t) = Some at)")
    case False
    with 1(2,3) show ?thesis
      by (subst (asm) frame_loop.simps) (auto simp: Let_def adts_wf_def MAX_ADTS_FRAME_def split: option.splits if_splits)
  next
    case True
    then obtain at where ne: "?rest \<noteq> []" and at: "(case pes_first of None \<Rightarrow> expected | Some t \<Rightarrow> Some t) = Some at" by auto
    show ?thesis
    proof (cases "\<exists>len step. frame_len ?rest = Some len \<and> len \<le> length ?rest \<and> step_90k ?rest = Some step")
      case True
      then obtain len step where len: "frame_len ?rest = Some len" "len \<le> length ?rest" "step_90k ?rest = Some step" by auto
      define first1 where "first1 = (case first of None \<Rightarrow> Some (take len ?rest) | Some f \<Rightarrow> Some f)"
      have "frame_loop track data start carried (offset + len) None (Some (step_times step at)) first1 st
          (out @ [adts_unit track at (take len ?rest)]) = (r, st', out')"
        using 1(2) by (subst (asm) frame_loop.simps) (use ne at len in \<open>simp add: Let_def first1_def\<close>)
      then have "adts_wf st' \<and> (\<exists>us. out' = (out @ [adts_unit track at (take len ?rest)]) @ us \<and>
          list_all (\<lambda>p. packet_wf p \<and> of_track Audio track p) us) \<and>
          (\<forall>unit. r = Whole unit \<longrightarrow> unit \<noteq> [] \<and> length unit \<le> length data)"
        using 1(1) [OF refl refl ne at len(1,2,3) refl, folded first1_def] 1(3) by (auto simp: first1_def split: option.splits)
      moreover have "packet_wf (adts_unit track at (take len ?rest)) \<and> of_track Audio track (adts_unit track at (take len ?rest))"
        using len frame_len_ge [OF len(1)] frame_len_le [OF len(1)] by (intro adts_unit_wf) auto
      ultimately show ?thesis by fastforce
    next
      case False
      have "length ?rest < MAX_ADTS_FRAME" if "frame_len ?rest = Some len" "\<not> len \<le> length ?rest" for len
        using that frame_len_le [OF that(1)] by (simp add: MAX_ADTS_FRAME_def)
      moreover have "length ?rest < MAX_ADTS_FRAME" if "length ?rest < ADTS_HEADER_LEN"
        using that by (simp add: MAX_ADTS_FRAME_def ADTS_HEADER_LEN_def)
      ultimately show ?thesis using 1(2-) False ne at
        by (subst (asm) frame_loop.simps)
          (auto simp: Let_def adts_wf_def MAX_ADTS_FRAME_def split: option.splits if_splits)
    qed
  qed
qed

lemma complete_carry_wf:
  assumes "complete_carry data st = (c, st')" and "adts_wf st"
  shows "(c = Pending \<longrightarrow> adts_wf st') \<and> (c \<noteq> Pending \<longrightarrow> af_carry st' = []) \<and> af_next st' = af_next st \<and>
    (\<forall>frame n. c = Completed frame n \<longrightarrow> length frame \<le> 8191 \<and> (7 \<le> length frame))"
proof -
  let ?h = "take ADTS_HEADER_LEN (af_carry st @ data)"
  show ?thesis
  proof (cases "frame_len ?h")
    case None
    with assms show ?thesis
      by (auto simp: complete_carry_def Let_def adts_wf_def MAX_ADTS_FRAME_def ADTS_HEADER_LEN_def split: if_splits)
  next
    case (Some len)
    note bounds = frame_len_le [OF Some] frame_len_ge [OF Some]
    have "7 \<le> length (af_carry st @ data)"
      using Some frame_len_short [of ?h] by (cases "length (af_carry st @ data) < 7") (auto simp: ADTS_HEADER_LEN_def)
    with assms Some bounds show ?thesis
      by (auto simp: complete_carry_def Let_def adts_wf_def MAX_ADTS_FRAME_def split_at_checked_def split: if_splits option.splits)
  qed
qed

lemma frame_pes_wf:
  assumes "frame_pes track ts data st out = (r, st', out')" and "adts_wf st"
  shows "adts_wf st' \<and> (\<exists>us. out' = out @ us \<and> list_all (\<lambda>p. packet_wf p \<and> of_track Audio track p) us) \<and>
    (\<forall>unit. r = Whole unit \<longrightarrow> unit \<noteq> [] \<and> length unit \<le> length data)"
proof -
  have from_resync: "?thesis" if res: "(case adts_resync data of
       None \<Rightarrow> (Frames None, drop_unframed (length data) (s\<lparr>af_next := e\<rparr>), out)
     | Some start \<Rightarrow> frame_loop track data start False start ts e None s out) = (r, st', out')"
     and "af_carry s = []" for s e
  proof (cases "adts_resync data")
    case None
    with that show ?thesis by (auto simp: adts_wf_def drop_unframed_def MAX_ADTS_FRAME_def)
  next
    case (Some start)
    with res frame_loop_wf [of track data start False start ts e None s out r st' out'] \<open>af_carry s = []\<close>
    show ?thesis by simp
  qed
  show ?thesis
  proof (cases "af_carry st = []")
    case True
    with assms(1) from_resync [of "af_next st" st] show ?thesis by (simp add: frame_pes_def Let_def)
  next
    case False
    obtain c s where c: "complete_carry data st = (c, s)" by fastforce
    note wf = complete_carry_wf [OF c assms(2)]
    show ?thesis
    proof (cases c)
      case (Completed frame n)
      have frame: "packet_wf (adts_unit track t frame) \<and> of_track Audio track (adts_unit track t frame)" for t
        using wf Completed by (intro adts_unit_wf) auto
      have s: "af_carry s = []" using wf Completed by simp
      show ?thesis
      proof (cases "\<exists>at step. af_next st = Some at \<and> step_90k frame = Some step")
        case True
        then obtain at step where ats: "af_next st = Some at" "step_90k frame = Some step" by blast
        from assms(1) have "frame_loop track data n True n ts (Some (step_times step at)) (Some frame) s
            (out @ [adts_unit track at frame]) = (r, st', out')"
          using False c Completed ats by (simp add: frame_pes_def Let_def)
        from frame_loop_wf [OF this s] frame [of at] show ?thesis by fastforce
      next
        case no: False
        from assms(1) have "frame_loop track data n True n ts (af_next st) None s out = (r, st', out')"
          using False c Completed no by (auto simp: frame_pes_def Let_def split: option.splits)
        from frame_loop_wf [OF this s] show ?thesis by simp
      qed
    next
      case Pending
      with assms(1) False c have "r = Frames None \<and> st' = s \<and> out' = out" by (simp add: frame_pes_def Let_def)
      with wf Pending show ?thesis by simp
    next
      case Rejected
      then have "af_carry s = []" using wf by simp
      with assms(1) False c Rejected from_resync [of None s] show ?thesis by (simp add: frame_pes_def Let_def)
    qed
  qed
qed

subsection \<open>The invariant\<close>

definition timestamp_wf :: "int \<Rightarrow> bool" where
  "timestamp_wf t \<longleftrightarrow> 0 \<le> t \<and> t < 2 ^ 33"

definition pes_wf :: "pes_accumulator \<Rightarrow> bool" where
  "pes_wf pes \<longleftrightarrow> length (pes_buf pes) \<le> MAX_PES_BUFFER \<and> adts_wf (pes_adts pes) \<and>
     timestamp_wf (pes_pts pes) \<and> timestamp_wf (pes_dts pes)"

definition ident :: "stream_info \<Rightarrow> u16 \<times> media_type \<times> nat" where
  "ident s = (si_pid s, kind_media_type (si_kind s), si_track_index s)"

text \<open>At most one video stream, of track 0, and audio streams numbered in order.\<close>

definition tracks_wf :: "(u16 \<times> media_type \<times> nat) list \<Rightarrow> bool" where
  "tracks_wf ids \<longleftrightarrow>
     (let tracks = (\<lambda>mt. map (\<lambda>(_, _, track). track) (filter (\<lambda>(_, m, _). m = mt) ids))
      in tracks Audio = [0..<length (tracks Audio)] \<and> tracks Video \<in> {[], [0]})"

definition resolves :: "(nat \<Rightarrow> nat) \<Rightarrow> (u16 \<times> media_type \<times> nat) list \<Rightarrow> bool" where
  "resolves table ids \<longleftrightarrow>
     (\<forall>pid. table pid \<noteq> NO_STREAM \<longrightarrow> table pid < length ids \<and> unat (fst (ids ! table pid)) = pid)"

definition demux_wf :: "ts_demuxer \<Rightarrow> bool" where
  "demux_wf d \<longleftrightarrow>
     list_all (\<lambda>s. pes_wf (si_pes s)) (dx_streams d) \<and> tracks_wf (map ident (dx_streams d)) \<and>
     resolves (dx_pid_to_stream d) (map ident (dx_streams d)) \<and>
     length (dx_stream_probes d) \<le> length (dx_streams d) \<and>
     length (dx_pmt_buf d) \<le> dx_pmt_expected d \<and> dx_pmt_expected d \<le> 1024 \<and>
     list_all packet_wf (dx_output d)"

lemma pes_reset_wf: "pes_wf pes \<Longrightarrow> pes_wf (pes_reset pes)"
  by (simp add: pes_wf_def pes_reset_def timestamp_wf_def)

lemma append_bounded_wf: "pes_wf pes \<Longrightarrow> pes_wf (append_bounded data pes)"
  by (auto simp: pes_wf_def append_bounded_def saturating_add_def MAX_PES_BUFFER_def usize_MAX_def min_def split: if_splits)

lemma start_pes_wf: "pes_wf pes \<Longrightarrow> pes_wf (start_pes ra head rest pes)"
proof -
  assume "pes_wf pes"
  moreover have "timestamp_wf (parse_timestamp (take 5 xs))" if "5 \<le> length xs" for xs
    using parse_timestamp_range [of "take 5 xs"] that by (simp add: timestamp_wf_def)
  ultimately show ?thesis
    by (auto simp: start_pes_def Let_def pes_wf_def intro!: append_bounded_wf [unfolded pes_wf_def] split: option.splits)
qed

lemma update_stream_wf:
  assumes "demux_wf d" and "\<And>s. pes_wf (si_pes s) \<Longrightarrow> pes_wf (si_pes (f s))" and "\<And>s. ident (f s) = ident s"
  shows "demux_wf (update_stream i f d)"
proof -
  have "map ident ((dx_streams d)[i := f (dx_streams d ! i)]) = map ident (dx_streams d)" if "i < length (dx_streams d)"
    using that assms(3) by (simp add: map_update) (metis list_update_id nth_map)
  moreover have "list_all (\<lambda>s. pes_wf (si_pes s)) ((dx_streams d)[i := f (dx_streams d ! i)])" if "i < length (dx_streams d)"
    using that assms(1,2) by (auto simp: demux_wf_def list_all_length nth_list_update)
  ultimately show ?thesis using assms(1)
    by (auto simp: update_stream_def demux_wf_def list_get_def)
qed

lemma update_pes_wf: "demux_wf d \<Longrightarrow> (\<And>pes. pes_wf pes \<Longrightarrow> pes_wf (f pes)) \<Longrightarrow> demux_wf (update_pes i f d)"
  unfolding update_pes_def by (rule update_stream_wf) (auto simp: ident_def)

lemma publish_probe_wf: "demux_wf d \<Longrightarrow> demux_wf (publish_probe d)"
  by (auto simp: demux_wf_def publish_probe_def split: prod.splits)

lemma demux_wf_probes:
  "demux_wf d \<Longrightarrow> length ps \<le> length (dx_streams d) \<Longrightarrow> demux_wf (d\<lparr>dx_stream_probes := ps\<rparr>)"
  "demux_wf (d\<lparr>dx_probed := b\<rparr>) \<longleftrightarrow> demux_wf d"
  "demux_wf (d\<lparr>dx_stream_probes := ps, dx_probed := b\<rparr>) \<longleftrightarrow> demux_wf (d\<lparr>dx_stream_probes := ps\<rparr>)"
  by (simp_all add: demux_wf_def)

lemma try_build_probe_wf:
  assumes "demux_wf d"
  shows "demux_wf (try_build_probe find_iter i data d)"
proof -
  have "length (dx_stream_probes d) \<le> length (dx_streams d)" using assms by (simp add: demux_wf_def)
  with assms show ?thesis
    unfolding try_build_probe_def Let_def
    by (auto simp: demux_wf_probes(3) intro!: publish_probe_wf demux_wf_probes(1) split: option.splits)
qed

lemma emit_packet_wf: "demux_wf d \<Longrightarrow> packet_wf p \<Longrightarrow> demux_wf (emit_packet find_iter i p d)"
  using try_build_probe_wf [of d find_iter i "payload p"]
  by (auto simp: emit_packet_def Let_def demux_wf_def)

lemma flush_pes_wf:
  assumes wf: "demux_wf d"
  shows "demux_wf (flush_pes find_iter i d)"
proof (cases "list_get (dx_streams d) i")
  case None
  with wf show ?thesis by (simp add: flush_pes_def)
next
  case (Some s)
  then have i: "i < length (dx_streams d)" "dx_streams d ! i = s" by (simp_all add: slice_simps)
  with wf have pes: "pes_wf (si_pes s)" by (auto simp: demux_wf_def list_all_length)
  let ?d = "update_pes i pes_reset d"
  have d: "demux_wf ?d" by (rule update_pes_wf [OF wf pes_reset_wf])
  have unit: "packet_wf (pes_packet find_iter s data u)" if "u \<noteq> []" "length u \<le> length (pes_buf (si_pes s))" for u data
    using that pes by (cases "si_kind s") (auto simp: packet_wf_def pes_packet_def pes_is_keyframe_def pes_wf_def)
  consider "pes_buf (si_pes s) = [] \<or> \<not> (pes_has_timestamp (si_pes s) \<or> si_kind s = Kind_AacAdts)"
    | "pes_buf (si_pes s) \<noteq> []" "si_kind s \<noteq> Kind_AacAdts" "pes_has_timestamp (si_pes s)"
    | "pes_buf (si_pes s) \<noteq> []" "si_kind s = Kind_AacAdts" by blast
  then show ?thesis
  proof cases
    case 1
    with Some d show ?thesis by (simp add: flush_pes_def Let_def)
  next
    case 2
    with Some d unit show ?thesis by (simp add: flush_pes_def Let_def emit_packet_wf)
  next
    case 3
    let ?ts = "if pes_has_timestamp (si_pes s) then Some (pes_pts (si_pes s), pes_dts (si_pes s)) else None"
    obtain r st' out' where f: "frame_pes (si_track_index s) ?ts (pes_buf (si_pes s)) (pes_adts (si_pes s)) (dx_output ?d) = (r, st', out')"
      by (metis prod_cases3)
    have adts: "adts_wf (pes_adts (si_pes s))" using pes by (simp add: pes_wf_def)
    note fw = frame_pes_wf [OF f adts]
    let ?e = "(update_pes i (\<lambda>pes. pes\<lparr>pes_adts := st'\<rparr>) ?d)\<lparr>dx_output := out'\<rparr>"
    have "demux_wf (update_pes i (\<lambda>pes. pes\<lparr>pes_adts := st'\<rparr>) ?d)"
      by (rule update_pes_wf [OF d]) (use fw in \<open>simp add: pes_wf_def\<close>)
    moreover have "list_all packet_wf out'" using fw d by (auto simp: demux_wf_def list_all_iff)
    ultimately have e: "demux_wf ?e" by (simp add: demux_wf_def)
    have "flush_pes find_iter i d = (case r of
        Frames first \<Rightarrow> (case first of Some unit \<Rightarrow> if \<not> dx_probed ?e then try_build_probe find_iter i unit ?e else ?e | None \<Rightarrow> ?e)
      | Whole unit \<Rightarrow> if pes_has_timestamp (si_pes s)
          then emit_packet find_iter i (pes_packet find_iter s (pes_buf (si_pes s)) unit) ?e else ?e)"
      using Some 3 f by (simp add: flush_pes_def Let_def)
    with e fw unit show ?thesis
      by (auto intro!: try_build_probe_wf emit_packet_wf split: framed.splits option.splits)
  qed
qed

lemma flush_completed_pes_wf: "demux_wf d \<Longrightarrow> demux_wf (flush_completed_pes find_iter i d)"
  by (auto simp: flush_completed_pes_def pes_wf_def intro!: flush_pes_wf update_pes_wf split: option.splits)

lemma process_stream_wf: "demux_wf d \<Longrightarrow> demux_wf (process_stream find_iter i cc pusi ra data d)"
proof -
  assume "demux_wf d"
  then have "demux_wf (update_stream i (\<lambda>s. s\<lparr>si_continuity := cc\<rparr>) d)" by (rule update_stream_wf) (simp_all add: ident_def)
  then show ?thesis using \<open>demux_wf d\<close>
    by (auto simp: process_stream_def Let_def intro!: flush_completed_pes_wf update_pes_wf flush_pes_wf start_pes_wf append_bounded_wf
        split: option.splits)
qed

subsection \<open>Program maps\<close>

definition tracks_of :: "media_type \<Rightarrow> stream_info list \<Rightarrow> nat list" where
  "tracks_of mt ss = map si_track_index (filter (\<lambda>s. kind_media_type (si_kind s) = mt) ss)"

lemma tracks_wf_tracks_of:
  "tracks_wf (map ident ss) \<longleftrightarrow> tracks_of Audio ss = [0..<length (tracks_of Audio ss)] \<and> tracks_of Video ss \<in> {[], [0]}"
  by (simp add: tracks_wf_def Let_def tracks_of_def filter_map comp_def ident_def)

definition scan_wf :: "pmt_scan \<Rightarrow> bool" where
  "scan_wf sc \<longleftrightarrow>
     list_all (\<lambda>s. pes_wf (si_pes s)) (ps_streams sc) \<and> length (ps_probes sc) = length (ps_streams sc) \<and>
     list_all (\<lambda>(_, s, _). pes_wf (si_pes s)) (ps_old sc) \<and>
     tracks_of Audio (ps_streams sc) = [0..<ps_audio_track_counter sc] \<and>
     tracks_of Video (ps_streams sc) = (if ps_has_video sc then [0] else []) \<and>
     resolves (ps_pid_to_stream sc) (map ident (ps_streams sc))"

lemma resolves_snoc:
  assumes "resolves table ids"
  shows "resolves table (ids @ [x])" and "resolves (table(unat (fst x) := length ids)) (ids @ [x])"
  using assms by (auto simp: resolves_def nth_append)

lemma PesAccumulator_new_wf: "pes_wf PesAccumulator_new"
  by (simp add: pes_wf_def PesAccumulator_new_def timestamp_wf_def adts_wf_def AdtsFraming_default_def MAX_ADTS_FRAME_def)

lemma scan_add_stream_fields:
  assumes "list_all (\<lambda>(_, s, _). pes_wf (si_pes s)) (ps_old sc)"
  obtains s probe where "ident s = (pid, kind_media_type kind, track)" "pes_wf (si_pes s)" "si_kind s = kind"
    "ps_streams (scan_add_stream kind pid track language sc) = ps_streams sc @ [s]"
    "ps_probes (scan_add_stream kind pid track language sc) = ps_probes sc @ [probe]"
    "ps_old (scan_add_stream kind pid track language sc) = AList.delete pid (ps_old sc)"
    "ps_audio_track_counter (scan_add_stream kind pid track language sc) = ps_audio_track_counter sc"
    "ps_has_video (scan_add_stream kind pid track language sc) = ps_has_video sc"
    "ps_pid_to_stream (scan_add_stream kind pid track language sc) \<in>
       {ps_pid_to_stream sc, (ps_pid_to_stream sc)(unat pid := length (ps_streams sc))}"
proof (cases "map_of (ps_old sc) pid")
  case None
  then show ?thesis
    by (intro that [of "last (ps_streams (scan_add_stream kind pid track language sc))" "last (ps_probes (scan_add_stream kind pid track language sc))"])
      (simp_all add: scan_add_stream_def Let_def ident_def PesAccumulator_new_wf)
next
  case (Some op)
  obtain old probe where op: "op = (old, probe)" by (cases op)
  with Some have "(pid, old, probe) \<in> set (ps_old sc)" by (simp add: map_of_SomeD)
  with assms have "pes_wf (si_pes old)" by (auto simp: list_all_iff)
  with Some op show ?thesis
    by (intro that [of "last (ps_streams (scan_add_stream kind pid track language sc))" "last (ps_probes (scan_add_stream kind pid track language sc))"]; cases "si_kind old = kind")
      (simp_all add: scan_add_stream_def Let_def ident_def PesAccumulator_new_wf)
qed

lemma delete_wf: "list_all P al \<Longrightarrow> list_all P (AList.delete k al)"
  by (auto simp: list_all_iff AList.delete_eq)

lemma scan_add_stream_wf:
  assumes wf: "list_all (\<lambda>s. pes_wf (si_pes s)) (ps_streams sc)" "length (ps_probes sc) = length (ps_streams sc)"
      "list_all (\<lambda>(_, s, _). pes_wf (si_pes s)) (ps_old sc)" "resolves (ps_pid_to_stream sc) (map ident (ps_streams sc))"
    and audio: "kind_media_type kind = Audio \<Longrightarrow> tracks_of Audio (ps_streams sc) @ [track] = [0..<ps_audio_track_counter sc] \<and>
      tracks_of Video (ps_streams sc) = (if ps_has_video sc then [0] else [])"
    and video: "kind_media_type kind = Video \<Longrightarrow> tracks_of Audio (ps_streams sc) = [0..<ps_audio_track_counter sc] \<and>
      tracks_of Video (ps_streams sc) = [] \<and> track = 0 \<and> ps_has_video sc"
  shows "scan_wf (scan_add_stream kind pid track language sc)"
proof -
  define sc' where "sc' = scan_add_stream kind pid track language sc"
  obtain s probe where s: "ident s = (pid, kind_media_type kind, track)" "pes_wf (si_pes s)" "si_kind s = kind"
    and f: "ps_streams sc' = ps_streams sc @ [s]"
    "ps_probes sc' = ps_probes sc @ [probe]"
    "ps_old sc' = AList.delete pid (ps_old sc)"
    "ps_audio_track_counter sc' = ps_audio_track_counter sc"
    "ps_has_video sc' = ps_has_video sc"
    and table: "ps_pid_to_stream sc' \<in>
       {ps_pid_to_stream sc, (ps_pid_to_stream sc)(unat pid := length (ps_streams sc))}"
    unfolding sc'_def by (rule scan_add_stream_fields [OF wf(3)])
  have "resolves (ps_pid_to_stream sc') (map ident (ps_streams sc @ [s]))"
    using table resolves_snoc [OF wf(4), of "ident s"] s(1) by auto
  moreover have "tracks_of mt (ps_streams sc @ [s]) = tracks_of mt (ps_streams sc) @ (if kind_media_type kind = mt then [track] else [])" for mt
    using s(1,3) by (auto simp: tracks_of_def ident_def)
  moreover have "list_all (\<lambda>(_, s, _). pes_wf (si_pes s)) (AList.delete pid (ps_old sc))" by (rule delete_wf [OF wf(3)])
  ultimately show ?thesis using wf s(2) audio video unfolding sc'_def [symmetric]
    by (cases "kind_media_type kind") (simp_all add: scan_wf_def f)
qed

lemma scan_entry_wf:
  assumes "scan_wf sc" and "ps_audio_track_counter sc < u32_MAX"
  shows "scan_wf (scan_entry st pid ds sc) \<and> ps_audio_track_counter (scan_entry st pid ds sc) \<le> ps_audio_track_counter sc + 1"
proof (cases "from_stream_type st")
  case None
  with assms show ?thesis by (simp add: scan_entry_def)
next
  case (Some kind)
  have counter: "ps_audio_track_counter (scan_add_stream kind pid track language e) = ps_audio_track_counter e"
    if "list_all (\<lambda>(_, s, _). pes_wf (si_pes s)) (ps_old e)" for track language e
    using scan_add_stream_fields [OF that] by metis
  show ?thesis
  proof (cases "kind_media_type kind")
    case Video
    let ?e = "sc\<lparr>ps_video_track_count := saturating_add usize_MAX (ps_video_track_count sc) 1\<rparr>"
    have "scan_wf ?e" using assms(1) by (simp add: scan_wf_def)
    moreover have "scan_wf (scan_add_stream kind pid 0 language (?e\<lparr>ps_has_video := True\<rparr>))" if "\<not> ps_has_video sc" for language
      by (rule scan_add_stream_wf) (use assms(1) that Video in \<open>auto simp: scan_wf_def\<close>)
    ultimately show ?thesis using Some Video assms counter [of "?e\<lparr>ps_has_video := True\<rparr>"]
      by (simp add: scan_entry_def Let_def scan_wf_def)
  next
    case Audio
    let ?e = "sc\<lparr>ps_audio_track_counter := saturating_add u32_MAX (ps_audio_track_counter sc) 1\<rparr>"
    have next_track: "saturating_add u32_MAX (ps_audio_track_counter sc) 1 = ps_audio_track_counter sc + 1"
      using assms(2) by (simp add: saturating_add_def)
    have "scan_wf (scan_add_stream kind pid (ps_audio_track_counter sc) language ?e)" for language
      by (rule scan_add_stream_wf) (use assms(1) Audio in \<open>auto simp: scan_wf_def next_track [simplified]\<close>)
    then show ?thesis using Some Audio assms counter [of ?e] by (simp add: scan_entry_def Let_def next_track [simplified] scan_wf_def)
  qed
qed

lemma scan_entries_wf:
  "scan_wf sc \<Longrightarrow> ps_audio_track_counter sc + length bs \<le> u32_MAX \<Longrightarrow> scan_wf (scan_entries bs sc)"
proof (induction bs sc rule: scan_entries.induct)
  case (1 stream_type ph pl ih il tail sc)
  let ?sc = "scan_entry stream_type (pid_13 ph pl) (take (length_12 ih il) tail) sc"
  have "scan_wf ?sc \<and> ps_audio_track_counter ?sc \<le> ps_audio_track_counter sc + 1"
    using 1 by (intro scan_entry_wf) auto
  with 1 show ?case by auto
qed auto

lemma update_wf: "list_all P al \<Longrightarrow> P (k, v) \<Longrightarrow> list_all P (AList.update k v al)"
  by (induction al) auto

lemma old_streams_wf:
  assumes "list_all (\<lambda>s. pes_wf (si_pes s)) ss"
  shows "list_all (\<lambda>(_, s, _). pes_wf (si_pes s)) (old_streams ss ps)"
proof -
  have fold: "list_all (\<lambda>(_, s, _). pes_wf (si_pes s)) (fold (\<lambda>(s, p). AList.update (si_pid s) (s, p)) xs al)"
    if "list_all (\<lambda>(s, _). pes_wf (si_pes s)) xs" "list_all (\<lambda>(_, s, _). pes_wf (si_pes s)) al"
    for xs :: "(stream_info \<times> stream_probe option) list" and al
    using that by (induction xs arbitrary: al) (auto intro!: update_wf)
  show ?thesis unfolding old_streams_def
    by (rule fold) (use assms in \<open>auto simp: list_all_iff dest: set_zip_leftD\<close>)
qed

lemma apply_pmt_wf:
  assumes "demux_wf d" and "length entries \<le> 1024"
  shows "demux_wf (apply_pmt entries d)"
proof -
  define sc where "sc = scan_entries entries (scan_start d)"
  have "scan_wf sc" unfolding sc_def
    by (rule scan_entries_wf)
      (use assms in \<open>auto simp: scan_start_def scan_wf_def demux_wf_def old_streams_wf tracks_of_def resolves_def u32_MAX_def\<close>)
  then have sc: "list_all (\<lambda>s. pes_wf (si_pes s)) (ps_streams sc)" "length (ps_probes sc) = length (ps_streams sc)"
    "tracks_wf (map ident (ps_streams sc))" "resolves (ps_pid_to_stream sc) (map ident (ps_streams sc))"
    by (auto simp: scan_wf_def tracks_wf_tracks_of)
  have "list_all packet_wf (filter (keeps_packet c) (dx_output d))" for c
    using assms(1) by (auto simp: demux_wf_def list_all_iff)
  with sc assms(1) show ?thesis
    unfolding apply_pmt_def sc_def [symmetric]
    by (auto simp: install_scan_def discard_changed_def Let_def clear_pmt_buf_def demux_wf_def intro!: publish_probe_wf [unfolded demux_wf_def])
qed

lemma clear_pmt_buf_wf: "demux_wf d \<Longrightarrow> demux_wf (clear_pmt_buf d)"
  by (simp add: demux_wf_def clear_pmt_buf_def)

lemma complete_pmt_wf:
  assumes "demux_wf d"
  shows "demux_wf (complete_pmt d)"
proof -
  have "length (dx_pmt_buf d) \<le> 1024" using assms by (simp add: demux_wf_def)
  then have slice: "length x \<le> 1024" if "slice_get a b (dx_pmt_buf d) = Some x" for a b x
    using that by (auto simp: slice_get_def split: if_splits)
  have "demux_wf (d\<lparr>dx_pmt_version := v, dx_pmt_layout := l\<rparr>)" "demux_wf (d\<lparr>dx_pmt_version := v\<rparr>)" for v l
    using assms by (simp_all add: demux_wf_def)
  then show ?thesis using clear_pmt_buf_wf [OF assms]
    by (auto simp: complete_pmt_def Let_def intro!: apply_pmt_wf clear_pmt_buf_wf split: option.splits prod.splits dest: slice)
qed

lemma collect_pmt_wf:
  assumes "demux_wf d"
  shows "demux_wf (collect_pmt data d)"
proof -
  let ?d = "d\<lparr>dx_pmt_buf := dx_pmt_buf d @ take (min (length data) (dx_pmt_expected d - length (dx_pmt_buf d))) data\<rparr>"
  have "demux_wf ?d" using assms by (auto simp: demux_wf_def)
  then show ?thesis using complete_pmt_wf [of ?d] by (auto simp: collect_pmt_def Let_def)
qed

lemma parse_pmt_wf:
  assumes "demux_wf d"
  shows "demux_wf (parse_pmt data pusi d)"
proof -
  have "demux_wf ((clear_pmt_buf d)\<lparr>dx_pmt_expected := n + 3\<rparr>)" if "n \<le> 1021" for n
    using assms that by (simp add: demux_wf_def clear_pmt_buf_def)
  then show ?thesis using assms clear_pmt_buf_wf [OF assms]
    by (auto simp: parse_pmt_def Let_def intro!: collect_pmt_wf split: option.splits)
qed

lemma parse_pat_wf: "demux_wf d \<Longrightarrow> demux_wf (parse_pat data pusi d)"
  by (auto simp: parse_pat_def Let_def demux_wf_def split: option.splits)

lemma process_ts_packet_wf: "demux_wf d \<Longrightarrow> demux_wf (process_ts_packet find_iter pkt d)"
  by (auto simp: process_ts_packet_def Let_def intro: parse_pat_wf parse_pmt_wf process_stream_wf split: option.splits)

lemma feed_loop_wf:
  "demux_wf d \<Longrightarrow> demux_wf (snd (feed_loop memchr find_iter buf offset d))"
proof (induction memchr find_iter buf offset d rule: feed_loop.induct)
  case (1 memchr find_iter buf offset d)
  then show ?case by (subst feed_loop.simps) (auto simp: Let_def process_ts_packet_wf)
qed

subsection \<open>Every operation\<close>

datatype demux_op = Op_Feed bytes | Op_Flush | Op_Drain | Op_Drain_Into | Op_Take_Probe | Op_Take_Changes

fun demux_apply :: "(u8 \<Rightarrow> bytes \<Rightarrow> nat option) \<Rightarrow> (bytes \<Rightarrow> nat list) \<Rightarrow> demux_op \<Rightarrow> ts_demuxer \<Rightarrow> ts_demuxer" where
  "demux_apply memchr find_iter (Op_Feed data) d = ts_feed memchr find_iter data d"
| "demux_apply memchr find_iter Op_Flush d = ts_flush find_iter d"
| "demux_apply memchr find_iter Op_Drain d = snd (ts_drain d)"
| "demux_apply memchr find_iter Op_Drain_Into d = snd (snd (ts_drain_into [] d))"
| "demux_apply memchr find_iter Op_Take_Probe d = snd (take_probe d)"
| "demux_apply memchr find_iter Op_Take_Changes d = snd (take_topology_changes d)"

definition demux_inv :: "ts_demuxer \<Rightarrow> bool" where
  "demux_inv d \<longleftrightarrow> demux_wf d \<and> length (dx_remainder d) < TS_PACKET_SIZE"

lemma ts_feed_inv:
  assumes "demux_wf d"
  shows "demux_inv (ts_feed memchr find_iter data d)"
proof -
  have rem: "demux_wf (e\<lparr>dx_remainder := bs\<rparr>) \<longleftrightarrow> demux_wf e" for e bs by (simp add: demux_wf_def)
  define e where "e = (if dx_remainder d = [] then
           (case feed_slice memchr find_iter data d of
              (leftover, d) \<Rightarrow> d\<lparr>dx_remainder := dx_remainder d @ drop leftover data\<rparr>)
         else
           let scratch = dx_remainder d @ data
           in case feed_slice memchr find_iter scratch d of
                (leftover, d) \<Rightarrow> d\<lparr>dx_remainder := drop leftover scratch\<rparr>)"
  have "demux_wf e" unfolding e_def
    using feed_loop_wf [OF assms, of memchr find_iter] rem
    by (auto simp: feed_slice_def Let_def split: prod.splits) (metis snd_conv)+
  moreover have "ts_feed memchr find_iter data d = (case checked_sub (length (dx_remainder e)) MAX_REMAINDER of
           None \<Rightarrow> e | Some excess \<Rightarrow> e\<lparr>dx_remainder := drop excess (dx_remainder e)\<rparr>)"
    unfolding ts_feed_def e_def [symmetric] by (simp only: Let_def)
  ultimately show ?thesis
    by (auto simp: demux_inv_def rem checked_sub_def MAX_REMAINDER_def TS_PACKET_SIZE_def split: option.splits if_splits)
qed

lemma ts_flush_inv: "demux_inv d \<Longrightarrow> demux_inv (ts_flush find_iter d)"
proof -
  assume "demux_inv d"
  have "demux_inv (fold (flush_pes find_iter) is d)" if "demux_inv d" for "is" d
    using that
  proof (induction "is" arbitrary: d)
    case (Cons i "is")
    have "dx_remainder (flush_pes find_iter i d) = dx_remainder d"
      using tables_flush_pes [of find_iter i d] by (simp add: tables_def)
    with Cons show ?case by (simp add: demux_inv_def flush_pes_wf)
  qed simp
  then show ?thesis using \<open>demux_inv d\<close> by (simp add: ts_flush_def)
qed

lemma demux_inv_take:
  assumes "demux_inv d"
  shows "demux_inv (snd (ts_drain d))" "demux_inv (snd (snd (ts_drain_into out d)))"
    "demux_inv (snd (take_probe d))" "demux_inv (snd (take_topology_changes d))"
  using assms by (simp_all add: demux_inv_def demux_wf_def ts_drain_def ts_drain_into_def take_probe_def take_topology_changes_def)

lemma demux_apply_inv: "demux_inv d \<Longrightarrow> demux_inv (demux_apply memchr find_iter op d)"
  by (cases op) (simp_all add: ts_feed_inv [OF demux_inv_def [THEN iffD1, THEN conjunct1]] ts_flush_inv demux_inv_take)

interpretation demuxer: inductive_invariant "\<lambda>d. d = TsDemuxer_new" "\<lambda>d e. \<exists>op. e = demux_apply memchr find_iter op d" demux_inv
  for memchr find_iter
proof
  show "demux_inv d" if "d = TsDemuxer_new" for d
    using that by (simp add: demux_inv_def demux_wf_def TsDemuxer_new_def tracks_wf_def resolves_def TS_PACKET_SIZE_def)
qed (auto intro: demux_apply_inv)

text \<open>
  C35. Whatever bytes are fed, in whatever chunks and interleaved with whatever other operations, the
  demuxer stays well formed: less than a packet of unsynchronised input is kept, at most 1024 bytes
  of a program map, and per stream a bounded PES packet, less than one carried AAC frame and times
  of 33 bits; every PID resolves to a stream of that PID or to none; there is at most one video
  stream, of track 0, and audio tracks are numbered from 0 in order; and every emitted packet is
  raw, not empty, bounded and, when audio, not a keyframe.
\<close>

theorem demuxer_well_formed:
  assumes "reachable (\<lambda>d. d = TsDemuxer_new) (\<lambda>d e. \<exists>op. e = demux_apply memchr find_iter op d) d"
  shows "length (dx_remainder d) < TS_PACKET_SIZE \<and> length (dx_pmt_buf d) \<le> 1024 \<and>
    (\<forall>s \<in> set (dx_streams d). length (pes_buf (si_pes s)) \<le> MAX_PES_BUFFER \<and>
       length (af_carry (pes_adts (si_pes s))) < MAX_ADTS_FRAME \<and>
       0 \<le> pes_pts (si_pes s) \<and> pes_pts (si_pes s) < 2 ^ 33 \<and> 0 \<le> pes_dts (si_pes s) \<and> pes_dts (si_pes s) < 2 ^ 33) \<and>
    (\<forall>pid. dx_pid_to_stream d pid = NO_STREAM \<or> dx_pid_to_stream d pid < length (dx_streams d) \<and>
       unat (si_pid (dx_streams d ! dx_pid_to_stream d pid)) = pid) \<and>
    tracks_of Audio (dx_streams d) = [0..<length (tracks_of Audio (dx_streams d))] \<and> tracks_of Video (dx_streams d) \<in> {[], [0]} \<and>
    (\<forall>p \<in> set (dx_output d). format p = Raw \<and> payload p \<noteq> [] \<and> length (payload p) \<le> MAX_PES_BUFFER \<and>
       (media_type p = Audio \<longrightarrow> \<not> is_keyframe p))"
proof -
  have inv: "demux_inv d" by (rule demuxer.reachable_inv [OF assms])
  have "dx_pid_to_stream d pid < length (dx_streams d) \<and> unat (si_pid (dx_streams d ! dx_pid_to_stream d pid)) = pid"
    if "dx_pid_to_stream d pid \<noteq> NO_STREAM" for pid
    using inv that by (auto simp: demux_inv_def demux_wf_def resolves_def ident_def)
  moreover have "tracks_wf (map ident (dx_streams d))" using inv by (simp add: demux_inv_def demux_wf_def)
  then have "tracks_of Audio (dx_streams d) = [0..<length (tracks_of Audio (dx_streams d))]" "tracks_of Video (dx_streams d) \<in> {[], [0]}"
    by (simp_all only: tracks_wf_tracks_of)
  ultimately show ?thesis using inv
    by (auto simp: demux_inv_def demux_wf_def list_all_iff pes_wf_def timestamp_wf_def adts_wf_def packet_wf_def)
qed

theorem demuxer_well_formed_witness:
  "length (dx_remainder (ts_feed (\<lambda>b bs. None) (scan_start_codes 0) [0x47, 0, 1] TsDemuxer_new)) < TS_PACKET_SIZE"
proof -
  let ?step = "\<lambda>d e. \<exists>op. e = demux_apply (\<lambda>b bs. None) (scan_start_codes 0) op d"
  have "reachable (\<lambda>d. d = TsDemuxer_new) ?step (ts_feed (\<lambda>b bs. None) (scan_start_codes 0) [0x47, 0, 1] TsDemuxer_new)"
  proof (rule reachable_step)
    show "reachable (\<lambda>d. d = TsDemuxer_new) ?step TsDemuxer_new" by (rule reachable_init) (rule refl)
    show "?step TsDemuxer_new (ts_feed (\<lambda>b bs. None) (scan_start_codes 0) [0x47, 0, 1] TsDemuxer_new)"
      by (rule exI [of _ "Op_Feed [0x47, 0, 1]"]) simp
  qed
  from demuxer_well_formed [OF this] show ?thesis by blast
qed

end
