(* ===== verification/Ts_Feed.thy ===== *)
theory Ts_Feed
  imports Ts_Demux_Wf
begin

text \<open>
  Feeding the demuxer (\<open>TsDemuxer::feed\<close> of \<open>crates/restream-mpegts/src/demux.rs\<close>): on a stream of
  whole transport packets the chunks it arrives in do not matter. The bytes kept between two feeds
  are the only state the chunking touches, and no packet handler reads them.
\<close>

subsection \<open>Packet handlers do not see the kept bytes\<close>

named_theorems remainder_frame

lemma update_stream_remainder [remainder_frame]:
  "update_stream i f (d\<lparr>dx_remainder := r\<rparr>) = (update_stream i f d)\<lparr>dx_remainder := r\<rparr>"
  by (simp add: update_stream_def split: option.splits)

lemma update_pes_remainder [remainder_frame]:
  "update_pes i f (d\<lparr>dx_remainder := r\<rparr>) = (update_pes i f d)\<lparr>dx_remainder := r\<rparr>"
  by (simp add: update_pes_def remainder_frame)

lemma publish_probe_remainder [remainder_frame]:
  "publish_probe (d\<lparr>dx_remainder := r\<rparr>) = (publish_probe d)\<lparr>dx_remainder := r\<rparr>"
  by (simp add: publish_probe_def split: prod.splits)

lemma try_build_probe_remainder [remainder_frame]:
  "try_build_probe find_iter i data (d\<lparr>dx_remainder := r\<rparr>) = (try_build_probe find_iter i data d)\<lparr>dx_remainder := r\<rparr>"
proof -
  have "publish_probe (d\<lparr>dx_remainder := r, dx_stream_probes := ps, dx_probed := True\<rparr>) =
      (publish_probe (d\<lparr>dx_stream_probes := ps, dx_probed := True\<rparr>))\<lparr>dx_remainder := r\<rparr>" for ps
    using publish_probe_remainder [of r "d\<lparr>dx_stream_probes := ps, dx_probed := True\<rparr>"] by (cases d) simp
  then show ?thesis by (simp add: try_build_probe_def Let_def split: option.splits)
qed

lemma emit_packet_remainder [remainder_frame]:
  "emit_packet find_iter i p (d\<lparr>dx_remainder := r\<rparr>) = (emit_packet find_iter i p d)\<lparr>dx_remainder := r\<rparr>"
  by (simp add: emit_packet_def Let_def remainder_frame)

lemma flush_pes_remainder [remainder_frame]:
  "flush_pes find_iter i (d\<lparr>dx_remainder := r\<rparr>) = (flush_pes find_iter i d)\<lparr>dx_remainder := r\<rparr>"
proof -
  have out: "d\<lparr>dx_remainder := r, dx_output := out\<rparr> = (d\<lparr>dx_output := out\<rparr>)\<lparr>dx_remainder := r\<rparr>" for d :: ts_demuxer and out by simp
  show ?thesis
    by (simp add: flush_pes_def Let_def update_pes_remainder out try_build_probe_remainder emit_packet_remainder
        split: option.splits prod.splits framed.splits del: ts_demuxer.update_convs)
qed

lemma flush_completed_pes_remainder [remainder_frame]:
  "flush_completed_pes find_iter i (d\<lparr>dx_remainder := r\<rparr>) = (flush_completed_pes find_iter i d)\<lparr>dx_remainder := r\<rparr>"
  by (simp add: flush_completed_pes_def remainder_frame split: option.splits)

lemma process_stream_remainder [remainder_frame]:
  "process_stream find_iter i cc pusi ra data (d\<lparr>dx_remainder := r\<rparr>) =
     (process_stream find_iter i cc pusi ra data d)\<lparr>dx_remainder := r\<rparr>"
  by (simp add: process_stream_def Let_def remainder_frame split: option.splits)

lemma parse_pat_remainder [remainder_frame]:
  "parse_pat data pusi (d\<lparr>dx_remainder := r\<rparr>) = (parse_pat data pusi d)\<lparr>dx_remainder := r\<rparr>"
  by (simp add: parse_pat_def Let_def split: option.splits prod.splits)

lemma apply_pmt_remainder [remainder_frame]:
  "apply_pmt entries (d\<lparr>dx_remainder := r\<rparr>) = (apply_pmt entries d)\<lparr>dx_remainder := r\<rparr>"
proof -
  have discard: "discard_changed c (e\<lparr>dx_remainder := r\<rparr>) = (discard_changed c e)\<lparr>dx_remainder := r\<rparr>" for c e
    by (simp add: discard_changed_def)
  have clear: "clear_pmt_buf (e\<lparr>dx_remainder := r, dx_probed := b\<rparr>) = (clear_pmt_buf (e\<lparr>dx_probed := b\<rparr>))\<lparr>dx_remainder := r\<rparr>" for e b
    by (simp add: clear_pmt_buf_def)
  have sel: "dx_probed (clear_pmt_buf e) = dx_probed e" "dx_initial_probe_done (clear_pmt_buf e) = dx_initial_probe_done e" for e
    by (simp_all add: clear_pmt_buf_def)
  have "install_scan sc (d\<lparr>dx_remainder := r\<rparr>) = (install_scan sc d)\<lparr>dx_remainder := r\<rparr>" for sc
  proof -
    let ?new = "\<lambda>d. d\<lparr>dx_streams := ps_streams sc, dx_stream_probes := ps_probes sc,
                dx_pid_to_stream := ps_pid_to_stream sc, dx_audio_track_counter := ps_audio_track_counter sc,
                dx_video_track_count := ps_video_track_count sc\<rparr>"
    define e where "e = ?new d"
    have new: "?new (d\<lparr>dx_remainder := r\<rparr>) = e\<lparr>dx_remainder := r\<rparr>" by (simp add: e_def)
    show ?thesis unfolding install_scan_def Let_def unfolding new e_def [symmetric]
      by (auto simp: discard clear sel publish_probe_remainder)
  qed
  moreover have "scan_start (d\<lparr>dx_remainder := r\<rparr>) = scan_start d" by (simp add: scan_start_def)
  ultimately show ?thesis by (simp add: apply_pmt_def)
qed

lemma complete_pmt_remainder [remainder_frame]:
  "complete_pmt (d\<lparr>dx_remainder := r\<rparr>) = (complete_pmt d)\<lparr>dx_remainder := r\<rparr>"
proof -
  have "apply_pmt entries (d\<lparr>dx_remainder := r, dx_pmt_version := v, dx_pmt_layout := l\<rparr>) =
      (apply_pmt entries (d\<lparr>dx_pmt_version := v, dx_pmt_layout := l\<rparr>))\<lparr>dx_remainder := r\<rparr>" for entries v l
    using apply_pmt_remainder [of entries r "d\<lparr>dx_pmt_version := v, dx_pmt_layout := l\<rparr>"] by (cases d) simp
  then show ?thesis by (simp add: complete_pmt_def Let_def clear_pmt_buf_def split: option.splits prod.splits)
qed

lemma collect_pmt_remainder [remainder_frame]:
  "collect_pmt data (d\<lparr>dx_remainder := r\<rparr>) = (collect_pmt data d)\<lparr>dx_remainder := r\<rparr>"
proof -
  have "complete_pmt (d\<lparr>dx_remainder := r, dx_pmt_buf := buf\<rparr>) = (complete_pmt (d\<lparr>dx_pmt_buf := buf\<rparr>))\<lparr>dx_remainder := r\<rparr>" for buf
    using complete_pmt_remainder [of r "d\<lparr>dx_pmt_buf := buf\<rparr>"] by (cases d) simp
  then show ?thesis by (simp add: collect_pmt_def Let_def)
qed

lemma parse_pmt_remainder [remainder_frame]:
  "parse_pmt data pusi (d\<lparr>dx_remainder := r\<rparr>) = (parse_pmt data pusi d)\<lparr>dx_remainder := r\<rparr>"
proof -
  have "collect_pmt data (d\<lparr>dx_remainder := r, dx_pmt_buf := buf, dx_pmt_expected := n\<rparr>) =
      (collect_pmt data (d\<lparr>dx_pmt_buf := buf, dx_pmt_expected := n\<rparr>))\<lparr>dx_remainder := r\<rparr>" for data buf n
    using collect_pmt_remainder [of data r "d\<lparr>dx_pmt_buf := buf, dx_pmt_expected := n\<rparr>"] by (cases d) simp
  then show ?thesis
    by (simp add: parse_pmt_def Let_def clear_pmt_buf_def remainder_frame split: option.splits prod.splits)
qed

lemma process_ts_packet_remainder:
  "process_ts_packet find_iter pkt (d\<lparr>dx_remainder := r\<rparr>) = (process_ts_packet find_iter pkt d)\<lparr>dx_remainder := r\<rparr>"
  by (simp add: process_ts_packet_def Let_def remainder_frame split: option.splits prod.splits)

lemma fold_process_remainder:
  "fold (process_ts_packet find_iter) ps (d\<lparr>dx_remainder := r\<rparr>) = (fold (process_ts_packet find_iter) ps d)\<lparr>dx_remainder := r\<rparr>"
  by (induction ps arbitrary: d) (simp_all add: process_ts_packet_remainder)

lemma fold_process_keeps_remainder: "dx_remainder (fold (process_ts_packet find_iter) ps d) = dx_remainder d"
  using arg_cong [OF fold_process_remainder [of find_iter ps "dx_remainder d" d], of dx_remainder] by simp

subsection \<open>Synchronisation on whole packets\<close>

text \<open>What \<open>memchr\<close> documents: the first position of the byte.\<close>

definition finds_byte :: "(u8 \<Rightarrow> bytes \<Rightarrow> nat option) \<Rightarrow> bool" where
  "finds_byte memchr \<longleftrightarrow>
     (\<forall>b bs. case memchr b bs of
        None \<Rightarrow> b \<notin> set bs
      | Some i \<Rightarrow> i < length bs \<and> bs ! i = b \<and> b \<notin> set (take i bs))"

definition ts_packet :: "bytes \<Rightarrow> bool" where
  "ts_packet p \<longleftrightarrow> length p = TS_PACKET_SIZE \<and> p ! 0 = TS_SYNC_BYTE"

lemma ts_packet_boundary:
  assumes "list_all ts_packet ps" and "TS_PACKET_SIZE * k < length (concat ps)"
  shows "concat ps ! (TS_PACKET_SIZE * k) = TS_SYNC_BYTE"
  using assms
proof (induction ps arbitrary: k)
  case (Cons p ps)
  show ?case
  proof (cases k)
    case (Suc j)
    with Cons show ?thesis by (simp add: ts_packet_def nth_append)
  qed (use Cons in \<open>simp add: ts_packet_def nth_append TS_PACKET_SIZE_def\<close>)
qed simp

lemma find_ts_sync_aligned:
  assumes "list_all ts_packet ps" and "buf @ tail = concat ps" and "finds_byte memchr"
  shows "find_ts_sync memchr buf = 0"
proof (cases "buf = []")
  case True
  have "memchr TS_SYNC_BYTE [] = None"
    using assms(3) by (auto simp: finds_byte_def split: option.splits dest!: spec [of _ TS_SYNC_BYTE] spec [of _ "[]"])
  with True show ?thesis
    by (simp add: find_ts_sync_def ts_sync_candidate_is_valid_def list_get_def sync_search.simps slice_from_def)
next
  case False
  have at: "list_get buf (TS_PACKET_SIZE * k) = Some TS_SYNC_BYTE" if "TS_PACKET_SIZE * k < length buf" for k
    using ts_packet_boundary [OF assms(1), of k] that unfolding assms(2) [symmetric] by (simp add: list_get_def nth_append)
  have "ts_sync_candidate_is_valid buf 0"
    using at [of 0] at [of 1] at [of 2] False by (force simp: ts_sync_candidate_is_valid_def Let_def mult_2 mult_2_right)
  then show ?thesis by (simp add: find_ts_sync_def)
qed

lemma feed_loop_aligned:
  assumes "list_all ts_packet ps" and "drop offset buf @ tail = concat ps"
  shows "feed_loop memchr find_iter buf offset d =
    (let k = (length buf - offset) div TS_PACKET_SIZE
     in (offset + TS_PACKET_SIZE * k, fold (process_ts_packet find_iter) (take k ps) d))"
  using assms
proof (induction ps arbitrary: offset d)
  case Nil
  then show ?case by (simp add: feed_loop.simps [of memchr find_iter buf] TS_PACKET_SIZE_def)
next
  case (Cons p ps)
  have p: "length p = TS_PACKET_SIZE" "p ! 0 = TS_SYNC_BYTE" using Cons.prems by (simp_all add: ts_packet_def)
  show ?case
  proof (cases "offset + TS_PACKET_SIZE \<le> length buf")
    case True
    have split: "drop offset buf @ tail = p @ concat ps" using Cons.prems by simp
    have "take TS_PACKET_SIZE (drop offset buf @ tail) = p" "drop TS_PACKET_SIZE (drop offset buf @ tail) = concat ps"
      using p(1) by (simp_all only: split) simp_all
    then have "take TS_PACKET_SIZE (drop offset buf) = p" "drop (offset + TS_PACKET_SIZE) buf @ tail = concat ps"
      using True by (simp_all add: add.commute)
    moreover from this have "feed_loop memchr find_iter buf offset d =
        feed_loop memchr find_iter buf (offset + TS_PACKET_SIZE) (process_ts_packet find_iter p d)"
      using True p by (simp add: feed_loop.simps [of memchr find_iter buf offset])
    moreover have "(length buf - offset) div TS_PACKET_SIZE = Suc ((length buf - (offset + TS_PACKET_SIZE)) div TS_PACKET_SIZE)"
      using True by (simp add: le_div_geq TS_PACKET_SIZE_def)
    ultimately show ?thesis using Cons.IH [of "offset + TS_PACKET_SIZE" "process_ts_packet find_iter p d"] Cons.prems
      by (simp add: Let_def)
  next
    case False
    then have "(length buf - offset) div TS_PACKET_SIZE = 0" by (simp add: TS_PACKET_SIZE_def)
    with False show ?thesis by (simp add: feed_loop.simps [of memchr find_iter buf offset])
  qed
qed

lemma ts_feed_aligned:
  assumes "list_all ts_packet ps" and "(dx_remainder d @ data) @ tail = concat ps" and "finds_byte memchr"
  shows "ts_feed memchr find_iter data d =
    (let buf = dx_remainder d @ data; k = length buf div TS_PACKET_SIZE
     in (fold (process_ts_packet find_iter) (take k ps) d)\<lparr>dx_remainder := drop (TS_PACKET_SIZE * k) buf\<rparr>)"
proof -
  define buf k where "buf = dx_remainder d @ data" and "k = length buf div TS_PACKET_SIZE"
  have slice: "feed_slice memchr find_iter buf d = (TS_PACKET_SIZE * k, fold (process_ts_packet find_iter) (take k ps) d)"
    using feed_loop_aligned [of ps 0 buf tail memchr find_iter d] find_ts_sync_aligned [of ps buf tail memchr] assms
    by (simp add: feed_slice_def buf_def k_def Let_def)
  define e where "e = (fold (process_ts_packet find_iter) (take k ps) d)\<lparr>dx_remainder := drop (TS_PACKET_SIZE * k) buf\<rparr>"
  have "(if dx_remainder d = [] then
           (case feed_slice memchr find_iter data d of
              (leftover, d) \<Rightarrow> d\<lparr>dx_remainder := dx_remainder d @ drop leftover data\<rparr>)
         else
           let scratch = dx_remainder d @ data
           in case feed_slice memchr find_iter scratch d of
                (leftover, d) \<Rightarrow> d\<lparr>dx_remainder := drop leftover scratch\<rparr>) = e"
    using slice by (auto simp: e_def buf_def fold_process_keeps_remainder)
  moreover have "length (dx_remainder e) \<le> MAX_REMAINDER"
    by (simp add: e_def k_def minus_mult_div_eq_mod TS_PACKET_SIZE_def MAX_REMAINDER_def less_Suc_eq_le [symmetric])
  then have "(case checked_sub (length (dx_remainder e)) MAX_REMAINDER of
      None \<Rightarrow> e | Some excess \<Rightarrow> e\<lparr>dx_remainder := drop excess (dx_remainder e)\<rparr>) = e"
    by (auto simp: checked_sub_def)
  ultimately show ?thesis by (simp only: ts_feed_def Let_def) (simp add: e_def buf_def k_def)
qed

lemma concat_drop_packets: "list_all ts_packet ps \<Longrightarrow> concat (drop n ps) = drop (TS_PACKET_SIZE * n) (concat ps)"
proof (induction ps arbitrary: n)
  case (Cons p ps)
  then show ?case by (cases n) (simp_all add: ts_packet_def)
qed simp

lemma feeds_aligned:
  assumes "list_all ts_packet ps" and "(dx_remainder d @ concat chunks) @ tail = concat ps"
    and "length (dx_remainder d) < TS_PACKET_SIZE" and "finds_byte memchr"
  shows "fold (ts_feed memchr find_iter) chunks d =
    (let buf = dx_remainder d @ concat chunks; k = length buf div TS_PACKET_SIZE
     in (fold (process_ts_packet find_iter) (take k ps) d)\<lparr>dx_remainder := drop (TS_PACKET_SIZE * k) buf\<rparr>)"
  using assms
proof (induction chunks arbitrary: d ps)
  case Nil
  then have "length (dx_remainder d) div TS_PACKET_SIZE = 0" by simp
  then show ?case by simp
next
  case (Cons c chunks)
  define buf k where "buf = dx_remainder d @ c" and "k = length buf div TS_PACKET_SIZE"
  define e where "e = (fold (process_ts_packet find_iter) (take k ps) d)\<lparr>dx_remainder := drop (TS_PACKET_SIZE * k) buf\<rparr>"
  have feed: "ts_feed memchr find_iter c d = e"
    using ts_feed_aligned [of ps d c "concat chunks @ tail" memchr find_iter] Cons.prems
    by (simp add: e_def buf_def k_def Let_def)
  have k: "TS_PACKET_SIZE * k \<le> length buf" "length (drop (TS_PACKET_SIZE * k) buf) < TS_PACKET_SIZE"
    by (simp_all add: k_def minus_mult_div_eq_mod TS_PACKET_SIZE_def)
  have whole: "buf @ concat chunks @ tail = concat ps" using Cons.prems by (simp add: buf_def)
  have "fold (ts_feed memchr find_iter) chunks e =
      (let b = dx_remainder e @ concat chunks; j = length b div TS_PACKET_SIZE
       in (fold (process_ts_packet find_iter) (take j (drop k ps)) e)\<lparr>dx_remainder := drop (TS_PACKET_SIZE * j) b\<rparr>)"
  proof (rule Cons.IH)
    show "(dx_remainder e @ concat chunks) @ tail = concat (drop k ps)"
      using k(1) whole Cons.prems(1) by (simp add: concat_drop_packets e_def whole [symmetric])
  qed (use Cons.prems k in \<open>auto simp: e_def list_all_iff dest: in_set_dropD\<close>)
  moreover define j where "j = length (dx_remainder e @ concat chunks) div TS_PACKET_SIZE"
  ultimately have "fold (ts_feed memchr find_iter) chunks e =
      (fold (process_ts_packet find_iter) (take k ps @ take j (drop k ps)) d)
        \<lparr>dx_remainder := drop (TS_PACKET_SIZE * j) (drop (TS_PACKET_SIZE * k) buf @ concat chunks)\<rparr>"
    by (simp add: e_def fold_process_remainder Let_def)
  moreover have "length (buf @ concat chunks) = TS_PACKET_SIZE * k + length (dx_remainder e @ concat chunks)"
    using k(1) by (simp add: e_def)
  then have "length (buf @ concat chunks) div TS_PACKET_SIZE = k + j"
    by (simp only: j_def) (simp add: TS_PACKET_SIZE_def)
  moreover have "take k ps @ take j (drop k ps) = take (k + j) ps" by (simp add: take_add)
  moreover have "drop (TS_PACKET_SIZE * j) (drop (TS_PACKET_SIZE * k) buf @ concat chunks) =
      drop (TS_PACKET_SIZE * (k + j)) (buf @ concat chunks)"
    using k(1) by (simp add: algebra_simps flip: drop_drop)
  ultimately show ?case by (simp add: feed Let_def buf_def)
qed

lemma feeds_packets:
  assumes "list_all ts_packet ps" and "concat chunks = concat ps" and "dx_remainder d = []" and "finds_byte memchr"
  shows "fold (ts_feed memchr find_iter) chunks d = fold (process_ts_packet find_iter) ps d"
proof -
  have n: "length (concat ps) = TS_PACKET_SIZE * length ps"
    using assms(1) by (induction ps) (simp_all add: ts_packet_def)
  have "fold (process_ts_packet find_iter) ps d = (fold (process_ts_packet find_iter) ps d)\<lparr>dx_remainder := []\<rparr>"
    using fold_process_keeps_remainder [of find_iter ps d] assms(3) by simp
  then show ?thesis
    using feeds_aligned [of ps d chunks "[]" memchr find_iter] assms n by (simp add: Let_def TS_PACKET_SIZE_def)
qed

text \<open>
  C38. Chunks do not matter: a stream of whole transport packets fed in any pieces, from any state
  with no bytes kept, leaves the demuxer exactly as handling the packets one by one does, with
  no bytes kept again.
\<close>

theorem feed_chunk_independent:
  assumes "list_all ts_packet ps" and "concat chunks = concat ps" and "dx_remainder d = []" and "finds_byte memchr"
  shows "fold (ts_feed memchr find_iter) chunks d = fold (process_ts_packet find_iter) ps d"
  by (rule feeds_packets [OF assms])

text \<open>A byte search as \<open>memchr\<close> documents it.\<close>

primrec first_byte :: "u8 \<Rightarrow> bytes \<Rightarrow> nat option" where
  "first_byte b [] = None"
| "first_byte b (x # xs) = (if x = b then Some 0 else map_option Suc (first_byte b xs))"

lemma finds_first_byte: "finds_byte first_byte"
proof -
  have "case first_byte b bs of
      None \<Rightarrow> b \<notin> set bs | Some i \<Rightarrow> i < length bs \<and> bs ! i = b \<and> b \<notin> set (take i bs)" for b bs
    by (induction bs) (auto split: option.splits)
  then show ?thesis by (simp add: finds_byte_def)
qed

theorem feed_chunk_independent_witness:
  "fold (ts_feed first_byte (scan_start_codes 0)) [[0x47], replicate 100 0, [], replicate 87 0] TsDemuxer_new =
     process_ts_packet (scan_start_codes 0) (0x47 # replicate 187 0) TsDemuxer_new"
proof -
  have "concat [[0x47], replicate 100 0, [], replicate 87 0] = concat [0x47 # replicate 187 (0 :: u8)]"
    by (simp flip: replicate_add)
  from feed_chunk_independent [OF _ this _ finds_first_byte, of TsDemuxer_new "scan_start_codes 0"] show ?thesis
    by (simp add: ts_packet_def TS_PACKET_SIZE_def TS_SYNC_BYTE_def TsDemuxer_new_def)
qed

end
