(* ===== verification/Ts_Pes.thy ===== *)
theory Ts_Pes
  imports Ts_Feed
begin

text \<open>
  One stream of the demuxer on its own: what \<open>process_ts_packet\<close> and \<open>flush_pes\<close> of
  \<open>crates/restream-mpegts/src/demux.rs\<close> do to a stream and to the emitted packets, without the
  tables, the probes and the other streams. The lemmas show that the demuxer's handlers act on their
  stream exactly like this and leave the other streams alone.
\<close>

subsection \<open>Output only grows\<close>

lemma frame_loop_out:
  "frame_loop track data start carried offset pes_first expected first st out =
     (case frame_loop track data start carried offset pes_first expected first st [] of
        (r, st', us) \<Rightarrow> (r, st', out @ us))"
proof (induction "length data - offset" arbitrary: offset pes_first expected first out rule: less_induct)
  case less
  let ?rest = "drop offset data"
  let ?go = "\<lambda>len step at. frame_loop track data start carried (offset + len) None (Some (step_times step at))
    (case first of None \<Rightarrow> Some (take len ?rest) | Some f \<Rightarrow> Some f) st"
  have step: "?go len step at (out @ [u]) = (case ?go len step at [u] of (r, st', us) \<Rightarrow> (r, st', out @ us))"
    if "?rest \<noteq> []" "frame_len ?rest = Some len" for len step at u
  proof -
    have "length data - (offset + len) < length data - offset" using that frame_len_ge [OF that(2)] by simp
    from less.hyps [OF this, of None _ _ "out @ [u]"] less.hyps [OF this, of None _ _ "[u]"] show ?thesis
      by (simp split: prod.splits)
  qed
  show ?case
  proof (cases "?rest = [] \<or> (case pes_first of None \<Rightarrow> expected | Some t \<Rightarrow> Some t) = None")
    case True
    then show ?thesis
      unfolding frame_loop.simps [of track data start carried offset pes_first expected first st] Let_def by auto
  next
    case False
    then obtain at where at: "(case pes_first of None \<Rightarrow> expected | Some t \<Rightarrow> Some t) = Some at" and rest: "?rest \<noteq> []" by auto
    show ?thesis
    proof (cases "frame_len ?rest")
      case None
      with rest show ?thesis
        unfolding frame_loop.simps [of track data start carried offset pes_first expected first st] Let_def at by simp
    next
      case (Some len)
      show ?thesis
      proof (cases "step_90k ?rest")
        case None
        with rest Some show ?thesis
          unfolding frame_loop.simps [of track data start carried offset pes_first expected first st] Let_def at by simp
      next
        case step_Some: (Some step)
        from rest Some show ?thesis
          unfolding frame_loop.simps [of track data start carried offset pes_first expected first st] Let_def at step_Some
          by (simp add: step del: append_Nil2)
      qed
    qed
  qed
qed

lemma frame_pes_out:
  "frame_pes track timestamps data st out =
     (case frame_pes track timestamps data st [] of (r, st', us) \<Rightarrow> (r, st', out @ us))"
proof -
  have loop: "frame_loop track data start carried offset pes_first expected first st (out @ us) =
      (case frame_loop track data start carried offset pes_first expected first st us of
        (r, st', us) \<Rightarrow> (r, st', out @ us))" for start carried offset pes_first expected first st us
    using frame_loop_out [of track data start carried offset pes_first expected first st "out @ us"]
      frame_loop_out [of track data start carried offset pes_first expected first st us] by (simp split: prod.splits)
  note loop0 = loop [where us = "[]", simplified]
  show ?thesis
    by (simp add: frame_pes_def Let_def loop loop0 split: option.splits prod.splits carried.splits)
qed

subsection \<open>A stream on its own\<close>

text \<open>What flushing a stream emits, and what it leaves of the PES packet.\<close>

definition pes_flush :: "(bytes \<Rightarrow> nat list) \<Rightarrow> stream_info \<Rightarrow> media_packet list \<times> pes_accumulator" where
  "pes_flush find_iter s =
     (let pes = si_pes s; data = pes_buf pes
      in if data = [] \<or> \<not> (pes_has_timestamp pes \<or> si_kind s = Kind_AacAdts) then ([], pes_reset pes)
         else if si_kind s = Kind_AacAdts then
           (case frame_pes (si_track_index s) (if pes_has_timestamp pes then Some (pes_pts pes, pes_dts pes) else None)
               data (pes_adts pes) [] of
              (result, adts, us) \<Rightarrow>
                (us @ (case result of
                         Frames _ \<Rightarrow> []
                       | Whole unit \<Rightarrow> if pes_has_timestamp pes then [pes_packet find_iter s data unit] else []),
                 (pes_reset pes)\<lparr>pes_adts := adts\<rparr>))
         else ([pes_packet find_iter s data data], pes_reset pes))"

type_synonym stream_view = "stream_info \<times> media_packet list"

definition set_pes :: "pes_accumulator \<Rightarrow> stream_info \<Rightarrow> stream_info" where
  "set_pes pes s = s\<lparr>si_pes := pes\<rparr>"

fun stream_flush :: "(bytes \<Rightarrow> nat list) \<Rightarrow> stream_view \<Rightarrow> stream_view" where
  "stream_flush find_iter (s, out) = (set_pes (snd (pes_flush find_iter s)) s, out @ fst (pes_flush find_iter s))"

fun stream_flush_completed :: "(bytes \<Rightarrow> nat list) \<Rightarrow> stream_view \<Rightarrow> stream_view" where
  "stream_flush_completed find_iter (s, out) =
     (case pes_expected_payload_len (si_pes s) of
        None \<Rightarrow> (s, out)
      | Some expected \<Rightarrow>
          if length (pes_buf (si_pes s)) \<ge> expected
          then stream_flush find_iter (set_pes ((si_pes s)\<lparr>pes_buf := take expected (pes_buf (si_pes s))\<rparr>) s, out)
          else (s, out))"

definition stream_start :: "(bytes \<Rightarrow> nat list) \<Rightarrow> bool \<Rightarrow> bytes \<Rightarrow> stream_view \<Rightarrow> stream_view" where
  "stream_start find_iter random_access data v =
     (case stream_flush find_iter v of
        (s, out) \<Rightarrow>
          (case split_first_chunk 9 data of
             None \<Rightarrow> (s, out)
           | Some (head, rest) \<Rightarrow>
               if take 3 head = [0x00, 0x00, 0x01]
               then stream_flush_completed find_iter (set_pes (start_pes random_access head rest (si_pes s)) s, out)
               else (s, out)))"

fun stream_append :: "(bytes \<Rightarrow> nat list) \<Rightarrow> bytes \<Rightarrow> stream_view \<Rightarrow> stream_view" where
  "stream_append find_iter data (s, out) =
     stream_flush_completed find_iter (set_pes (append_bounded data (si_pes s)) s, out)"

definition set_continuity :: "u8 \<Rightarrow> stream_view \<Rightarrow> stream_view" where
  "set_continuity cc v = ((fst v)\<lparr>si_continuity := cc\<rparr>, snd v)"

definition stream_handle :: "(bytes \<Rightarrow> nat list) \<Rightarrow> u8 \<Rightarrow> bool \<Rightarrow> bool \<Rightarrow> bytes \<Rightarrow> stream_view \<Rightarrow> stream_view" where
  "stream_handle find_iter cc pusi random_access data v =
     (if pusi then stream_start find_iter random_access data (set_continuity cc v)
      else stream_append find_iter data (set_continuity cc v))"

subsection \<open>The demuxer acts stream by stream\<close>

text \<open>The demuxer with a stream and the output replaced, as far as packets are concerned.\<close>

definition sees :: "nat \<Rightarrow> stream_info list \<Rightarrow> stream_view \<Rightarrow> ts_demuxer \<Rightarrow> bool" where
  "sees i ss v d \<longleftrightarrow> dx_streams d = ss[i := fst v] \<and> dx_output d = snd v"

lemma update_stream_sees: "i < length ss \<Longrightarrow> sees i ss (s, out) d \<Longrightarrow> sees i ss (f s, out) (update_stream i f d)"
  by (simp add: sees_def update_stream_def list_get_def)

lemma update_pes_sees:
  "i < length ss \<Longrightarrow> sees i ss (s, out) d \<Longrightarrow> sees i ss (set_pes (g (si_pes s)) s, out) (update_pes i g d)"
  using update_stream_sees [of i ss s out d "\<lambda>s. set_pes (g (si_pes s)) s"] by (simp add: update_pes_def set_pes_def)

lemma try_build_probe_sees: "sees i ss v (try_build_probe find_iter j data d) \<longleftrightarrow> sees i ss v d"
  by (auto simp: sees_def try_build_probe_def publish_probe_def Let_def split: option.splits prod.splits)

lemma emit_packet_sees: "sees i ss (s, out) d \<Longrightarrow> sees i ss (s, out @ [p]) (emit_packet find_iter j p d)"
  using try_build_probe_sees [of i ss "(s, out)" find_iter j "payload p" d] by (auto simp: emit_packet_def Let_def sees_def)

lemma set_pes_simps [simp]: "si_pes (set_pes p s) = p" "set_pes p (set_pes q s) = set_pes p s"
  "si_kind (set_pes p s) = si_kind s" "si_track_index (set_pes p s) = si_track_index s" "si_pid (set_pes p s) = si_pid s"
  by (simp_all add: set_pes_def)

lemma sees_output: "sees i ss (s, out) d \<Longrightarrow> sees i ss (s, out') (d\<lparr>dx_output := out'\<rparr>)"
  by (simp add: sees_def)

lemma flush_pes_sees:
  assumes "i < length ss" and "sees i ss (s, out) d"
  shows "sees i ss (stream_flush find_iter (s, out)) (flush_pes find_iter i d)"
proof -
  let ?pes = "si_pes s" and ?data = "pes_buf (si_pes s)"
  let ?ts = "if pes_has_timestamp ?pes then Some (pes_pts ?pes, pes_dts ?pes) else None"
  have get: "list_get (dx_streams d) i = Some s" using assms by (simp add: sees_def list_get_def)
  have out: "dx_output (update_pes i g d) = out" for g
    using update_pes_sees [OF assms, of g] by (simp add: sees_def)
  note reset = update_pes_sees [OF assms, of pes_reset]
  obtain r adts us where fr: "frame_pes (si_track_index s) ?ts ?data (pes_adts ?pes) [] = (r, adts, us)"
    by (cases "frame_pes (si_track_index s) ?ts ?data (pes_adts ?pes) []") auto
  have fo: "frame_pes (si_track_index s) ?ts ?data (pes_adts ?pes) out = (r, adts, out @ us)"
    by (subst frame_pes_out) (simp add: fr)
  define e where "e = (update_pes i (\<lambda>pes. pes\<lparr>pes_adts := adts\<rparr>) (update_pes i pes_reset d))\<lparr>dx_output := out @ us\<rparr>"
  have e: "sees i ss (set_pes ((pes_reset ?pes)\<lparr>pes_adts := adts\<rparr>) s, out @ us) e"
    using update_pes_sees [OF assms(1) reset, of "\<lambda>pes. pes\<lparr>pes_adts := adts\<rparr>"] unfolding e_def
    by (auto intro: sees_output)
  show ?thesis
  proof (cases "?data = [] \<or> \<not> (pes_has_timestamp ?pes \<or> si_kind s = Kind_AacAdts)")
    case True
    then show ?thesis using reset by (simp add: flush_pes_def get pes_flush_def Let_def)
  next
    case data: False
    show ?thesis
    proof (cases "si_kind s = Kind_AacAdts")
      case True
      then show ?thesis using data e emit_packet_sees [OF e]
        by (auto simp: flush_pes_def get pes_flush_def Let_def out fr fo e_def [symmetric] try_build_probe_sees
            split: framed.splits option.splits)
    next
      case False
      then show ?thesis using data emit_packet_sees [OF reset] by (simp add: flush_pes_def get pes_flush_def Let_def)
    qed
  qed
qed

lemma flush_completed_pes_sees:
  assumes "i < length ss" and "sees i ss v d"
  shows "sees i ss (stream_flush_completed find_iter v) (flush_completed_pes find_iter i d)"
proof -
  obtain s out where v: "v = (s, out)" by (cases v)
  have get: "list_get (dx_streams d) i = Some s" using assms by (simp add: sees_def list_get_def v)
  have "sees i ss (stream_flush find_iter (set_pes ((si_pes s)\<lparr>pes_buf := take n (pes_buf (si_pes s))\<rparr>) s, out))
      (flush_pes find_iter i (update_pes i (\<lambda>pes. pes\<lparr>pes_buf := take n (pes_buf pes)\<rparr>) d))" for n
    by (rule flush_pes_sees [OF assms(1) update_pes_sees [OF assms(1) assms(2) [unfolded v]]])
  then show ?thesis using assms(2) unfolding v
    by (simp add: flush_completed_pes_def get del: stream_flush.simps split: option.splits)
qed

lemma process_stream_sees:
  assumes "i < length ss" and "sees i ss (s, out) d"
  shows "sees i ss (stream_handle find_iter cc pusi ra data (s, out)) (process_stream find_iter i cc pusi ra data d)"
proof -
  have get: "list_get (dx_streams d) i = Some s" using assms by (simp add: sees_def list_get_def)
  define e where "e = update_stream i (\<lambda>s. s\<lparr>si_continuity := cc\<rparr>) d"
  have e: "sees i ss (set_continuity cc (s, out)) e"
    using update_stream_sees [OF assms] by (simp add: e_def set_continuity_def)
  obtain s1 out1 where v1: "set_continuity cc (s, out) = (s1, out1)" by (cases "set_continuity cc (s, out)")
  obtain s2 out2 where v2: "stream_flush find_iter (s1, out1) = (s2, out2)" by (cases "stream_flush find_iter (s1, out1)")
  have flushed: "sees i ss (s2, out2) (flush_pes find_iter i e)"
    using flush_pes_sees [OF assms(1) e [unfolded v1], of find_iter] by (simp only: v2)
  note upd = flush_completed_pes_sees [OF assms(1) update_pes_sees [OF assms(1) flushed]]
    flush_completed_pes_sees [OF assms(1) update_pes_sees [OF assms(1) e [unfolded v1]]]
  show ?thesis using upd flushed
    by (auto simp: process_stream_def get e_def [symmetric] stream_handle_def stream_start_def v1 v2 Let_def
        simp del: stream_flush.simps stream_flush_completed.simps split: option.splits)
qed

end
