(* ===== verification/Ts_Link.thy ===== *)
theory Ts_Link
  imports Ts_Mux Ts_Pes
begin

text \<open>
  The muxer's transport packets as the demuxer reads them (\<open>mux.rs\<close> and \<open>demux.rs\<close> of
  \<open>crates/restream-mpegts/src\<close>): packet headers, the cut of a PES packet into packets and its
  reassembly.
\<close>

unbundle bit_operations_syntax

subsection \<open>Packet headers\<close>

lemma next_cc_less: "next_cc cc < 16"
proof -
  have "next_cc cc \<le> 0x0F" unfolding next_cc_def by (rule word_and_le1)
  then show ?thesis by (simp add: order_le_less_trans)
qed

lemma high_bits_zero:
  assumes "unat w < 2 ^ k" and "k \<le> n"
  shows "\<not> bit w n"
proof
  assume "bit w n"
  then have "bit (unat w) n" by (simp add: bit_unsigned_iff bit_imp_le_length)
  moreover have "take_bit k (unat w) = unat w" using assms(1) by (rule take_bit_nat_eq_self)
  ultimately show False using assms(2) by (metis bit_take_bit_iff not_less)
qed

lemma control_field:
  assumes "(cc :: u8) < 16"
  shows "drop_bit 4 (0x30 OR cc) AND 0x03 = 3" "drop_bit 4 (0x10 OR cc) AND 0x03 = 1"
proof -
  have "drop_bit 4 cc = 0"
    using high_bits_zero [of cc 4] assms by (intro bit_eqI) (simp add: bit_drop_bit_eq word_less_nat_alt)
  then show "drop_bit 4 (0x30 OR cc) AND 0x03 = 3" "drop_bit 4 (0x10 OR cc) AND 0x03 = 1"
    by (simp_all add: drop_bit_or)
qed

lemma low_5_bits: "bit (0x1F :: 'a :: len word) n \<longleftrightarrow> n < 5 \<and> n < LENGTH('a)"
proof -
  have "(0x1F :: 'a word) = mask 5" by (simp add: mask_eq_exp_minus_1)
  then show ?thesis by (simp only: bit_mask_iff) auto
qed

lemma pid_high_bit: "bit (pid_high pid) n \<longleftrightarrow> n < 5 \<and> bit pid (n + 8)"
  unfolding pid_high_def bit_and_iff low_5_bits bit_ucast_iff by (auto simp: bit_drop_bit_eq add.commute)

lemma pid_13_fields:
  assumes "pid < 0x2000" and "b AND 0x1F = 0"
  shows "pid_13 (b OR pid_high pid) (ucast pid) = pid"
proof (rule bit_word_eqI)
  fix n assume n: "n < LENGTH(16)"
  have high: "\<not> bit pid k" if "13 \<le> k" for k using high_bits_zero [of pid 13 k] assms(1) that by (simp add: word_less_nat_alt)
  have b: "\<not> bit b k" if "k < 5" for k
    using arg_cong [OF assms(2), of "\<lambda>w. bit w k"] that unfolding bit_and_iff low_5_bits by simp
  have "bit (pid_13 (b OR pid_high pid) (ucast pid)) n \<longleftrightarrow> 8 \<le> n \<and> n - 8 < 5 \<and> bit pid n \<or> n < 8 \<and> bit pid n"
    using n b [of "n - 8"] unfolding pid_13_def bit_or_iff bit_push_bit_iff bit_ucast_iff bit_and_iff low_5_bits pid_high_bit by auto
  then show "bit (pid_13 (b OR pid_high pid) (ucast pid)) n = bit pid n"
    using high [of n] by (cases "13 \<le> n") auto
qed

text \<open>What the demuxer reads in a packet.\<close>

definition carries :: "bytes \<Rightarrow> u16 \<Rightarrow> bool \<Rightarrow> bool \<Rightarrow> bytes \<Rightarrow> bool" where
  "carries pkt pid pusi ra piece \<longleftrightarrow>
     ts_packet pkt \<and> pid_13 (pkt ! 1) (pkt ! 2) = pid \<and> (pkt ! 1 AND 0x40 \<noteq> 0 \<longleftrightarrow> pusi) \<and> ts_payload pkt = Some (ra, piece)"

lemma pusi_bit: "((if first then 0x40 else 0x00) OR pid_high pid) AND 0x40 \<noteq> 0 \<longleftrightarrow> first"
proof -
  have "\<not> bit (pid_high pid) 6" by (simp add: pid_high_bit)
  then have "pid_high pid AND 0x40 = 0" using and_power_neq_0 [of "pid_high pid" 6] by simp
  then show ?thesis by (simp add: bit.conj_disj_distrib2)
qed

lemma slice_from_append: "n = length xs \<Longrightarrow> slice_from n (xs @ ys) = Some ys"
  by (simp add: slice_from_def)

lemma unat_u8: "n < 256 \<Longrightarrow> unat (of_nat n :: u8) = n"
  by simp

text \<open>A packet with an adaptation field, and one without.\<close>

lemma carries_adaptation:
  assumes "pid < 0x2000" and "cc < 16" and "af \<noteq> []" and "length af + 5 + length piece = TS_PACKET_SIZE"
    and "ra = (hd af AND 0x40 \<noteq> 0)"
  shows "carries ([TS_SYNC_BYTE, (if first then 0x40 else 0x00) OR pid_high pid, ucast pid, 0x30 OR cc, of_nat (length af)] @ af @ piece)
    pid first ra piece"
proof -
  have len: "length af < 256" "0 < length af" using assms(3,4) by (auto simp: TS_PACKET_SIZE_def)
  have af: "unat (of_nat (length af) :: u8) = length af" using len(1) by simp
  then have pos: "(of_nat (length af) :: u8) > 0" using len(2) by (simp add: word_less_nat_alt)
  obtain a as where afs: "af = a # as" using assms(3) by (cases af) auto
  have pid: "pid_13 ((if first then 0x40 else 0x00) OR pid_high pid) (ucast pid) = pid"
    using pid_13_fields [OF assms(1), of "if first then 0x40 else 0x00"] by (cases first) simp_all
  have "slice_from (length af) (af @ piece) = Some piece" by (rule slice_from_append) (rule refl)
  then show ?thesis
    using pid pusi_bit [of first pid] control_field(1) [OF assms(2)] pos af assms(4,5)
    by (simp add: carries_def ts_packet_def ts_payload_def Let_def afs)
qed

lemma carries_plain:
  assumes "pid < 0x2000" and "cc < 16" and "4 + length piece = TS_PACKET_SIZE"
  shows "carries ([TS_SYNC_BYTE, (if first then 0x40 else 0x00) OR pid_high pid, ucast pid, 0x10 OR cc] @ piece)
    pid first False piece"
proof -
  have pid: "pid_13 ((if first then 0x40 else 0x00) OR pid_high pid) (ucast pid) = pid"
    using pid_13_fields [OF assms(1), of "if first then 0x40 else 0x00"] by (cases first) simp_all
  then show ?thesis
    using pusi_bit [of first pid] control_field(2) [OF assms(2)] assms(3)
    by (simp add: carries_def ts_packet_def ts_payload_def Let_def)
qed

lemma carries_empty_adaptation:
  assumes "pid < 0x2000" and "cc < 16" and "5 + length piece = TS_PACKET_SIZE"
  shows "carries ([TS_SYNC_BYTE, (if first then 0x40 else 0x00) OR pid_high pid, ucast pid, 0x30 OR cc, 0x00] @ piece)
    pid first False piece"
proof -
  have pid: "pid_13 ((if first then 0x40 else 0x00) OR pid_high pid) (ucast pid) = pid"
    using pid_13_fields [OF assms(1), of "if first then 0x40 else 0x00"] by (cases first) simp_all
  then show ?thesis
    using pusi_bit [of first pid] control_field(1) [OF assms(2)] assms(3)
    by (simp add: carries_def ts_packet_def ts_payload_def Let_def slice_from_def)
qed

lemma ts_header_carries:
  assumes "0 < remaining" and "pid < 0x2000" and "cc < 16"
    and "header = ts_header pid pcr_pid key t first cc remaining"
    and "length piece = min remaining (TS_PACKET_SIZE - length header)"
  shows "carries (pad_ts (header @ piece)) pid first (first \<and> key) piece"
proof -
  let ?start = "[TS_SYNC_BYTE, (if first then 0x40 else 0x00) OR pid_high pid, ucast pid]"
  consider (af) "first \<and> (key \<or> pid = pcr_pid)" | (full) "\<not> (first \<and> (key \<or> pid = pcr_pid))" "184 \<le> remaining"
    | (one) "\<not> (first \<and> (key \<or> pid = pcr_pid))" "remaining = 183"
    | (stuff) "\<not> (first \<and> (key \<or> pid = pcr_pid))" "remaining < 183" by linarith
  then show ?thesis
  proof cases
    case af
    define pcr where "pcr = (if pid = pcr_pid then write_pcr t else [])"
    define flags :: u8 where "flags = (if key then 0x40 else 0x00) OR (if pid = pcr_pid then 0x10 else 0x00)"
    define stuff where "stuff = 188 - 4 - 1 - (1 + length pcr) - min remaining (188 - 4 - 1 - (1 + length pcr))"
    have pcr_len: "length pcr = (if pid = pcr_pid then 6 else 0)" by (simp add: pcr_def)
    have h: "header = ?start @ [0x30 OR cc, of_nat (length (flags # pcr @ replicate stuff 0xFF))] @ (flags # pcr @ replicate stuff 0xFF)"
      using af assms(4) by (simp add: ts_header_def Let_def pcr_def flags_def stuff_def TS_PACKET_SIZE_def)
    have "length header + length piece = 188"
      using assms(1,5) pcr_len by (auto simp: h TS_PACKET_SIZE_def stuff_def)
    moreover have "(flags AND 0x40 \<noteq> 0) = key" by (simp add: flags_def)
    ultimately show ?thesis using carries_adaptation [OF assms(2,3), of "flags # pcr @ replicate stuff 0xFF" piece "first \<and> key" first] af
      by (simp add: h pad_ts_def TS_PACKET_SIZE_def)
  next
    case full
    then have h: "header = ?start @ [0x10 OR cc]" using assms(4) by (auto simp: ts_header_def Let_def TS_PACKET_SIZE_def)
    with full assms(5) have "4 + length piece = TS_PACKET_SIZE" by (simp add: TS_PACKET_SIZE_def)
    moreover have "(first \<and> key) = False" using full by blast
    ultimately show ?thesis using carries_plain [OF assms(2,3), of piece first]
      by (cases first) (simp_all add: h pad_ts_def)
  next
    case one
    then have h: "header = ?start @ [0x30 OR cc, 0x00]" using assms(4) by (auto simp: ts_header_def Let_def TS_PACKET_SIZE_def)
    with one assms(5) have "5 + length piece = TS_PACKET_SIZE" by (simp add: TS_PACKET_SIZE_def)
    moreover have "(first \<and> key) = False" using one by blast
    ultimately show ?thesis using carries_empty_adaptation [OF assms(2,3), of piece first]
      by (cases first) (simp_all add: h pad_ts_def)
  next
    case stuff
    define af where "af = (0x00 :: u8) # replicate (182 - remaining) 0xFF"
    have h: "header = ?start @ [0x30 OR cc, of_nat (length af)] @ af"
      using stuff assms(4) by (auto simp: ts_header_def Let_def TS_PACKET_SIZE_def af_def)
    with stuff assms(5) have "length af + 5 + length piece = TS_PACKET_SIZE" by (auto simp: TS_PACKET_SIZE_def af_def)
    moreover have "(first \<and> key) = False" using stuff by blast
    ultimately show ?thesis using carries_adaptation [OF assms(2,3), of af piece False first]
      by (cases first) (simp_all add: h pad_ts_def af_def)
  qed
qed

subsection \<open>A PES packet in transport packets\<close>

text \<open>The packets carry the content in order; the first one announces the unit and holds its header.\<close>

inductive sends :: "u16 \<Rightarrow> bool \<Rightarrow> bool \<Rightarrow> bytes \<Rightarrow> bytes list \<Rightarrow> bool" for pid key where
  sends_Nil: "sends pid key first [] []"
| sends_Cons: "carries p pid first (first \<and> key) piece \<Longrightarrow> piece \<noteq> [] \<Longrightarrow>
    (first \<longrightarrow> min 176 (length (piece @ rest)) \<le> length piece) \<Longrightarrow> sends pid key False rest ps \<Longrightarrow>
    sends pid key first (piece @ rest) (p # ps)"

inductive_cases sends_NilE: "sends pid key first [] ps"
inductive_cases sends_packetsE: "sends pid key first content ps"

lemma ts_header_space: "length (ts_header pid pcr_pid key t first cc remaining) \<le> TS_PACKET_SIZE - min 176 remaining"
  by (auto simp: ts_header_def Let_def TS_PACKET_SIZE_def)

lemma pes_loop_sends:
  assumes "pid < 0x2000" and "cc < 16"
  shows "\<exists>ps cc'. pes_loop pid pcr_pid key t hdr data off first cc out = (cc', out @ concat ps) \<and> cc' < 16 \<and>
    sends pid key first (drop off (hdr @ data)) ps"
  using assms
proof (induction pid pcr_pid key t hdr data off first cc out rule: pes_loop.induct)
  case (1 pid pcr_pid key t hdr data off first cc out)
  show ?case
  proof (cases "off < length hdr + length data")
    case False
    then show ?thesis using "1.prems"
      by (intro exI [of _ "[]"] exI [of _ cc]) (simp add: pes_loop.simps [of pid] Let_def sends_Nil)
  next
    case True
    define remaining where "remaining = length hdr + length data - off"
    define header where "header = ts_header pid pcr_pid key t first cc remaining"
    define n where "n = min remaining (TS_PACKET_SIZE - length header)"
    define piece where "piece = copy_pes_slices hdr data off n"
    have pos: "0 < remaining" using True by (simp add: remaining_def)
    then have n: "0 < n" "min 176 remaining \<le> n"
      using ts_header_length [OF pos, of pid pcr_pid key t first cc] ts_header_space [of pid pcr_pid key t first cc remaining]
      by (auto simp: n_def header_def TS_PACKET_SIZE_def)
    have piece: "piece = take n (drop off (hdr @ data))" by (simp add: piece_def copy_pes_slices_eq)
    have len: "length piece = n" by (simp add: piece n_def remaining_def del: drop_append take_append)
    have content: "drop off (hdr @ data) = piece @ drop (off + n) (hdr @ data)"
      by (simp only: piece add.commute [of off] drop_drop [symmetric] append_take_drop_id)
    have "carries (pad_ts (header @ piece)) pid first (first \<and> key) piece"
      using ts_header_carries [OF pos "1.prems" header_def] len by (simp add: n_def)
    moreover from "1.IH" [OF refl True refl refl refl refl "1.prems"(1) next_cc_less]
    obtain ps cc' where IH: "pes_loop pid pcr_pid key t hdr data (off + n) False (next_cc cc) (out @ pad_ts (header @ piece)) =
        (cc', (out @ pad_ts (header @ piece)) @ concat ps)" "cc' < 16" "sends pid key False (drop (off + n) (hdr @ data)) ps"
      unfolding n_def piece_def header_def remaining_def by blast
    ultimately have "sends pid key first (drop off (hdr @ data)) (pad_ts (header @ piece) # ps)"
      unfolding content using n len by (intro sends_Cons) (auto simp: remaining_def)
    moreover have "pes_loop pid pcr_pid key t hdr data off first cc out = (cc', out @ concat (pad_ts (header @ piece) # ps))"
      using IH(1) True unfolding pes_loop.simps [of pid pcr_pid key t hdr data off] Let_def
      by (simp add: n_def piece_def header_def remaining_def)
    ultimately show ?thesis using IH(2) by blast
  qed
qed

end
