(* ===== verification/Ts_Unit.thy ===== *)
theory Ts_Unit
  imports Ts_Link
begin

text \<open>
  One media packet through the MPEG-TS muxer and demuxer (\<open>mux.rs\<close> and \<open>demux.rs\<close> of
  \<open>crates/restream-mpegts/src\<close>): the packets of a PES packet reach its stream, the pieces are put together
  again, and the stream owes exactly the media packet that was sent.
\<close>

subsection \<open>Routing\<close>

definition routes :: "ts_demuxer \<Rightarrow> u16 \<Rightarrow> nat \<Rightarrow> bool" where
  "routes d pid i \<longleftrightarrow> pid \<noteq> PAT_PID \<and> Some pid \<noteq> dx_pmt_pid d \<and> unat pid < PID_COUNT \<and>
     dx_pid_to_stream d (unat pid) = i \<and> i \<noteq> NO_STREAM"

lemma routes_tables: "tables e = tables d \<Longrightarrow> routes e pid i = routes d pid i"
  by (simp add: routes_def tables_def)

lemma process_carries:
  "routes d pid i \<Longrightarrow> carries pkt pid pusi ra piece \<Longrightarrow> piece \<noteq> [] \<Longrightarrow>
     process_ts_packet find_iter pkt d = process_stream find_iter i (pkt ! 3 AND 0x0F) pusi ra piece d"
  by (auto simp: routes_def carries_def process_ts_packet_def Let_def)

lemma process_carries_sees:
  assumes "routes d pid i" and "carries pkt pid pusi ra piece" and "piece \<noteq> []" and "i < length ss" and "sees i ss v d"
  shows "\<exists>cc. sees i ss (stream_handle find_iter cc pusi ra piece v) (process_ts_packet find_iter pkt d)"
    and "tables (process_ts_packet find_iter pkt d) = tables d"
proof -
  obtain s out where v: "v = (s, out)" by (cases v)
  show "\<exists>cc. sees i ss (stream_handle find_iter cc pusi ra piece v) (process_ts_packet find_iter pkt d)"
    using process_stream_sees [OF assms(4) assms(5) [unfolded v]] unfolding v process_carries [OF assms(1-3)] by blast
  show "tables (process_ts_packet find_iter pkt d) = tables d"
    unfolding process_carries [OF assms(1-3)] by simp
qed

subsection \<open>Reassembly\<close>

definition with_cc :: "u8 \<Rightarrow> stream_info \<Rightarrow> stream_info" where
  "with_cc cc s = s\<lparr>si_continuity := cc\<rparr>"

lemma with_cc_simps [simp]:
  "with_cc c (with_cc e s) = with_cc c s" "si_pes (with_cc c s) = si_pes s" "si_kind (with_cc c s) = si_kind s"
  "si_track_index (with_cc c s) = si_track_index s" "si_pid (with_cc c s) = si_pid s"
  "with_cc c (set_pes p s) = set_pes p (with_cc c s)" "set_continuity c (s, out) = (with_cc c s, out)"
  by (simp_all add: with_cc_def set_pes_def set_continuity_def)

lemma append_bounded_fits: "length (pes_buf pes) + length data \<le> MAX_PES_BUFFER \<Longrightarrow>
    append_bounded data pes = pes\<lparr>pes_buf := pes_buf pes @ data\<rparr>"
  by (auto simp: append_bounded_def saturating_add_def)

text \<open>The whole payload is in once its announced length is, or the unit has no announced length.\<close>

definition announces :: "pes_accumulator \<Rightarrow> nat \<Rightarrow> bool" where
  "announces pes n \<longleftrightarrow> pes_expected_payload_len pes = None \<or> pes_expected_payload_len pes = Some n"

lemma flush_completed_open:
  "announces (si_pes s) n \<Longrightarrow> length (pes_buf (si_pes s)) < n \<Longrightarrow> stream_flush_completed find_iter (s, out) = (s, out)"
  by (auto simp: announces_def split: option.splits)

definition filled :: "bytes \<Rightarrow> stream_info \<Rightarrow> stream_info" where
  "filled data s = set_pes ((si_pes s)\<lparr>pes_buf := data\<rparr>) s"

lemma filled_simps [simp]:
  "filled b (filled a s) = filled b s" "filled b (with_cc c s) = with_cc c (filled b s)"
  "pes_buf (si_pes (filled b s)) = b" "announces (si_pes (filled b s)) n = announces (si_pes s) n"
  by (simp_all add: filled_def announces_def)

lemma stream_append_fits:
  assumes "length (pes_buf (si_pes s)) + length piece \<le> MAX_PES_BUFFER"
  shows "stream_handle find_iter cc False ra piece (s, out) =
    stream_flush_completed find_iter (with_cc cc (filled (pes_buf (si_pes s) @ piece) s), out)"
  using assms by (simp add: stream_handle_def append_bounded_fits filled_def del: stream_flush_completed.simps)

lemma rest_sends:
  assumes "sends pid key False content ps" and "content \<noteq> []" and "routes d pid i" and "i < length ss"
    and "sees i ss (s, out) d" and "announces (si_pes s) (length (pes_buf (si_pes s) @ content))"
    and "length (pes_buf (si_pes s) @ content) \<le> MAX_PES_BUFFER"
  shows "(\<exists>c. sees i ss (stream_flush_completed find_iter (with_cc c (filled (pes_buf (si_pes s) @ content) s), out))
      (fold (process_ts_packet find_iter) ps d)) \<and> tables (fold (process_ts_packet find_iter) ps d) = tables d"
  using assms
proof (induction "False" content ps arbitrary: d s rule: sends.induct)
  case (sends_Cons p piece rest ps)
  let ?b = "pes_buf (si_pes s) @ piece"
  let ?d = "process_ts_packet find_iter p d"
  note step = process_carries_sees [OF sends_Cons.prems(2) sends_Cons.hyps(1,2) sends_Cons.prems(3,4), of find_iter]
  obtain cc where "sees i ss (stream_handle find_iter cc False (False \<and> key) piece (s, out)) ?d" using step(1) by blast
  then have one: "sees i ss (stream_flush_completed find_iter (with_cc cc (filled ?b s), out)) ?d"
    using sends_Cons.prems(6) by (subst (asm) stream_append_fits) simp_all
  show ?case
  proof (cases "rest = []")
    case True
    then have "ps = []" using sends_Cons.hyps(4) by (auto elim: sends_NilE)
    with one True step(2) show ?thesis by (auto simp del: stream_flush_completed.simps)
  next
    case False
    have idle: "stream_flush_completed find_iter (with_cc cc (filled ?b s), out) = (with_cc cc (filled ?b s), out)"
      using sends_Cons.prems(5) False by (intro flush_completed_open [of _ "length (?b @ rest)"]) auto
    have "sees i ss (with_cc cc (filled ?b s), out) ?d" using one by (simp only: idle)
    moreover have "routes ?d pid i" using routes_tables [OF step(2)] sends_Cons.prems(2) by simp
    moreover have "announces (si_pes (with_cc cc (filled ?b s))) (length (pes_buf (si_pes (with_cc cc (filled ?b s))) @ rest))"
      "length (pes_buf (si_pes (with_cc cc (filled ?b s))) @ rest) \<le> MAX_PES_BUFFER"
      using sends_Cons.prems(5,6) by simp_all
    ultimately have "(\<exists>c. sees i ss (stream_flush_completed find_iter (with_cc c (filled (pes_buf (si_pes (with_cc cc (filled ?b s))) @ rest)
        (with_cc cc (filled ?b s))), out)) (fold (process_ts_packet find_iter) ps ?d)) \<and> tables (fold (process_ts_packet find_iter) ps ?d) = tables ?d"
      using sends_Cons.hyps(5) [OF False _ sends_Cons.prems(3)] by blast
    then show ?thesis using step(2) by (simp del: stream_flush_completed.simps)
  qed
qed simp_all

subsection \<open>PES headers\<close>

definition opened :: "media_type \<Rightarrow> bool \<Rightarrow> int \<Rightarrow> int \<Rightarrow> nat \<Rightarrow> pes_accumulator \<Rightarrow> pes_accumulator" where
  "opened mt ra p t n pes =
     pes\<lparr>pes_random_access := ra,
         pes_expected_payload_len := (if mt = Audio \<and> (if p = t then 8 else 13) + n \<le> 0xFFFF then Some n else None),
         pes_pts := p, pes_dts := t, pes_has_timestamp := True\<rparr>"

lemma be_fold_16: "v < 65536 \<Longrightarrow> be_fold [of_nat (v div 256), of_nat v] = v"
  by (simp add: be_fold_foldl unat_of_nat)

lemma start_pes_header:
  assumes "0 \<le> t" and "t \<le> p" and "p < 2 ^ 33" and "length (pes_buf pes) + length k \<le> MAX_PES_BUFFER"
  shows "split_first_chunk 9 (pes_header mt p t n @ k) = Some (take 9 (pes_header mt p t n), drop 9 (pes_header mt p t n) @ k)"
    and "take 3 (take 9 (pes_header mt p t n)) = [0x00, 0x00, 0x01]"
    and "start_pes ra (take 9 (pes_header mt p t n)) (drop 9 (pes_header mt p t n) @ k) pes =
      (opened mt ra p t n pes)\<lparr>pes_buf := pes_buf pes @ k\<rparr>"
proof -
  define m where "m = (if p = t then 8 else 13) + n"
  define b where "b = (mt = Audio \<and> m \<le> 0xFFFF)"
  define len where "len = (if b then [of_nat (m div 256), of_nat m] else [0, 0 :: u8])"
  define ts where "ts = write_timestamp_buf p (if p = t then 0x02 else 0x03)"
  define ds where "ds = (if p = t then [] else write_timestamp_buf t 0x01)"
  define head where "head = [0, 0, 1, case mt of Video \<Rightarrow> 0xE0 | Audio \<Rightarrow> 0xC0] @ len @
    [0x80, if p = t then 0x80 else 0xC0, if p = t then 5 else 10]"
  have hdr: "pes_header mt p t n = head @ ts @ ds"
    by (auto simp: pes_header_def Let_def PES_START_CODE_def head_def len_def ts_def ds_def b_def m_def)
  have lens: "length head = 9" "length ts = 5" "length ds = (if p = t then 0 else 5)"
    by (auto simp: head_def len_def ts_def ds_def)
  have parts: "take 9 (pes_header mt p t n) = head" "drop 9 (pes_header mt p t n) = ts @ ds"
    by (simp_all add: hdr lens)
  have stamps: "parse_timestamp ts = p" "p \<noteq> t \<Longrightarrow> parse_timestamp ds = t"
    using assms by (simp_all add: ts_def ds_def parse_write_timestamp_id)
  show "split_first_chunk 9 (pes_header mt p t n @ k) = Some (take 9 (pes_header mt p t n), drop 9 (pes_header mt p t n) @ k)"
    by (simp add: parts) (simp add: hdr split_at_checked_def lens)
  show "take 3 (take 9 (pes_header mt p t n)) = [0x00, 0x00, 0x01]" by (simp add: parts head_def)
  have len45: "pes_payload_len (be_fold [head ! 4, head ! 5]) (unat (head ! 8)) = (if b then Some n else None)"
  proof (cases b)
    case True
    then have "be_fold [of_nat (m div 256), of_nat m] = m" by (intro be_fold_16) (simp add: b_def)
    with True show ?thesis by (simp add: head_def len_def pes_payload_len_def checked_sub_def m_def)
  qed (simp add: head_def len_def pes_payload_len_def be_fold_def)
  have fields: "head ! 7 AND 0x80 \<noteq> 0" "head ! 7 AND 0x40 \<noteq> 0 \<longleftrightarrow> p \<noteq> t" "unat (head ! 8) = length (ts @ ds)"
    by (auto simp: head_def len_def lens)
  have rest: "slice_from (length (ts @ ds)) ((ts @ ds) @ k) = Some k" by (rule slice_from_append) (rule refl)
  show "start_pes ra (take 9 (pes_header mt p t n)) (drop 9 (pes_header mt p t n) @ k) pes =
      (opened mt ra p t n pes)\<lparr>pes_buf := pes_buf pes @ k\<rparr>"
  proof (cases "p = t")
    case True
    then have "ds = []" by (simp add: ds_def)
    with True show ?thesis using fields rest len45 stamps(1) lens assms(4) unfolding parts
      by (simp add: start_pes_def Let_def opened_def b_def m_def append_bounded_fits)
  next
    case False
    with lens have "length ds = 5" by simp
    with False show ?thesis using fields rest len45 stamps lens assms(4) unfolding parts
      by (simp add: start_pes_def Let_def opened_def b_def m_def append_bounded_fits)
  qed
qed

lemma length_pes_header: "9 \<le> length (pes_header mt p t n)" "length (pes_header mt p t n) \<le> 19"
  by (auto simp: pes_header_def Let_def PES_START_CODE_def)

subsection \<open>One unit\<close>

lemma pes_flush_with_cc [simp]: "pes_flush find_iter (with_cc c s) = pes_flush find_iter s"
  by (simp add: pes_flush_def pes_packet_def Let_def split: prod.splits framed.splits)

lemma pes_flush_leaves: "\<exists>adts. snd (pes_flush find_iter s) = (pes_reset (si_pes s))\<lparr>pes_adts := adts\<rparr>"
  by (auto simp: pes_flush_def Let_def pes_reset_def split: prod.splits intro: exI [of _ "pes_adts (si_pes s)"])

lemma pes_flush_buf [simp]: "pes_buf (snd (pes_flush find_iter s)) = []"
  using pes_flush_leaves [of find_iter s] by (auto simp: pes_reset_def)

text \<open>The stream once the last packet of a unit is in, before its completion is looked at.\<close>

definition received :: "(bytes \<Rightarrow> nat list) \<Rightarrow> media_type \<Rightarrow> bool \<Rightarrow> int \<Rightarrow> int \<Rightarrow> bytes \<Rightarrow> stream_info \<Rightarrow> stream_info" where
  "received find_iter mt ra p t data s =
     set_pes ((opened mt ra p t (length data) (snd (pes_flush find_iter s)))\<lparr>pes_buf := data\<rparr>) s"

lemma announces_opened: "announces (opened mt ra p t n pes) n"
  by (simp add: announces_def opened_def)

lemma first_sends:
  assumes "0 \<le> t" and "t \<le> p" and "p < 2 ^ 33" and "length k \<le> MAX_PES_BUFFER"
  shows "stream_handle find_iter cc True ra (pes_header mt p t n @ k) (s, out) =
    stream_flush_completed find_iter
      (with_cc cc (set_pes ((opened mt ra p t n (snd (pes_flush find_iter s)))\<lparr>pes_buf := k\<rparr>) s), out @ fst (pes_flush find_iter s))"
  using start_pes_header(1,2) [OF assms(1-3), of "snd (pes_flush find_iter s)" k mt n]
    start_pes_header(3) [OF assms(1-3), of "snd (pes_flush find_iter s)" k ra mt n] assms(4)
  by (simp add: stream_handle_def stream_start_def del: stream_flush_completed.simps)

lemma unit_sends:
  assumes "sends pid key True (pes_header mt p t (length data) @ data) ps" and "length data \<le> MAX_PES_BUFFER"
    and "0 \<le> t" and "t \<le> p" and "p < 2 ^ 33" and "routes d pid i" and "i < length ss" and "sees i ss (s, out) d"
  shows "(\<exists>c. sees i ss (stream_flush_completed find_iter
        (with_cc c (received find_iter mt key p t data s), out @ fst (pes_flush find_iter s)))
      (fold (process_ts_packet find_iter) ps d)) \<and> tables (fold (process_ts_packet find_iter) ps d) = tables d"
proof -
  let ?hdr = "pes_header mt p t (length data)"
  from assms(1) obtain pkt ps' piece rest where ps: "ps = pkt # ps'" and c: "carries pkt pid True (True \<and> key) piece" "piece \<noteq> []"
    and content: "?hdr @ data = piece @ rest" and long: "min 176 (length (piece @ rest)) \<le> length piece"
    and more: "sends pid key False rest ps'"
    using length_pes_header(1) [of mt p t "length data"] by (auto elim: sends_packetsE)
  have "length ?hdr \<le> length piece" using long length_pes_header(2) [of mt p t "length data"] arg_cong [OF content, of length] by auto
  then obtain k where k: "piece = ?hdr @ k" "data = k @ rest" using content by (auto simp: append_eq_append_conv2)
  let ?s = "set_pes ((opened mt key p t (length data) (snd (pes_flush find_iter s)))\<lparr>pes_buf := k\<rparr>) s"
  let ?out = "out @ fst (pes_flush find_iter s)"
  let ?d = "process_ts_packet find_iter pkt d"
  note step = process_carries_sees [OF assms(6) c assms(7,8), of find_iter]
  obtain cc where one: "sees i ss (stream_flush_completed find_iter (with_cc cc ?s, ?out)) ?d"
    using step(1) first_sends [OF assms(3-5), of k find_iter _ key mt "length data" s out] assms(2)
    unfolding k(1) by (auto simp add: k(2) simp del: stream_flush_completed.simps)
  show ?thesis
  proof (cases "rest = []")
    case True
    then have "ps' = []" using more by (auto elim: sends_NilE)
    with one True step(2) k show ?thesis by (auto simp: ps received_def simp del: stream_flush_completed.simps)
  next
    case False
    have "announces (si_pes (with_cc cc ?s)) (length data)" using announces_opened by (simp add: announces_def)
    then have idle: "stream_flush_completed find_iter (with_cc cc ?s, ?out) = (with_cc cc ?s, ?out)"
      using False k(2) by (intro flush_completed_open [of _ "length data"]) auto
    have "sees i ss (with_cc cc ?s, ?out) ?d" using one by (simp only: idle)
    moreover have "routes ?d pid i" using routes_tables [OF step(2)] assms(6) by simp
    moreover have "filled data (with_cc cc ?s) = with_cc cc (received find_iter mt key p t data s)"
      by (simp add: filled_def received_def)
    ultimately show ?thesis
      using rest_sends [OF more False, of ?d i ss "with_cc cc ?s" ?out find_iter] assms(2,7) step(2)
        \<open>announces (si_pes (with_cc cc ?s)) (length data)\<close>
      by (simp add: ps k(2) [symmetric] del: stream_flush_completed.simps)
  qed
qed

subsection \<open>Delivery\<close>

lemma nat_or_less: "x < 2 ^ n \<Longrightarrow> y < 2 ^ n \<Longrightarrow> x OR y < (2 ^ n :: nat)"
  by (simp add: take_bit_or flip: take_bit_nat_eq_self_iff)

lemma frame_len_max:
  assumes "frame_len data = Some n"
  shows "n \<le> MAX_ADTS_FRAME"
proof -
  from assms obtain b3 b4 b5 :: u8 where n: "n = push_bit 11 (unat (b3 AND 0x03)) OR push_bit 3 (unat b4) OR drop_bit 5 (unat (b5 AND 0xE0))"
    by (auto simp: frame_len_def Let_def split: list.splits if_splits)
  have "unat (b3 AND 0x03) \<le> unat (0x03 :: u8)" unfolding word_le_nat_alt [symmetric] by (rule word_and_le1)
  then have "push_bit 11 (unat (b3 AND 0x03)) < 2 ^ 13" by (simp add: push_bit_eq_mult)
  moreover have "push_bit 3 (unat b4) < 2 ^ 13" using unsigned_less [of b4, where ?'a = nat] by (simp add: push_bit_eq_mult)
  moreover have "drop_bit 5 (unat (b5 AND 0xE0)) < 2 ^ 13"
    using unsigned_less [of "b5 AND 0xE0", where ?'a = nat] by (simp add: drop_bit_eq_div)
  ultimately have "n < 2 ^ 13" unfolding n by (intro nat_or_less)
  then show ?thesis by (simp add: MAX_ADTS_FRAME_def)
qed

lemma single_frame_count:
  assumes "is_frame data"
  shows "adts_frame_count data \<le> 1"
proof -
  have stop: "adts_ranges_from data (length data) = []"
    by (simp add: adts_ranges_from.simps [of data "length data"] adts_next_def slice_from_def split_at_checked_def)
  have "adts_next data 0 = Some (span, k) \<Longrightarrow> k = length data" for span k
    using assms
    by (auto simp: adts_next_def is_frame_def frame_len_def bind_eq_Some_conv slice_from_def split_at_checked_def Let_def
        split: list.splits if_splits)
  then show ?thesis
    unfolding adts_frame_count_def adts_frame_ranges_def adts_ranges_from.simps [of data 0]
    by (auto simp: stop split: option.splits)
qed

lemma frame_pes_single:
  assumes "is_frame data" and "af_carry st = []"
  shows "\<exists>first' st'. frame_pes track (Some t) data st [] = (Frames first', st', [adts_unit track t data]) \<and> af_carry st' = []"
proof -
  have data: "data \<noteq> []" using is_frame_length [OF assms(1)] by auto
  have start: "adts_resync data = Some 0" using adts_resync_start [of "[data]" data "[]"] assms(1) data by simp
  have "cut_frames [data] (length data - 0) = ([data], [])" by simp
  from frame_loop_frames [of "[data]" 0 data "[]" "af_next st" "Some t" t "[data]" "[]" track 0 False None st "[]", OF _ _ _ _ this]
  show ?thesis using assms data by (auto simp: frame_pes_def start Let_def)
qed

text \<open>A stream between two units: nothing of an audio frame is kept.\<close>

definition ready :: "stream_info \<Rightarrow> bool" where
  "ready s \<longleftrightarrow> si_kind s \<noteq> Kind_AacLatm \<and>
     (si_kind s = Kind_AacAdts \<longrightarrow> pes_buf (si_pes s) = [] \<and> af_carry (pes_adts (si_pes s)) = [])"

definition same_stream :: "stream_info \<Rightarrow> stream_info \<Rightarrow> bool" where
  "same_stream s' s \<longleftrightarrow> si_pid s' = si_pid s \<and> si_kind s' = si_kind s \<and> si_track_index s' = si_track_index s"

text \<open>The packet a stream owes for a unit.\<close>

definition unit_packet :: "(bytes \<Rightarrow> nat list) \<Rightarrow> stream_info \<Rightarrow> bool \<Rightarrow> int \<Rightarrow> int \<Rightarrow> bytes \<Rightarrow> media_packet" where
  "unit_packet find_iter s key p t data =
     \<lparr>media_type = kind_media_type (si_kind s), format = Raw,
      is_keyframe = pes_is_keyframe find_iter (si_kind s) key data, track_index = si_track_index s,
      pts = ts_to_ms p, dts = ts_to_ms t, payload = data\<rparr>"

lemma unit_delivered:
  assumes "ready s" and "data \<noteq> []" and "si_kind s = Kind_AacAdts \<Longrightarrow> is_frame data"
    and "stream_flush_completed find_iter (with_cc c (received find_iter (kind_media_type (si_kind s)) key p t data s), out) = (s', out')"
  shows "ready s' \<and> same_stream s' s \<and> out' @ fst (pes_flush find_iter s') = out @ [unit_packet find_iter s key p t data]"
proof (cases "si_kind s = Kind_AacAdts")
  case False
  then have video: "kind_media_type (si_kind s) = Video" using assms(1) by (cases "si_kind s") (simp_all add: ready_def)
  then have s': "s' = with_cc c (received find_iter Video key p t data s)" "out' = out"
    using assms(4) by (simp_all add: received_def opened_def)
  have "fst (pes_flush find_iter s') = [unit_packet find_iter s key p t data]"
    using False assms(2) by (simp add: s' pes_flush_def received_def opened_def Let_def pes_packet_def unit_packet_def video)
  then show ?thesis using False assms(1) by (simp add: s' ready_def same_stream_def received_def)
next
  case True
  have frame: "is_frame data" using assms(3) True by simp
  have "length data \<le> 8191" using frame frame_len_max [of data] by (simp add: is_frame_def MAX_ADTS_FRAME_def)
  then have short: "(if p = t then 8 else 13) + length data \<le> 0xFFFF" by simp
  have kept: "af_carry (pes_adts (snd (pes_flush find_iter s))) = []"
    using True assms(1) by (simp add: ready_def pes_flush_def Let_def pes_reset_def)
  obtain first' st' where f: "frame_pes (si_track_index s) (Some (p, t)) data (pes_adts (snd (pes_flush find_iter s))) [] =
      (Frames first', st', [adts_unit (si_track_index s) (p, t) data])" "af_carry st' = []"
    using frame_pes_single [OF frame kept] by blast
  have unit: "adts_unit (si_track_index s) (p, t) data = unit_packet find_iter s key p t data"
    using True by (simp add: adts_unit_def unit_packet_def pes_is_keyframe_def)
  define r where "r = with_cc c (received find_iter Audio key p t data s)"
  have r: "si_kind r = Kind_AacAdts" "si_track_index r = si_track_index s" "si_pid r = si_pid s" "pes_buf (si_pes r) = data"
    "pes_has_timestamp (si_pes r)" "pes_pts (si_pes r) = p" "pes_dts (si_pes r) = t"
    "pes_adts (si_pes r) = pes_adts (snd (pes_flush find_iter s))" "pes_expected_payload_len (si_pes r) = Some (length data)"
    using True short by (auto simp: r_def received_def opened_def)
  have flush: "pes_flush find_iter r = ([unit_packet find_iter s key p t data], (pes_reset (si_pes r))\<lparr>pes_adts := st'\<rparr>)"
    using assms(2) f(1) by (simp add: pes_flush_def Let_def r unit)
  have "set_pes ((si_pes r)\<lparr>pes_buf := take (length data) (pes_buf (si_pes r))\<rparr>) r = r"
    by (simp add: set_pes_def r(4))
  then have "stream_flush_completed find_iter (r, out) = stream_flush find_iter (r, out)" by (simp add: r)
  then have s': "s' = set_pes ((pes_reset (si_pes r))\<lparr>pes_adts := st'\<rparr>) r" "out' = out @ [unit_packet find_iter s key p t data]"
    using assms(4) True flush by (simp_all add: r_def)
  show ?thesis
    using r f(2) True by (simp add: s' ready_def same_stream_def pes_flush_def pes_reset_def Let_def)
qed

end
