(* ===== verification/Ts_Psi.thy ===== *)
theory Ts_Psi
  imports Ts_Unit
begin

text \<open>
  The muxer's program tables as the demuxer reads them (\<open>write_pat\<close>, \<open>write_pmt\<close> and \<open>write_sdt\<close> of
  \<open>crates/restream-mpegts/src/mux.rs\<close>, \<open>parse_pat\<close>, \<open>parse_pmt\<close> and \<open>apply_pmt\<close> of \<open>demux.rs\<close>): the
  association names the program map, the map is put together from its packets and accepted, and its
  streams are the muxer's.
\<close>

unbundle bit_operations_syntax

subsection \<open>The association and the description\<close>

lemma low_nibble_less: "(cc :: u8) AND 0x0F < 16"
proof -
  have "cc AND 0x0F \<le> 0x0F" by (rule word_and_le1)
  then show ?thesis by (simp add: order_le_less_trans)
qed

text \<open>A packet without adaptation field, as the tables are written.\<close>

lemma table_carries:
  assumes "pid < 0x2000" and "length body \<le> 184"
  shows "carries (pad_ts ([TS_SYNC_BYTE, (if first then 0x40 else 0x00) OR pid_high pid, ucast pid, 0x10 OR (cc AND 0x0F)] @ body))
    pid first False (body @ replicate (184 - length body) 0xFF)"
  using carries_plain [OF assms(1) low_nibble_less [of cc], of "body @ replicate (184 - length body) 0xFF" first] assms(2)
  by (simp add: pad_ts_def TS_PACKET_SIZE_def)

lemma process_pat:
  assumes "mx_pmt_pid m = 0x1000"
  shows "process_ts_packet find_iter (snd (write_pat m)) d = d\<lparr>dx_pmt_pid := Some 0x1000\<rparr>"
    and "ts_packet (snd (write_pat m))"
proof -
  define pat :: bytes where "pat = [0x00, 0xB0, 13, 0x00, 0x01, 0xC1, 0x00, 0x00, 0x00, 0x01, 0xF0, 0x00]"
  define tail where "tail = crc_bytes (crc32_mpeg2 pat) @ replicate 167 (0xFF :: u8)"
  have hi: "0xE0 OR pid_high 0x1000 = 0xF0" "ucast (0x1000 :: u16) = (0x00 :: u8)" "pid_high 0 = 0" by (simp_all add: pid_high_def)
  have zero: "(4096 :: u8) = 0" by simp
  have "snd (write_pat m) = pad_ts ([TS_SYNC_BYTE, (if True then 0x40 else 0x00) OR pid_high 0, ucast (0 :: u16), 0x10 OR (mx_pat_cc m AND 0x0F)]
      @ (0x00 # pat @ crc_bytes (crc32_mpeg2 pat)))"
    by (simp add: write_pat_def Let_def assms hi pat_def zero)
  then have c: "carries (snd (write_pat m)) 0 True False (0x00 # pat @ tail)"
    using table_carries [of 0 "0x00 # pat @ crc_bytes (crc32_mpeg2 pat)" True "mx_pat_cc m"]
    by (simp add: pat_def tail_def crc_bytes_def)
  then show "ts_packet (snd (write_pat m))" by (simp add: carries_def)
  have "parse_pat (0x00 # pat @ tail) True d = d\<lparr>dx_pmt_pid := Some 0x1000\<rparr>"
    by (simp add: parse_pat_def section_after_pointer_def slice_from_def split_at_checked_def pat_def length_12_def be_fold_def
        slice_get_def tail_def crc_bytes_def pid_13_def)
  then show "process_ts_packet find_iter (snd (write_pat m)) d = d\<lparr>dx_pmt_pid := Some 0x1000\<rparr>"
    using c by (auto simp: carries_def process_ts_packet_def Let_def PAT_PID_def)
qed

lemma boundary_before_le: "boundary_before s n \<le> n"
  by (induction n) (auto intro: le_SucI)

lemma truncate_utf8_length: "length (truncate_utf8_bytes s n) \<le> n"
  using boundary_before_le [of s n] by (simp add: truncate_utf8_bytes_def)

lemma sdt_section:
  "\<exists>sdt. snd (write_sdt m) = pad_ts ([TS_SYNC_BYTE, 0x40 OR pid_high SDT_PID, ucast SDT_PID, 0x10 OR (mx_sdt_cc m AND 0x0F), 0x00]
     @ sdt @ crc_bytes (crc32_mpeg2 sdt)) \<and> length sdt \<le> 179"
proof -
  have bound: "length (truncate_utf8_bytes s 48) + length (truncate_utf8_bytes t 110) \<le> 158" for s t
    using truncate_utf8_length [of s 48] truncate_utf8_length [of t 110] by simp
  show ?thesis unfolding write_sdt_def Let_def snd_conv by (rule exI, rule conjI, rule refl) (use bound in simp)
qed

lemma process_sdt:
  assumes "dx_pmt_pid d = Some 0x1000" and "dx_pid_to_stream d 0x11 = NO_STREAM"
  shows "process_ts_packet find_iter (snd (write_sdt m)) d = d"
    and "ts_packet (snd (write_sdt m))"
proof -
  obtain sdt where sdt: "snd (write_sdt m) = pad_ts ([TS_SYNC_BYTE, 0x40 OR pid_high SDT_PID, ucast SDT_PID,
      0x10 OR (mx_sdt_cc m AND 0x0F), 0x00] @ sdt @ crc_bytes (crc32_mpeg2 sdt))" "length sdt \<le> 179"
    using sdt_section [of m] by blast
  define body where "body = 0x00 # sdt @ crc_bytes (crc32_mpeg2 sdt)"
  have body: "snd (write_sdt m) = pad_ts ([TS_SYNC_BYTE, (if True then 0x40 else 0x00) OR pid_high SDT_PID, ucast SDT_PID,
      0x10 OR (mx_sdt_cc m AND 0x0F)] @ body)" "length body \<le> 184" "body \<noteq> []"
    using sdt by (simp_all add: body_def crc_bytes_def)
  have c: "carries (snd (write_sdt m)) SDT_PID True False (body @ replicate (184 - length body) 0xFF)"
    unfolding body(1) by (rule table_carries) (use body(2) in \<open>simp_all add: SDT_PID_def\<close>)
  then show "ts_packet (snd (write_sdt m))" by (simp add: carries_def)
  show "process_ts_packet find_iter (snd (write_sdt m)) d = d"
    using c assms body(3) by (auto simp: carries_def process_ts_packet_def Let_def SDT_PID_def PAT_PID_def)
qed

subsection \<open>The program map in transport packets\<close>

inductive table_sends :: "u16 \<Rightarrow> bool \<Rightarrow> bytes \<Rightarrow> bytes list \<Rightarrow> bool" for pid where
  table_Nil: "table_sends pid first [] []"
| table_Cons: "carries p pid first False ((if first then [0x00] else []) @ piece @ pad) \<Longrightarrow> piece \<noteq> [] \<Longrightarrow>
    (rest \<noteq> [] \<longrightarrow> pad = [] \<and> 3 \<le> length piece) \<Longrightarrow> table_sends pid False rest ps \<Longrightarrow>
    table_sends pid first (piece @ rest) (p # ps)"

inductive_cases table_NilE: "table_sends pid first [] ps"

lemma pmt_loop_sends:
  assumes "pid < 0x2000"
  shows "\<exists>ps cc'. pmt_loop pid first sec cc out = (cc', out @ concat ps) \<and> table_sends pid first sec ps"
  using assms
proof (induction pid first sec cc out rule: pmt_loop.induct)
  case (1 pid first sec cc out)
  show ?case
  proof (cases "sec = []")
    case True
    then show ?thesis by (intro exI [of _ "[]"] exI [of _ cc]) (simp add: pmt_loop.simps [of pid first] table_Nil)
  next
    case False
    define header where "header = [TS_SYNC_BYTE, pid_high pid OR (if first then 0x40 else 0x00), ucast pid, 0x10 OR (cc AND 0x0F)]
      @ (if first then [0x00] else [])"
    define n where "n = min (TS_PACKET_SIZE - length header) (length sec)"
    define body where "body = (if first then [0x00] else []) @ take n sec"
    define pkt where "pkt = pad_ts (header @ take n sec)"
    have n: "0 < n" "n \<le> length sec" "length body \<le> 184" "n < length sec \<Longrightarrow> length body = 184 \<and> 3 \<le> n"
      using False by (auto simp: n_def header_def body_def TS_PACKET_SIZE_def)
    have "carries pkt pid first False (body @ replicate (184 - length body) 0xFF)"
      using table_carries [OF "1.prems" n(3), of first cc]
      by (simp add: pkt_def header_def body_def or.commute [of "pid_high pid"])
    moreover from "1.IH" [OF False header_def n_def "1.prems"]
    obtain ps cc' where IH: "pmt_loop pid False (drop n sec) (next_cc cc) (out @ pkt) = (cc', (out @ pkt) @ concat ps)"
        "table_sends pid False (drop n sec) ps"
      unfolding pkt_def by blast
    ultimately have "table_sends pid first (take n sec @ drop n sec) (pkt # ps)"
      using n by (intro table_Cons [of _ _ _ _ "replicate (184 - length body) 0xFF"]) (auto simp: body_def)
    moreover have "pmt_loop pid first sec cc out = (cc', out @ concat (pkt # ps))"
      using IH(1) False unfolding pmt_loop.simps [of pid first sec] Let_def by (simp add: n_def pkt_def header_def)
    ultimately show ?thesis unfolding append_take_drop_id by blast
  qed
qed

lemma collect_rest:
  assumes "table_sends pid False sec ps" and "sec \<noteq> []" and "pid \<noteq> PAT_PID" and "dx_pmt_pid d = Some pid"
    and "dx_pmt_expected d = length (dx_pmt_buf d) + length sec"
  shows "fold (process_ts_packet find_iter) ps d = complete_pmt (d\<lparr>dx_pmt_buf := dx_pmt_buf d @ sec\<rparr>)"
  using assms
proof (induction "False" sec ps arbitrary: d rule: table_sends.induct)
  case (table_Cons p piece pad rest ps)
  have step: "process_ts_packet find_iter p d = collect_pmt (piece @ pad) d"
    using table_Cons.hyps(1,2) table_Cons.prems
    by (auto simp: carries_def process_ts_packet_def Let_def parse_pmt_def)
  show ?case
  proof (cases "rest = []")
    case True
    then have "ps = []" using table_Cons.hyps(4) by (auto elim: table_NilE)
    with True table_Cons.prems show ?thesis by (simp add: step collect_pmt_def Let_def)
  next
    case False
    define e where "e = d\<lparr>dx_pmt_buf := dx_pmt_buf d @ piece\<rparr>"
    have "process_ts_packet find_iter p d = e"
      using False table_Cons.hyps(3) table_Cons.prems by (simp add: step collect_pmt_def Let_def e_def)
    moreover have "fold (process_ts_packet find_iter) ps e = complete_pmt (e\<lparr>dx_pmt_buf := dx_pmt_buf e @ rest\<rparr>)"
      by (rule table_Cons.hyps(5)) (use False table_Cons.prems in \<open>simp_all add: e_def\<close>)
    ultimately show ?thesis by (simp add: e_def)
  qed
qed simp

lemma collect_section:
  assumes "table_sends pid True sec ps" and "sec = 0x02 # h # l # body" and "pid \<noteq> PAT_PID" and "dx_pmt_pid d = Some pid"
    and "length_12 h l + 3 = length sec" and "13 \<le> length_12 h l" and "length_12 h l \<le> 1021"
  shows "fold (process_ts_packet find_iter) ps d =
    complete_pmt (d\<lparr>dx_pmt_expected := length sec, dx_pmt_buf := sec\<rparr>)"
proof -
  have "sec \<noteq> []" using assms(2) by simp
  obtain p ps' piece pad rest where ps: "ps = p # ps'" and c: "carries p pid True False (0x00 # piece @ pad)" "piece \<noteq> []"
    and s: "sec = piece @ rest" and long: "rest \<noteq> [] \<longrightarrow> pad = [] \<and> 3 \<le> length piece" and more: "table_sends pid False rest ps'"
    using assms(1) \<open>sec \<noteq> []\<close> by (cases rule: table_sends.cases) auto
  have "3 \<le> length piece" using long s assms(5,6) by (cases "rest = []") auto
  then obtain body' where piece: "piece = 0x02 # h # l # body'" using s assms(2)
    by (cases piece rule: remdups_adj.cases; cases "tl (tl piece)") auto
  define e where "e = (clear_pmt_buf d)\<lparr>dx_pmt_expected := length sec\<rparr>"
  have three: "Suc (Suc (Suc n)) = n + 3" for n by simp
  have step: "process_ts_packet find_iter p d = collect_pmt (piece @ pad) e"
    using c assms by (auto simp: carries_def process_ts_packet_def Let_def parse_pmt_def section_after_pointer_def slice_from_def
        split_at_checked_def piece e_def three)
  show ?thesis
  proof (cases "rest = []")
    case True
    then have "ps' = []" using more by (auto elim: table_NilE)
    with True s show ?thesis by (simp add: ps step collect_pmt_def Let_def e_def clear_pmt_buf_def)
  next
    case False
    have "collect_pmt (piece @ pad) e = e\<lparr>dx_pmt_buf := piece\<rparr>"
      using False long s by (simp add: collect_pmt_def Let_def e_def clear_pmt_buf_def)
    moreover have "fold (process_ts_packet find_iter) ps' (e\<lparr>dx_pmt_buf := piece\<rparr>) = complete_pmt ((e\<lparr>dx_pmt_buf := piece\<rparr>)\<lparr>dx_pmt_buf :=
        dx_pmt_buf (e\<lparr>dx_pmt_buf := piece\<rparr>) @ rest\<rparr>)"
      by (rule collect_rest [OF more False assms(3)]) (use assms(4) s in \<open>simp_all add: e_def clear_pmt_buf_def\<close>)
    ultimately show ?thesis using s by (simp add: ps step e_def clear_pmt_buf_def)
  qed
qed

subsection \<open>The section is accepted\<close>

lemma low_nibble: "n < 16 \<Longrightarrow> (of_nat n :: u8) AND 0x0F = of_nat n"
proof -
  assume "n < 16"
  then have "take_bit 4 (of_nat n :: u8) = of_nat n"
    by (simp add: of_nat_take_bit [symmetric] take_bit_nat_eq_self)
  then show ?thesis by (simp add: take_bit_eq_mask mask_eq_exp_minus_1)
qed

lemma length_12_field:
  assumes "n < 4096" and "b AND 0x0F = 0"
  shows "length_12 (b OR (of_nat (n div 256) AND 0x0F)) (of_nat n) = n"
proof -
  have "n div 256 < 16" using assms(1) by simp
  then have "(b OR (of_nat (n div 256) AND 0x0F)) AND 0x0F = of_nat (n div 256)"
    using assms(2) low_nibble [of "n div 256"] by (simp add: bit.conj_disj_distrib2)
  then show ?thesis using assms(1) by (simp add: length_12_def be_fold_foldl)
qed

lemma stream_descriptors_cases:
  obtains "stream_descriptors s = []" | a b c where "stream_descriptors s = [0x0A, 0x04, a, b, c, 0x00]"
proof (cases "stream_descriptors s = []")
  case False
  then obtain code where "stream_descriptors s = [0x0A, 0x04] @ code @ [0x00]" "length code = 3"
    by (auto simp: stream_descriptors_def iso639_language_descriptor_def Let_def split: media_type.splits option.splits if_splits)
  then show ?thesis using that(2) by (auto simp: length_Suc_conv numeral_eq_Suc)
qed (use that(1) in blast)

lemma stream_descriptors_valid: "descriptors_are_valid (stream_descriptors s)" "length (stream_descriptors s) \<le> 6"
  by (cases s rule: stream_descriptors_cases; simp)+

lemma pmt_entry_fields:
  obtains ih il where "pmt_entry s = [mc_stream_type s, 0xE0 OR pid_high (mc_pid s), ucast (mc_pid s), ih, il] @ stream_descriptors s"
    "length_12 ih il = length (stream_descriptors s)"
proof (rule that)
  show "pmt_entry s = [mc_stream_type s, 0xE0 OR pid_high (mc_pid s), ucast (mc_pid s),
      0xF0 OR (of_nat (length (stream_descriptors s) div 256) AND 0x0F), of_nat (length (stream_descriptors s))] @ stream_descriptors s"
    by (simp add: pmt_entry_def Let_def)
  show "length_12 (0xF0 OR (of_nat (length (stream_descriptors s) div 256) AND 0x0F)) (of_nat (length (stream_descriptors s))) =
      length (stream_descriptors s)"
    by (rule length_12_field) (use stream_descriptors_valid(2) [of s] in simp_all)
qed

lemma entries_valid: "entries_are_valid (concat (map pmt_entry ss))"
proof (induction ss)
  case (Cons s ss)
  obtain ih il where "pmt_entry s = [mc_stream_type s, 0xE0 OR pid_high (mc_pid s), ucast (mc_pid s), ih, il] @ stream_descriptors s"
    "length_12 ih il = length (stream_descriptors s)" by (rule pmt_entry_fields)
  then show ?case using Cons stream_descriptors_valid(1) [of s] by simp
qed simp

definition scan_stream :: "mux_stream_config \<Rightarrow> pmt_scan \<Rightarrow> pmt_scan" where
  "scan_stream s = scan_entry (mc_stream_type s) (mc_pid s) (stream_descriptors s)"

lemma scan_entries_streams:
  "list_all (\<lambda>s. mc_pid s < 0x2000) ss \<Longrightarrow> scan_entries (concat (map pmt_entry ss)) sc = fold scan_stream ss sc"
proof (induction ss arbitrary: sc)
  case (Cons s ss)
  obtain ih il where "pmt_entry s = [mc_stream_type s, 0xE0 OR pid_high (mc_pid s), ucast (mc_pid s), ih, il] @ stream_descriptors s"
    "length_12 ih il = length (stream_descriptors s)" by (rule pmt_entry_fields)
  then show ?case using Cons pid_13_fields [of "mc_pid s" "0xE0"] by (simp add: scan_stream_def)
qed simp

lemma length_pmt_section: "length (pmt_section m) = pmt_section_len m + 3"
proof -
  have "length (pmt_entry s) = 5 + length (stream_descriptors s)" for s by (simp add: pmt_entry_def Let_def)
  then show ?thesis by (simp add: pmt_section_def pmt_section_len_def Let_def crc_bytes_def length_concat comp_def)
qed

text \<open>What the demuxer compares between two maps.\<close>

definition pmt_layout :: "mux_stream_config list \<Rightarrow> bytes" where
  "pmt_layout cs = [0xF0, 0x00] @ concat (map pmt_entry cs)"

lemma pmt_section_parts:
  obtains h l ph pl where "pmt_section m = ([0x02, h, l, 0x00, 0x01, 0xC1, 0x00, 0x00, ph, pl] @ pmt_layout (mx_streams m)) @
      crc_bytes (crc32_mpeg2 ([0x02, h, l, 0x00, 0x01, 0xC1, 0x00, 0x00, ph, pl] @ pmt_layout (mx_streams m)))"
    "pmt_section_len m \<le> 1021 \<Longrightarrow> length_12 h l = pmt_section_len m"
proof (rule that)
  show "pmt_section m = ([0x02, 0xB0 OR (of_nat (pmt_section_len m div 256) AND 0x0F), of_nat (pmt_section_len m),
      0x00, 0x01, 0xC1, 0x00, 0x00, 0xE0 OR pid_high (mx_pcr_pid m), ucast (mx_pcr_pid m)] @ pmt_layout (mx_streams m)) @
      crc_bytes (crc32_mpeg2 ([0x02, 0xB0 OR (of_nat (pmt_section_len m div 256) AND 0x0F), of_nat (pmt_section_len m),
      0x00, 0x01, 0xC1, 0x00, 0x00, 0xE0 OR pid_high (mx_pcr_pid m), ucast (mx_pcr_pid m)] @ pmt_layout (mx_streams m)))"
    by (simp add: pmt_section_def Let_def pmt_layout_def)
  show "length_12 (0xB0 OR (of_nat (pmt_section_len m div 256) AND 0x0F)) (of_nat (pmt_section_len m)) = pmt_section_len m"
    if "pmt_section_len m \<le> 1021"
    by (rule length_12_field) (use that in simp_all)
qed

definition with_section :: "ts_muxer \<Rightarrow> ts_demuxer \<Rightarrow> ts_demuxer" where
  "with_section m d = d\<lparr>dx_pmt_expected := length (pmt_section m), dx_pmt_buf := pmt_section m\<rparr>"

lemma complete_section:
  "complete_pmt (with_section m d) =
     (let e = (with_section m d)\<lparr>dx_pmt_version := 0\<rparr>
      in if dx_pmt_layout d = pmt_layout (mx_streams m) then clear_pmt_buf e
         else apply_pmt (concat (map pmt_entry (mx_streams m))) (e\<lparr>dx_pmt_layout := pmt_layout (mx_streams m)\<rparr>))"
proof -
  obtain h l ph pl where sec: "pmt_section m = ([0x02, h, l, 0x00, 0x01, 0xC1, 0x00, 0x00, ph, pl] @ pmt_layout (mx_streams m)) @
      crc_bytes (crc32_mpeg2 ([0x02, h, l, 0x00, 0x01, 0xC1, 0x00, 0x00, ph, pl] @ pmt_layout (mx_streams m)))"
    by (rule pmt_section_parts [of m])
  define n where "n = length (pmt_section m) - 4"
  have n: "length (pmt_section m) = n + 4" "n = 10 + length (pmt_layout (mx_streams m))" "length (pmt_layout (mx_streams m)) = 2 + length (concat (map pmt_entry (mx_streams m)))"
    by (simp_all add: n_def sec crc_bytes_def pmt_layout_def)
  have slices: "slice_get 10 n (pmt_section m) = Some (pmt_layout (mx_streams m))"
    "slice_get 12 n (pmt_section m) = Some (concat (map pmt_entry (mx_streams m)))"
    "slice_get 10 12 (pmt_section m) = Some [0xF0, 0x00]"
    "slice_get 12 12 (pmt_section m) = Some []"
    "slice_get 6 8 (pmt_section m) = Some [0, 0]" "list_get (pmt_section m) 5 = Some 0xC1"
    using n by (simp_all add: slice_get_def list_get_def sec) (simp_all add: pmt_layout_def)
  have crc: "crc32_mpeg2 (pmt_section m) = 0" unfolding sec by (rule crc_residue)
  have bounds: "pmt_stream_loop_bounds (pmt_section m) (length (pmt_section m)) = Some (12, n)"
    using slices(2-4) n entries_valid [of "mx_streams m"]
    by (simp add: pmt_stream_loop_bounds_def checked_sub_def length_12_def be_fold_def)
  show ?thesis using slices crc bounds by (simp add: complete_pmt_def with_section_def Let_def)
qed

lemma table_sends_packets: "table_sends pid first sec ps \<Longrightarrow> list_all ts_packet ps"
  by (induction rule: table_sends.induct) (auto simp: carries_def)

lemma process_pmt:
  assumes "mx_pmt_pid m = 0x1000" and "pmt_section_len m \<le> 1021" and "dx_pmt_pid d = Some 0x1000"
  shows "\<exists>ps. snd (write_pmt m) = concat ps \<and> list_all ts_packet ps \<and>
    fold (process_ts_packet find_iter) ps d = complete_pmt (with_section m d)"
proof -
  obtain ps cc where ps: "pmt_loop 0x1000 True (pmt_section m) (mx_pmt_cc m) [] = (cc, concat ps)"
    "table_sends 0x1000 True (pmt_section m) ps"
    using pmt_loop_sends [of "0x1000" True "pmt_section m" "mx_pmt_cc m" "[]"] by auto
  obtain h l ph pl where sec: "pmt_section m = ([0x02, h, l, 0x00, 0x01, 0xC1, 0x00, 0x00, ph, pl] @ pmt_layout (mx_streams m)) @
      crc_bytes (crc32_mpeg2 ([0x02, h, l, 0x00, 0x01, 0xC1, 0x00, 0x00, ph, pl] @ pmt_layout (mx_streams m)))"
    and len: "length_12 h l = pmt_section_len m"
    using assms(2) by (metis pmt_section_parts [of m])
  have "\<exists>body. pmt_section m = 0x02 # h # l # body" unfolding sec by simp
  then obtain body where "pmt_section m = 0x02 # h # l # body" by blast
  from collect_section [OF ps(2) this, of d find_iter]
  have "fold (process_ts_packet find_iter) ps d = complete_pmt (with_section m d)"
    using assms len by (simp add: length_pmt_section with_section_def PAT_PID_def pmt_section_len_def)
  then show ?thesis using ps table_sends_packets [OF ps(2)] assms by (auto simp: write_pmt_def)
qed

subsection \<open>The streams of the map\<close>

text \<open>
  The muxer's streams: consecutive PIDs, at most one video stream, and audio tracks numbered in
  order.
\<close>

fun tracks_from :: "bool \<Rightarrow> nat \<Rightarrow> nat \<Rightarrow> mux_stream_config list \<Rightarrow> bool" where
  "tracks_from video n k [] \<longleftrightarrow> True"
| "tracks_from video n k (s # ss) \<longleftrightarrow> mc_pid s = of_nat k \<and>
     (case mc_media_type s of
        Video \<Rightarrow> \<not> video \<and> mc_track_index s = 0 \<and> mc_stream_type s \<in> {STREAM_TYPE_H264, STREAM_TYPE_H265} \<and>
          tracks_from True n (Suc k) ss
      | Audio \<Rightarrow> mc_track_index s = n \<and> mc_stream_type s = STREAM_TYPE_AAC_ADTS \<and> tracks_from video (Suc n) (Suc k) ss)"

definition kind_of :: "mux_stream_config \<Rightarrow> stream_kind" where
  "kind_of s = case_option Kind_H264 id (from_stream_type (mc_stream_type s))"

definition demux_stream :: "mux_stream_config \<Rightarrow> stream_info" where
  "demux_stream s =
     \<lparr>si_pid = mc_pid s, si_kind = kind_of s, si_track_index = mc_track_index s,
      si_language = parse_stream_descriptors None (stream_descriptors s), si_title = None, si_continuity = CC_UNSET,
      si_pes = PesAccumulator_new\<rparr>"

lemma scan_add_fresh:
  assumes "ps_old sc = []" and "unat pid < PID_COUNT" and "length (ps_streams sc) \<le> 0xFFFF"
    and "sc' = scan_add_stream kind pid track language sc"
  shows "ps_old sc' = []"
    and "ps_streams sc' = ps_streams sc @ [\<lparr>si_pid = pid, si_kind = kind, si_track_index = track, si_language = language,
      si_title = None, si_continuity = CC_UNSET, si_pes = PesAccumulator_new\<rparr>]"
    and "ps_pid_to_stream sc' = (ps_pid_to_stream sc)(unat pid := length (ps_streams sc))"
    and "ps_has_video sc' = ps_has_video sc" and "ps_audio_track_counter sc' = ps_audio_track_counter sc"
  using assms(1-3) unfolding assms(4) by (simp_all add: scan_add_stream_def Let_def)

lemma stream_types:
  "from_stream_type STREAM_TYPE_H264 = Some Kind_H264" "from_stream_type STREAM_TYPE_H265 = Some Kind_H265"
  "from_stream_type STREAM_TYPE_AAC_ADTS = Some Kind_AacAdts"
  by (simp_all add: from_stream_type_def STREAM_TYPE_H264_def STREAM_TYPE_H265_def STREAM_TYPE_AAC_ADTS_def)

lemma scan_stream_fresh:
  assumes "tracks_from video n k (s # ss)" and "ps_old sc = []" and "ps_has_video sc = video" and "ps_audio_track_counter sc = n"
    and "n < u32_MAX" and "k < 0x2000" and "length (ps_streams sc) \<le> 0xFFFF"
  shows "ps_old (scan_stream s sc) = [] \<and> ps_streams (scan_stream s sc) = ps_streams sc @ [demux_stream s] \<and>
    ps_pid_to_stream (scan_stream s sc) = (ps_pid_to_stream sc)(k := length (ps_streams sc)) \<and>
    tracks_from (ps_has_video (scan_stream s sc)) (ps_audio_track_counter (scan_stream s sc)) (Suc k) ss \<and>
    ps_audio_track_counter (scan_stream s sc) \<le> Suc n"
proof -
  have pid: "mc_pid s = of_nat k" "unat (mc_pid s) = k" "unat (mc_pid s) < PID_COUNT"
    using assms(1,6) by (simp_all add: PID_COUNT_def unat_of_nat)
  show ?thesis
  proof (cases "mc_media_type s")
    case Video
    with assms(1) have s: "\<not> video" "mc_track_index s = 0" "tracks_from True n (Suc k) ss"
      "from_stream_type (mc_stream_type s) = Some (kind_of s)" "kind_media_type (kind_of s) = Video"
      by (auto simp: kind_of_def stream_types)
    define sc1 where "sc1 = (sc\<lparr>ps_video_track_count := saturating_add usize_MAX (ps_video_track_count sc) 1\<rparr>)\<lparr>ps_has_video := True\<rparr>"
    have "scan_stream s sc = scan_add_stream (kind_of s) (mc_pid s) 0 (parse_stream_descriptors None (stream_descriptors s)) sc1"
      using s assms(3) by (simp add: scan_stream_def scan_entry_def Let_def sc1_def)
    from scan_add_fresh [OF _ pid(3) _ this] show ?thesis
      using s assms pid(2) by (simp add: sc1_def demux_stream_def)
  next
    case Audio
    with assms(1) have s: "mc_track_index s = n" "tracks_from video (Suc n) (Suc k) ss"
      "from_stream_type (mc_stream_type s) = Some (kind_of s)" "kind_media_type (kind_of s) = Audio"
      by (auto simp: kind_of_def stream_types)
    define sc1 where "sc1 = sc\<lparr>ps_audio_track_counter := saturating_add u32_MAX n 1\<rparr>"
    have "scan_stream s sc = scan_add_stream (kind_of s) (mc_pid s) n (parse_stream_descriptors None (stream_descriptors s)) sc1"
      using s assms(4) by (simp add: scan_stream_def scan_entry_def Let_def sc1_def)
    from scan_add_fresh [OF _ pid(3) _ this] show ?thesis
      using s assms pid(2) by (simp add: sc1_def demux_stream_def saturating_add_def)
  qed
qed

lemma scan_streams:
  assumes "tracks_from video n k ss" and "ps_old sc = []" and "ps_has_video sc = video" and "ps_audio_track_counter sc = n"
    and "k + length ss \<le> 0x2000" and "n \<le> k" and "k = 0x100 + length (ps_streams sc)"
  shows "ps_old (fold scan_stream ss sc) = [] \<and> ps_streams (fold scan_stream ss sc) = ps_streams sc @ map demux_stream ss \<and>
    ps_pid_to_stream (fold scan_stream ss sc) =
      (\<lambda>j. if k \<le> j \<and> j < k + length ss then j - 0x100 else ps_pid_to_stream sc j)"
  using assms
proof (induction ss arbitrary: video n k sc)
  case (Cons s ss)
  have step: "ps_old (scan_stream s sc) = []" "ps_streams (scan_stream s sc) = ps_streams sc @ [demux_stream s]"
    "ps_pid_to_stream (scan_stream s sc) = (ps_pid_to_stream sc)(k := length (ps_streams sc))"
    "tracks_from (ps_has_video (scan_stream s sc)) (ps_audio_track_counter (scan_stream s sc)) (Suc k) ss"
    "ps_audio_track_counter (scan_stream s sc) \<le> Suc n"
    using scan_stream_fresh [OF Cons.prems(1-4)] Cons.prems(5-7) by (simp_all add: max_defs)
  from Cons.IH [OF step(4,1) refl refl] step(2,3,5) Cons.prems(5-7) show ?case by (auto simp: fun_eq_iff)
qed auto

lemma publish_probe_keeps:
  "dx_streams (publish_probe d) = dx_streams d" "dx_output (publish_probe d) = dx_output d"
  by (simp_all add: publish_probe_def split: prod.splits)

lemma install_fresh:
  assumes "ps_old sc = []" and "dx_output d = []"
  shows "dx_streams (install_scan sc d) = ps_streams sc" and "dx_output (install_scan sc d) = []"
    and "dx_pid_to_stream (install_scan sc d) = ps_pid_to_stream sc" and "dx_pmt_pid (install_scan sc d) = dx_pmt_pid d"
    and "dx_pmt_layout (install_scan sc d) = dx_pmt_layout d"
proof -
  have t: "dx_pid_to_stream (publish_probe d) = dx_pid_to_stream d" "dx_pmt_pid (publish_probe d) = dx_pmt_pid d"
    "dx_pmt_layout (publish_probe d) = dx_pmt_layout d" for d
    using tables_simps(3) [of d] by (simp_all add: tables_def)
  show "dx_streams (install_scan sc d) = ps_streams sc" "dx_output (install_scan sc d) = []"
    "dx_pid_to_stream (install_scan sc d) = ps_pid_to_stream sc" "dx_pmt_pid (install_scan sc d) = dx_pmt_pid d"
    "dx_pmt_layout (install_scan sc d) = dx_pmt_layout d"
    using assms by (simp_all add: install_scan_def Let_def discard_changed_def clear_pmt_buf_def publish_probe_keeps t)
qed

end
