(* ===== verification/Ts_Roundtrip.thy ===== *)
theory Ts_Roundtrip
  imports Ts_Psi
begin

text \<open>
  The MPEG-TS muxer against the demuxer (\<open>TsMuxer::mux_packet\<close> and \<open>TsDemuxer::feed\<close> of
  \<open>crates/restream-mpegts/src\<close>): what is muxed and fed, in any chunks, comes out again, stream by stream,
  with its payload, its times and its keyframe flag.
\<close>

subsection \<open>A session\<close>

text \<open>The muxer's output for a list of packets.\<close>

fun mux_all :: "media_packet list \<Rightarrow> ts_muxer \<Rightarrow> bytes" where
  "mux_all [] m = []"
| "mux_all (p # ps) m =
     (case mux_packet (media_type p) (track_index p) (pts p) (dts p) (is_keyframe p) (payload p) m of
        (out, m') \<Rightarrow> out @ mux_all ps m')"

definition of_stream :: "mux_stream_config \<Rightarrow> media_packet \<Rightarrow> bool" where
  "of_stream c p \<longleftrightarrow> media_type p = mc_media_type c \<and> track_index p = mc_track_index c"

text \<open>
  A packet the container can carry: it belongs to a stream and has a payload that fits, one frame for
  audio; its times are in the range of the 33-bit clock; and its keyframe flag is what its stream's codec
  derives from the flag and the payload.
\<close>

definition sendable :: "(bytes \<Rightarrow> nat list) \<Rightarrow> mux_stream_config list \<Rightarrow> media_packet \<Rightarrow> bool" where
  "sendable find_iter cs p \<longleftrightarrow>
     list_ex (\<lambda>c. of_stream c p) cs \<and>
     list_all (\<lambda>c. of_stream c p \<longrightarrow> is_keyframe p = pes_is_keyframe find_iter (kind_of c) (is_keyframe p) (payload p)) cs \<and>
     (media_type p = Audio \<longrightarrow> is_frame (payload p)) \<and> payload p \<noteq> [] \<and> length (payload p) \<le> MAX_PES_BUFFER \<and>
     format p = Raw \<and> 0 \<le> dts p \<and> dts p \<le> pts p \<and> 90 * pts p < 2 ^ 33"

text \<open>The demuxer's PID table for the muxer's streams.\<close>

definition pid_table :: "nat \<Rightarrow> nat \<Rightarrow> nat" where
  "pid_table n j = (if 0x100 \<le> j \<and> j < 0x100 + n then j - 0x100 else NO_STREAM)"

text \<open>Every stream has emitted, or owes on its next flush, exactly what was sent on it.\<close>

definition synced :: "(bytes \<Rightarrow> nat list) \<Rightarrow> mux_stream_config list \<Rightarrow> media_packet list \<Rightarrow> ts_demuxer \<Rightarrow> bool" where
  "synced find_iter cs sent d \<longleftrightarrow>
     dx_pmt_pid d = Some 0x1000 \<and> dx_pmt_layout d = pmt_layout cs \<and> dx_pid_to_stream d = pid_table (length cs) \<and>
     length (dx_streams d) = length cs \<and>
     (\<forall>i < length cs. ready (dx_streams d ! i) \<and> si_kind (dx_streams d ! i) = kind_of (cs ! i) \<and>
        si_track_index (dx_streams d ! i) = mc_track_index (cs ! i) \<and>
        filter (of_stream (cs ! i)) (dx_output d) @ fst (pes_flush find_iter (dx_streams d ! i)) =
          filter (of_stream (cs ! i)) sent) \<and>
     list_all (\<lambda>p. list_ex (\<lambda>c. of_stream c p) cs) (dx_output d)"

definition mux_ok :: "ts_muxer \<Rightarrow> bool" where
  "mux_ok m \<longleftrightarrow> mx_pmt_pid m = 0x1000 \<and> pmt_section_len m \<le> 1021 \<and> tracks_from False 0 0x100 (mx_streams m) \<and>
     length (mx_continuity m) = length (mx_streams m) \<and> list_all (\<lambda>cc. cc < 16) (mx_continuity m) \<and>
     length (mx_last_dts_90k m) = length (mx_streams m)"

subsection \<open>Tables\<close>

lemma few_streams: "pmt_section_len m \<le> 1021 \<Longrightarrow> length (mx_streams m) \<le> 201"
proof -
  have "5 * length ss \<le> sum_list (map (\<lambda>s. 5 + length (stream_descriptors s)) ss)" for ss by (induction ss) auto
  from this [of "mx_streams m"] show "pmt_section_len m \<le> 1021 \<Longrightarrow> length (mx_streams m) \<le> 201" by (simp add: pmt_section_len_def)
qed

lemma tracks_kind: "tracks_from v n k cs \<Longrightarrow> c \<in> set cs \<Longrightarrow> kind_media_type (kind_of c) = mc_media_type c \<and> kind_of c \<noteq> Kind_AacLatm"
  by (induction cs arbitrary: v n k) (auto simp: kind_of_def stream_types split: media_type.splits)

lemma tracks_pid: "tracks_from v n k cs \<Longrightarrow> i < length cs \<Longrightarrow> mc_pid (cs ! i) = of_nat (k + i)"
proof (induction cs arbitrary: v n k i)
  case (Cons c cs)
  then show ?case by (cases i) (auto split: media_type.splits)
qed simp

lemma stream_pid: "tracks_from v n 0x100 cs \<Longrightarrow> length cs \<le> 201 \<Longrightarrow> i < length cs \<Longrightarrow> unat (mc_pid (cs ! i)) = 0x100 + i"
  using tracks_pid [of v n "0x100" cs i] by (simp add: unat_of_nat del: of_nat_add)

lemma synced_accept:
  assumes "mux_ok m" and "synced find_iter (mx_streams m) sent d"
  shows "synced find_iter (mx_streams m) sent (complete_pmt (with_section m d))"
proof -
  have "complete_pmt (with_section m d) = clear_pmt_buf ((with_section m d)\<lparr>dx_pmt_version := 0\<rparr>)"
    using assms(2) by (simp add: complete_section synced_def Let_def)
  then show ?thesis using assms(2) by (simp add: synced_def clear_pmt_buf_def with_section_def)
qed

lemma synced_fresh:
  assumes "mux_ok m" and "dx_streams d = []" and "dx_output d = []" and "dx_pmt_layout d = []" and "dx_pmt_pid d = Some 0x1000"
  shows "synced find_iter (mx_streams m) [] (complete_pmt (with_section m d))"
proof -
  let ?cs = "mx_streams m"
  define e where "e = (with_section m d)\<lparr>dx_pmt_version := 0, dx_pmt_layout := pmt_layout ?cs\<rparr>"
  have tracks: "tracks_from False 0 0x100 ?cs" and few: "length ?cs \<le> 201"
    using assms(1) few_streams by (simp_all add: mux_ok_def)
  have pids: "list_all (\<lambda>s. mc_pid s < 0x2000) ?cs"
    using stream_pid [OF tracks few] few by (auto simp: list_all_length word_less_nat_alt)
  define sc where "sc = fold scan_stream ?cs (scan_start e)"
  have sc: "ps_old sc = []" "ps_streams sc = map demux_stream ?cs" "ps_pid_to_stream sc = pid_table (length ?cs)"
    using scan_streams [OF tracks, of "scan_start e"] few assms(2)
    by (auto simp: sc_def scan_start_def old_streams_def e_def with_section_def pid_table_def fun_eq_iff)
  have "complete_pmt (with_section m d) = install_scan sc e"
    using assms(4) by (simp add: complete_section Let_def e_def pmt_layout_def apply_pmt_def scan_entries_streams [OF pids] sc_def)
  moreover have "ready (demux_stream c) \<and> fst (pes_flush find_iter (demux_stream c)) = []" if "c \<in> set ?cs" for c
    using tracks_kind [OF tracks that]
    by (simp add: ready_def demux_stream_def pes_flush_def PesAccumulator_new_def AdtsFraming_default_def)
  ultimately show ?thesis
    using install_fresh [OF sc(1), of e] sc(2,3) assms(3,5)
    by (simp add: synced_def e_def with_section_def demux_stream_def)
qed

definition put_tables :: "int \<Rightarrow> ts_muxer \<Rightarrow> ts_muxer \<times> bytes" where
  "put_tables at m =
     (let (m, pat) = write_pat m;
          (m, pmt) = write_pmt m;
          (m, sdt) =
            (if provider_name (mx_service_metadata m) \<noteq> [] \<or> service_name (mx_service_metadata m) \<noteq> []
             then write_sdt m else (m, []))
      in (m\<lparr>mx_last_pat_pmt_dts := Some at\<rparr>, pat @ pmt @ sdt))"

definition link_state :: "ts_muxer \<Rightarrow> mux_stream_config list \<times> u8 list \<times> int list \<times> u16 \<times> u16" where
  "link_state m = (mx_streams m, mx_continuity m, mx_last_dts_90k m, mx_pmt_pid m, mx_pcr_pid m)"

lemma link_state_writes [simp]:
  "link_state (fst (write_pat m)) = link_state m" "link_state (fst (write_pmt m)) = link_state m"
  "link_state (fst (write_sdt m)) = link_state m"
  by (simp_all add: link_state_def write_pat_def write_pmt_def write_sdt_def Let_def split: prod.splits)

lemma put_tables_keeps: "link_state (fst (put_tables at m)) = link_state m" "mx_last_pat_pmt_dts (fst (put_tables at m)) = Some at"
proof -
  have keep: "link_state (m\<lparr>mx_last_pat_pmt_dts := x\<rparr>) = link_state m" for m x by (simp add: link_state_def)
  have w: "write_pat m = (m', b) \<Longrightarrow> link_state m' = link_state m" "write_pmt m = (m', b) \<Longrightarrow> link_state m' = link_state m"
    "write_sdt m = (m', b) \<Longrightarrow> link_state m' = link_state m" for m m' b
    using link_state_writes [of m] by auto
  show "link_state (fst (put_tables at m)) = link_state m"
    by (auto simp: put_tables_def Let_def keep split: prod.splits dest!: w)
  show "mx_last_pat_pmt_dts (fst (put_tables at m)) = Some at"
    by (simp add: put_tables_def Let_def split: prod.splits)
qed

lemma mux_ok_link: "link_state m' = link_state m \<Longrightarrow> mux_ok m' \<longleftrightarrow> mux_ok m"
  by (simp add: link_state_def mux_ok_def pmt_section_len_def)

definition blank :: "ts_demuxer \<Rightarrow> bool" where
  "blank d \<longleftrightarrow> dx_streams d = [] \<and> dx_output d = [] \<and> dx_pmt_layout d = []"

lemma process_tables:
  assumes "mux_ok m" and "blank d \<and> sent = [] \<or> synced find_iter (mx_streams m) sent d"
  shows "\<exists>ps. snd (put_tables at m) = concat ps \<and> list_all ts_packet ps \<and>
    synced find_iter (mx_streams m) sent (fold (process_ts_packet find_iter) ps d)"
proof -
  obtain m1 pat where p1: "write_pat m = (m1, pat)" by (cases "write_pat m")
  obtain m2 pmt where p2: "write_pmt m1 = (m2, pmt)" by (cases "write_pmt m1")
  have link: "link_state m1 = link_state m" using link_state_writes(1) [of m] p1 by simp
  then have ok: "mux_ok m1" "mx_streams m1 = mx_streams m" using mux_ok_link [OF link] assms(1) by (simp_all add: link_state_def)
  define d1 where "d1 = d\<lparr>dx_pmt_pid := Some 0x1000\<rparr>"
  have pat: "process_ts_packet find_iter pat d = d1" "ts_packet pat"
    using process_pat(1) [of m find_iter d] process_pat(2) [of m] assms(1) p1 by (simp_all add: mux_ok_def d1_def)
  obtain ps where ps: "pmt = concat ps" "list_all ts_packet ps"
      "fold (process_ts_packet find_iter) ps d1 = complete_pmt (with_section m1 d1)"
    using process_pmt [of m1 d1 find_iter] ok(1) p2 by (auto simp: mux_ok_def d1_def)
  define d2 where "d2 = complete_pmt (with_section m1 d1)"
  have d2: "synced find_iter (mx_streams m) sent d2"
    using assms(2)
  proof
    assume "blank d \<and> sent = []"
    then show ?thesis using synced_fresh [OF ok(1), of d1 find_iter] by (simp add: blank_def d1_def d2_def ok(2))
  next
    assume s: "synced find_iter (mx_streams m) sent d"
    then have "synced find_iter (mx_streams m1) sent d1" by (simp add: synced_def d1_def ok(2))
    then show ?thesis using synced_accept [OF ok(1)] by (simp add: d2_def ok(2))
  qed
  then have "process_ts_packet find_iter (snd (write_sdt m2)) d2 = d2" "ts_packet (snd (write_sdt m2))"
    by (auto intro!: process_sdt simp: synced_def pid_table_def)
  then show ?thesis using pat ps d2
    by (intro exI [of _ "pat # ps @ (if provider_name (mx_service_metadata m2) \<noteq> [] \<or> service_name (mx_service_metadata m2) \<noteq> []
        then [snd (write_sdt m2)] else [])"])
      (auto simp: put_tables_def p1 p2 d2_def [symmetric] split: prod.splits)
qed

subsection \<open>Units\<close>

lemma ready_flush:
  "ready s \<Longrightarrow> p \<in> set (fst (pes_flush find_iter s)) \<Longrightarrow> media_type p = kind_media_type (si_kind s) \<and> track_index p = si_track_index s"
  by (auto simp: ready_def pes_flush_def Let_def pes_packet_def split: if_splits)

lemma tracks_above: "tracks_from v n k cs \<Longrightarrow> c \<in> set cs \<Longrightarrow>
    (case mc_media_type c of Video \<Rightarrow> \<not> v | Audio \<Rightarrow> n \<le> mc_track_index c)"
proof (induction cs arbitrary: v n k)
  case (Cons a cs)
  then show ?case by (cases "mc_media_type a"; cases "mc_media_type c") (fastforce dest: Suc_leD)+
qed simp

lemma tracks_distinct: "tracks_from v n k cs \<Longrightarrow> distinct (map (\<lambda>c. (mc_media_type c, mc_track_index c)) cs)"
proof (induction cs arbitrary: v n k)
  case (Cons a cs)
  then show ?case by (cases "mc_media_type a") (fastforce dest: tracks_above)+
qed simp

lemma of_stream_unique:
  "tracks_from v n k cs \<Longrightarrow> i < length cs \<Longrightarrow> j < length cs \<Longrightarrow> of_stream (cs ! i) p \<Longrightarrow> of_stream (cs ! j) p \<Longrightarrow> i = j"
  using tracks_distinct [of v n k cs] by (auto simp: of_stream_def distinct_conv_nth)

lemma sendable_unit:
  assumes "sendable find_iter cs u" and "c \<in> set cs" and "of_stream c u" and "kind_media_type (kind_of c) = mc_media_type c"
    and "si_kind s = kind_of c" and "si_track_index s = mc_track_index c"
  shows "unit_packet find_iter s (is_keyframe u) (90 * pts u) (90 * dts u) (payload u) = u"
proof -
  have "ts_to_ms (90 * x) = x" if "0 \<le> x" for x using that by (simp add: ts_to_ms_nonneg)
  then show ?thesis
    using assms by (cases u) (auto simp: unit_packet_def sendable_def of_stream_def list_all_iff)
qed

lemma synced_stream:
  assumes "synced find_iter cs sent d" and "i < length cs"
  obtains s where "dx_streams d ! i = s" "sees i (dx_streams d) (s, dx_output d) d" "ready s" "si_kind s = kind_of (cs ! i)"
    "si_track_index s = mc_track_index (cs ! i)"
    "filter (of_stream (cs ! i)) (dx_output d) @ fst (pes_flush find_iter s) = filter (of_stream (cs ! i)) sent"
  using assms that [OF refl] by (simp add: synced_def sees_def)

text \<open>A stream that emits, or owes, more of its packets keeps the link.\<close>

lemma synced_emit:
  assumes sync: "synced find_iter cs sent d" and tracks: "tracks_from v n k cs" and i: "i < length cs" and u: "list_all (of_stream (cs ! i)) us"
    and sees: "sees i (dx_streams d) (s', out') e" and same: "ready s'" "same_stream s' (dx_streams d ! i)"
    and out: "out' @ fst (pes_flush find_iter s') = dx_output d @ fst (pes_flush find_iter (dx_streams d ! i)) @ us"
    and tab: "tables e = tables d"
  shows "synced find_iter cs (sent @ us) e"
proof -
  obtain s where s: "dx_streams d ! i = s" "ready s" "si_kind s = kind_of (cs ! i)" "si_track_index s = mc_track_index (cs ! i)"
    and owed: "filter (of_stream (cs ! i)) (dx_output d) @ fst (pes_flush find_iter s) = filter (of_stream (cs ! i)) sent"
    using synced_stream [OF sync i] .
  have mt: "kind_media_type (kind_of (cs ! i)) = mc_media_type (cs ! i)" using tracks_kind [OF tracks] i by simp
  have own: "of_stream (cs ! i) p" if "p \<in> set (fst (pes_flush find_iter s)) \<union> set (fst (pes_flush find_iter s'))" for p
    using that ready_flush [OF s(2)] ready_flush [OF same(1)] same(2) s(1,3,4) mt by (auto simp: of_stream_def same_stream_def)
  have out1: "out' @ fst (pes_flush find_iter s') = dx_output d @ fst (pes_flush find_iter s) @ us" using out s(1) by simp
  have streams: "dx_streams e = (dx_streams d)[i := s']" "dx_output e = out'" using sees by (simp_all add: sees_def)
  have owes: "filter (of_stream (cs ! j)) out' @ fst (pes_flush find_iter ((dx_streams d)[i := s'] ! j)) =
      filter (of_stream (cs ! j)) (sent @ us)" if j: "j < length cs" for j
  proof (cases "j = i")
    case True
    have "filter (of_stream (cs ! i)) (out' @ fst (pes_flush find_iter s')) =
        filter (of_stream (cs ! i)) (dx_output d) @ fst (pes_flush find_iter s) @ us"
      unfolding out1 using own u by (simp add: filter_id_conv list_all_iff)
    moreover have "filter (of_stream (cs ! i)) (fst (pes_flush find_iter s')) = fst (pes_flush find_iter s')"
      using own by (simp add: filter_id_conv)
    ultimately show ?thesis using True owed u i sync by (simp add: synced_def filter_id_conv list_all_iff)
  next
    case False
    have none: "\<not> of_stream (cs ! j) p" if "of_stream (cs ! i) p" for p using of_stream_unique [OF tracks i j that] False by blast
    have "filter (of_stream (cs ! j)) (out' @ fst (pes_flush find_iter s')) = filter (of_stream (cs ! j)) (dx_output d)"
      unfolding out1 using own u none by (auto simp: filter_empty_conv list_all_iff)
    moreover have "filter (of_stream (cs ! j)) (fst (pes_flush find_iter s')) = []" using own none by (auto simp: filter_empty_conv)
    ultimately show ?thesis using False j sync u none by (auto simp: synced_def filter_empty_conv list_all_iff)
  qed
  have "set out' \<subseteq> set (dx_output d) \<union> set (fst (pes_flush find_iter s)) \<union> set us" using arg_cong [OF out1, of set] by auto
  then have "list_all (\<lambda>p. list_ex (\<lambda>c. of_stream c p) cs) out'"
    using sync own u i by (fastforce simp: synced_def list_all_iff list_ex_iff)
  moreover have "ready ((dx_streams d)[i := s'] ! j) \<and> si_kind ((dx_streams d)[i := s'] ! j) = kind_of (cs ! j) \<and>
      si_track_index ((dx_streams d)[i := s'] ! j) = mc_track_index (cs ! j)" if "j < length cs" for j
    using that sync same s by (cases "j = i") (simp_all add: synced_def same_stream_def)
  ultimately show ?thesis using sync tab owes streams by (simp add: synced_def tables_def)
qed

lemma process_unit:
  assumes sync: "synced find_iter cs sent d" and tracks: "tracks_from False 0 0x100 cs" and few: "length cs \<le> 201"
    and i: "i < length cs" and u: "of_stream (cs ! i) u" "sendable find_iter cs u"
    and sends: "sends (mc_pid (cs ! i)) (is_keyframe u) True
      (pes_header (media_type u) (90 * pts u) (90 * dts u) (length (payload u)) @ payload u) ps"
  shows "synced find_iter cs (sent @ [u]) (fold (process_ts_packet find_iter) ps d)"
proof -
  let ?d = "fold (process_ts_packet find_iter) ps d" and ?p = "90 * pts u" and ?t = "90 * dts u"
  obtain s where s: "dx_streams d ! i = s" "sees i (dx_streams d) (s, dx_output d) d" "ready s" "si_kind s = kind_of (cs ! i)"
    "si_track_index s = mc_track_index (cs ! i)"
    using synced_stream [OF sync i] .
  have mt: "kind_media_type (kind_of (cs ! i)) = mc_media_type (cs ! i)" "media_type u = kind_media_type (si_kind s)"
    using tracks_kind [OF tracks] i u(1) s(4) by (simp_all add: of_stream_def)
  have pid: "unat (mc_pid (cs ! i)) = 0x100 + i" by (rule stream_pid [OF tracks few i])
  then have "mc_pid (cs ! i) \<noteq> 0 \<and> mc_pid (cs ! i) \<noteq> 0x1000" using few i by (auto dest!: arg_cong [of _ _ unat])
  then have route: "routes d (mc_pid (cs ! i)) i"
    using sync i few pid by (simp add: routes_def synced_def pid_table_def PAT_PID_def PID_COUNT_def NO_STREAM_def)
  have len: "i < length (dx_streams d)" using sync i by (simp add: synced_def)
  have range: "0 \<le> ?t" "?t \<le> ?p" "?p < 2 ^ 33" "length (payload u) \<le> MAX_PES_BUFFER" "payload u \<noteq> []"
    using u(2) by (simp_all add: sendable_def)
  obtain c where got: "sees i (dx_streams d) (stream_flush_completed find_iter
      (with_cc c (received find_iter (media_type u) (is_keyframe u) ?p ?t (payload u) s), dx_output d @ fst (pes_flush find_iter s))) ?d"
    and tab: "tables ?d = tables d"
    using unit_sends [OF sends range(4,1-3) route len s(2), of find_iter] by blast
  obtain s' out' where v: "stream_flush_completed find_iter
      (with_cc c (received find_iter (media_type u) (is_keyframe u) ?p ?t (payload u) s), dx_output d @ fst (pes_flush find_iter s)) = (s', out')"
    by (cases "stream_flush_completed find_iter
      (with_cc c (received find_iter (media_type u) (is_keyframe u) ?p ?t (payload u) s), dx_output d @ fst (pes_flush find_iter s))")
  have "si_kind s = Kind_AacAdts \<Longrightarrow> is_frame (payload u)" using u(2) mt(2) by (simp add: sendable_def)
  from unit_delivered [OF s(3) range(5) this v [unfolded mt(2)]]
  have "ready s' \<and> same_stream s' s \<and> out' @ fst (pes_flush find_iter s') = (dx_output d @ fst (pes_flush find_iter s)) @ [u]"
    using sendable_unit [OF u(2) _ u(1) mt(1) s(4,5)] i by simp
  then show ?thesis
    using synced_emit [OF sync tracks i _ got [unfolded v], of "[u]"] u(1) tab by (simp add: s(1))
qed

subsection \<open>The muxer\<close>

lemma position_from_Some: "position_from P k xs = Some i \<Longrightarrow> \<exists>j < length xs. i = k + j \<and> P (xs ! j)"
proof (induction xs arbitrary: k)
  case (Cons x xs)
  show ?case
  proof (cases "P x")
    case False
    with Cons.prems Cons.IH [of "Suc k"] obtain j where "j < length xs" "i = Suc k + j" "P (xs ! j)" by auto
    then show ?thesis by (intro exI [of _ "Suc j"]) simp
  qed (use Cons.prems in auto)
qed simp

lemma position_from_ex: "list_ex P xs \<Longrightarrow> \<exists>i. position_from P k xs = Some i"
  by (induction xs arbitrary: k) auto

lemma stream_index_sendable:
  assumes "sendable find_iter (mx_streams m) u"
  obtains i where "stream_index m (media_type u) (track_index u) = Some i" "i < length (mx_streams m)" "of_stream (mx_streams m ! i) u"
proof -
  let ?P = "\<lambda>s. mc_media_type s = media_type u \<and> mc_track_index s = track_index u"
  have "list_ex ?P (mx_streams m)" using assms by (auto simp: sendable_def of_stream_def list_ex_iff)
  then obtain i where i: "position_from ?P 0 (mx_streams m) = Some i" using position_from_ex by blast
  from position_from_Some [OF i] show ?thesis using that [of i] i by (auto simp: stream_index_def of_stream_def)
qed

lemma packet_times_plain:
  assumes "prev < 90 * meta_dts_ms meta" and "0 \<le> meta_dts_ms meta" and "meta_dts_ms meta \<le> meta_pts_ms meta"
    and "90 * meta_pts_ms meta < 2 ^ 33"
  shows "packet_times (Some prev) meta = (90 * meta_pts_ms meta, 90 * meta_dts_ms meta)"
proof -
  have "ms_to_ts (meta_pts_ms meta) = 90 * meta_pts_ms meta" "ms_to_ts (meta_dts_ms meta) = 90 * meta_dts_ms meta"
    using assms(2-4) by (simp_all add: ms_to_ts_def wrap_i64_id max_defs)
  then show ?thesis using assms(1,3) by (simp add: packet_times_def)
qed

text \<open>One packet into an empty buffer, its times settled.\<close>

lemma mux_packet_at_plain:
  assumes "data \<noteq> []" and "packet_times (list_get (mx_last_dts_90k m) i) meta = (p, t)" and "packet_span_end_90k m i t data = t"
    and "m1 = m\<lparr>mx_last_dts_90k := (mx_last_dts_90k m)[i := t]\<rparr>"
    and "(m2, tabs) = (if (case mx_last_pat_pmt_dts m of None \<Rightarrow> True
        | Some at \<Rightarrow> meta_is_keyframe meta \<or> wrap_i64 \<bar>wrap_i64 (meta_dts_ms meta - at)\<bar> \<ge> 500)
      then put_tables (meta_dts_ms meta) m1 else (m1, []))"
    and "(cc, out) = pes_loop (mc_pid (mx_streams m ! i)) (mx_pcr_pid m2) (meta_is_keyframe meta) t
      (pes_header mt p t (length data)) data 0 True (mx_continuity m2 ! i) tabs"
  shows "mux_packet_at i mt meta data m [] = (m2\<lparr>mx_continuity := (mx_continuity m2)[i := cc]\<rparr>, out)"
  using assms(1,2,3,4) assms(5,6) [symmetric]
  by (auto simp: mux_packet_at_def Let_def put_tables_def split: prod.splits if_splits)

definition linked :: "(bytes \<Rightarrow> nat list) \<Rightarrow> ts_muxer \<Rightarrow> media_packet list \<Rightarrow> ts_demuxer \<Rightarrow> bool" where
  "linked find_iter m sent d \<longleftrightarrow> mux_ok m \<and>
     (mx_last_pat_pmt_dts m = None \<and> blank d \<and> sent = [] \<or> synced find_iter (mx_streams m) sent d)"

lemma sends_packets: "sends pid key first content ps \<Longrightarrow> list_all ts_packet ps"
  by (induction rule: sends.induct) (auto simp: carries_def)

lemma due_tables:
  assumes "linked find_iter m sent d" and "m1 = m\<lparr>mx_last_dts_90k := (mx_last_dts_90k m)[i := t]\<rparr>"
    and "(m2, tabs) = (if due then put_tables at m1 else (m1, []))" and "\<not> due \<Longrightarrow> mx_last_pat_pmt_dts m \<noteq> None"
  shows "\<exists>ts. tabs = concat ts \<and> list_all ts_packet ts \<and>
    synced find_iter (mx_streams m) sent (fold (process_ts_packet find_iter) ts d) \<and> link_state m2 = link_state m1"
proof (cases due)
  case True
  with assms(3) have put: "put_tables at m1 = (m2, tabs)" by simp
  have "mux_ok m1" using assms(1,2) by (simp add: linked_def mux_ok_def pmt_section_len_def)
  moreover have "blank d \<and> sent = [] \<or> synced find_iter (mx_streams m1) sent d" using assms(1,2) by (auto simp: linked_def)
  ultimately obtain ts where "snd (put_tables at m1) = concat ts" "list_all ts_packet ts"
    "synced find_iter (mx_streams m1) sent (fold (process_ts_packet find_iter) ts d)"
    using process_tables by blast
  then show ?thesis using put put_tables_keeps(1) [of at m1] assms(2) by auto
next
  case False
  then show ?thesis using assms by (intro exI [of _ "[]"]) (auto simp: linked_def)
qed

lemma mux_step:
  assumes link: "linked find_iter m sent d" and u: "sendable find_iter (mx_streams m) u"
    and last: "\<And>i. i < length (mx_streams m) \<Longrightarrow> of_stream (mx_streams m ! i) u \<Longrightarrow> mx_last_dts_90k m ! i < 90 * dts u"
    and mux: "mux_packet (media_type u) (track_index u) (pts u) (dts u) (is_keyframe u) (payload u) m = (out, m')"
  shows "\<exists>ps i. out = concat ps \<and> list_all ts_packet ps \<and> linked find_iter m' (sent @ [u]) (fold (process_ts_packet find_iter) ps d) \<and>
    mx_streams m' = mx_streams m \<and> i < length (mx_streams m) \<and> of_stream (mx_streams m ! i) u \<and>
    mx_last_dts_90k m' = (mx_last_dts_90k m)[i := 90 * dts u]"
proof -
  let ?meta = "\<lparr>meta_pts_ms = pts u, meta_dts_ms = dts u, meta_is_keyframe = is_keyframe u\<rparr>" and ?t = "90 * dts u"
  obtain i where i: "stream_index m (media_type u) (track_index u) = Some i" "i < length (mx_streams m)" "of_stream (mx_streams m ! i) u"
    using stream_index_sendable [OF u] .
  have ok: "mux_ok m" using link by (simp add: linked_def)
  have tracks: "tracks_from False 0 0x100 (mx_streams m)" and few: "length (mx_streams m) \<le> 201"
    using ok few_streams by (simp_all add: mux_ok_def)
  have times: "packet_times (list_get (mx_last_dts_90k m) i) ?meta = (90 * pts u, ?t)"
    using packet_times_plain [of "mx_last_dts_90k m ! i" ?meta] last [OF i(2,3)] u i(2) ok
    by (simp add: sendable_def mux_ok_def list_get_def)
  have span: "packet_span_end_90k m i ?t (payload u) = ?t"
    using single_frame_count [of "payload u"] u i(2,3)
    by (auto simp: packet_span_end_90k_def list_get_def sendable_def of_stream_def Let_def)
  define m1 where "m1 = m\<lparr>mx_last_dts_90k := (mx_last_dts_90k m)[i := ?t]\<rparr>"
  define due where "due = (case mx_last_pat_pmt_dts m of None \<Rightarrow> True
    | Some at \<Rightarrow> meta_is_keyframe ?meta \<or> wrap_i64 \<bar>wrap_i64 (meta_dts_ms ?meta - at)\<bar> \<ge> 500)"
  obtain m2 tabs where m2: "(m2, tabs) = (if due then put_tables (meta_dts_ms ?meta) m1 else (m1, []))" by (metis surj_pair)
  have idle: "\<not> due \<Longrightarrow> mx_last_pat_pmt_dts m \<noteq> None" by (auto simp: due_def split: option.splits)
  obtain ts where ts: "tabs = concat ts" "list_all ts_packet ts"
    "synced find_iter (mx_streams m) sent (fold (process_ts_packet find_iter) ts d)" and link2: "link_state m2 = link_state m1"
    using due_tables [OF link m1_def m2 idle] by blast
  have ok2: "mux_ok m2" "mx_streams m2 = mx_streams m" "mx_last_dts_90k m2 = (mx_last_dts_90k m)[i := ?t]"
    using ok mux_ok_link [OF link2] link2 by (simp_all add: link_state_def m1_def mux_ok_def pmt_section_len_def)
  have pid: "mc_pid (mx_streams m ! i) < 0x2000" using stream_pid [OF tracks few i(2)] few i(2) by (simp add: word_less_nat_alt)
  have cc: "mx_continuity m2 ! i < 16" using ok2(1,2) i(2) by (simp add: mux_ok_def list_all_length)
  obtain ps cc' where ps: "pes_loop (mc_pid (mx_streams m ! i)) (mx_pcr_pid m2) (is_keyframe u) ?t
      (pes_header (media_type u) (90 * pts u) ?t (length (payload u))) (payload u) 0 True (mx_continuity m2 ! i) tabs = (cc', tabs @ concat ps)"
    and cc': "cc' < 16"
    and sends: "sends (mc_pid (mx_streams m ! i)) (is_keyframe u) True
      (pes_header (media_type u) (90 * pts u) ?t (length (payload u)) @ payload u) ps"
    using pes_loop_sends [OF pid cc, of "mx_pcr_pid m2" "is_keyframe u" ?t "pes_header (media_type u) (90 * pts u) ?t (length (payload u))"
        "payload u" 0 True tabs] by auto
  have "mux_packet_at i (media_type u) ?meta (payload u) m [] = (m2\<lparr>mx_continuity := (mx_continuity m2)[i := cc']\<rparr>, tabs @ concat ps)"
    using u by (intro mux_packet_at_plain [OF _ times span m1_def m2 [unfolded due_def]]) (simp_all add: sendable_def ps)
  then have out: "out = concat (ts @ ps)" "m' = m2\<lparr>mx_continuity := (mx_continuity m2)[i := cc'], mx_output := out\<rparr>"
    using mux i(1) ts(1) by (auto simp: mux_packet_def)
  have "mux_ok m'" using ok2(1,2) cc' i(2) by (auto simp: out(2) mux_ok_def pmt_section_len_def list_all_length nth_list_update)
  moreover have "synced find_iter (mx_streams m) (sent @ [u]) (fold (process_ts_packet find_iter) (ts @ ps) d)"
    using process_unit [OF ts(3) tracks few i(2,3) u sends] by simp
  ultimately show ?thesis
    using i ts(2) sends_packets [OF sends] ok2 out(1)
    by (intro exI [of _ "ts @ ps"] exI [of _ i]) (simp add: linked_def out(2))
qed

lemma mux_all_linked:
  assumes "linked find_iter m sent d" and "list_all (sendable find_iter (mx_streams m)) us"
    and "\<And>i. i < length (mx_streams m) \<Longrightarrow> sorted_wrt (<) (map dts (filter (of_stream (mx_streams m ! i)) us))"
    and "\<And>i u. i < length (mx_streams m) \<Longrightarrow> u \<in> set us \<Longrightarrow> of_stream (mx_streams m ! i) u \<Longrightarrow> mx_last_dts_90k m ! i < 90 * dts u"
  shows "\<exists>ps m'. mux_all us m = concat ps \<and> list_all ts_packet ps \<and> mx_streams m' = mx_streams m \<and>
    linked find_iter m' (sent @ us) (fold (process_ts_packet find_iter) ps d)"
  using assms
proof (induction us arbitrary: m sent d)
  case Nil
  then show ?case by (intro exI [of _ "[]"] exI [of _ m]) simp
next
  case (Cons u us)
  obtain out m1 where mux: "mux_packet (media_type u) (track_index u) (pts u) (dts u) (is_keyframe u) (payload u) m = (out, m1)"
    by (cases "mux_packet (media_type u) (track_index u) (pts u) (dts u) (is_keyframe u) (payload u) m")
  have "sendable find_iter (mx_streams m) u" using Cons.prems(2) by simp
  from mux_step [OF Cons.prems(1) this Cons.prems(4) mux] obtain ps i where ps: "out = concat ps" "list_all ts_packet ps"
      "linked find_iter m1 (sent @ [u]) (fold (process_ts_packet find_iter) ps d)" and keep: "mx_streams m1 = mx_streams m"
    and i: "i < length (mx_streams m)" "of_stream (mx_streams m ! i) u" "mx_last_dts_90k m1 = (mx_last_dts_90k m)[i := 90 * dts u]"
    by auto
  have len: "length (mx_last_dts_90k m) = length (mx_streams m)" using Cons.prems(1) by (simp add: linked_def mux_ok_def)
  have "mx_last_dts_90k m1 ! j < 90 * dts w" if "j < length (mx_streams m1)" "w \<in> set us" "of_stream (mx_streams m1 ! j) w" for j w
  proof (cases "j = i")
    case True
    then show ?thesis using Cons.prems(3) [of i] that i len keep by auto
  next
    case False
    then show ?thesis using Cons.prems(4) [of j w] that i(3) keep by simp
  qed
  moreover have "sorted_wrt (<) (map dts (filter (of_stream (mx_streams m1 ! j)) us))" if "j < length (mx_streams m1)" for j
    using Cons.prems(3) [of j] that keep by (auto split: if_splits)
  ultimately obtain qs m' where "mux_all us m1 = concat qs" "list_all ts_packet qs" "mx_streams m' = mx_streams m1"
    "linked find_iter m' ((sent @ [u]) @ us) (fold (process_ts_packet find_iter) qs (fold (process_ts_packet find_iter) ps d))"
    using Cons.IH [OF ps(3)] Cons.prems(2) keep by auto
  then show ?case using mux ps(1,2) keep by (intro exI [of _ "ps @ qs"] exI [of _ m']) simp
qed

subsection \<open>The end of the stream\<close>

lemma pes_flush_empty: "pes_buf (si_pes s) = [] \<Longrightarrow> pes_flush find_iter s = ([], pes_reset (si_pes s))"
  by (simp add: pes_flush_def Let_def)

lemma flush_synced:
  assumes sync: "synced find_iter cs sent d" and tracks: "tracks_from v n k cs" and i: "i < length cs"
  shows "synced find_iter cs sent (flush_pes find_iter i d)"
    and "\<exists>s. dx_streams (flush_pes find_iter i d) = (dx_streams d)[i := s] \<and> pes_buf (si_pes s) = []"
proof -
  obtain s where s: "dx_streams d ! i = s" "sees i (dx_streams d) (s, dx_output d) d" "ready s"
    using synced_stream [OF sync i] .
  let ?s = "set_pes (snd (pes_flush find_iter s)) s"
  have len: "i < length (dx_streams d)" using sync i by (simp add: synced_def)
  have sees: "sees i (dx_streams d) (?s, dx_output d @ fst (pes_flush find_iter s)) (flush_pes find_iter i d)"
    using flush_pes_sees [OF len s(2), of find_iter] by simp
  then show "\<exists>s. dx_streams (flush_pes find_iter i d) = (dx_streams d)[i := s] \<and> pes_buf (si_pes s) = []"
    by (intro exI [of _ ?s]) (simp add: sees_def)
  have "fst (pes_flush find_iter ?s) = []" by (simp add: pes_flush_empty)
  moreover have "ready ?s" using s(3) by (auto simp: ready_def pes_flush_empty pes_reset_def)
  ultimately show "synced find_iter cs sent (flush_pes find_iter i d)"
    using synced_emit [OF sync tracks i _ sees, of "[]"] by (simp add: same_stream_def s(1))
qed

lemma flush_all_synced:
  assumes "synced find_iter cs sent d" and "tracks_from v n k cs" and "j \<le> length cs"
  shows "synced find_iter cs sent (fold (flush_pes find_iter) [0..<j] d) \<and>
    (\<forall>i < j. pes_buf (si_pes (dx_streams (fold (flush_pes find_iter) [0..<j] d) ! i)) = [])"
  using assms(3)
proof (induction j)
  case (Suc j)
  let ?e = "fold (flush_pes find_iter) [0..<j] d"
  have e: "synced find_iter cs sent ?e" "\<And>i. i < j \<Longrightarrow> pes_buf (si_pes (dx_streams ?e ! i)) = []" "j < length cs" using Suc by auto
  from flush_synced [OF e(1) assms(2) e(3)] obtain s where "synced find_iter cs sent (flush_pes find_iter j ?e)"
    "dx_streams (flush_pes find_iter j ?e) = (dx_streams ?e)[j := s]" "pes_buf (si_pes s) = []" by blast
  moreover have "length (dx_streams ?e) = length cs" using e(1) by (simp add: synced_def)
  ultimately show ?case using e by (auto simp: less_Suc_eq)
qed (use assms(1) in simp)

lemma flush_delivers:
  assumes "synced find_iter cs sent d" and "tracks_from v n k cs"
  shows "\<And>i. i < length cs \<Longrightarrow> filter (of_stream (cs ! i)) (dx_output (ts_flush find_iter d)) = filter (of_stream (cs ! i)) sent"
    and "list_all (\<lambda>p. list_ex (\<lambda>c. of_stream c p) cs) (dx_output (ts_flush find_iter d))"
proof -
  let ?e = "fold (flush_pes find_iter) [0..<length cs] d"
  have len: "length (dx_streams d) = length cs" using assms(1) by (simp add: synced_def)
  have e: "synced find_iter cs sent ?e" "\<And>i. i < length cs \<Longrightarrow> pes_buf (si_pes (dx_streams ?e ! i)) = []"
    using flush_all_synced [OF assms, of "length cs"] by auto
  have "fst (pes_flush find_iter (dx_streams ?e ! i)) = []" if "i < length cs" for i
    using e(2) [OF that] by (simp add: pes_flush_empty)
  then show "\<And>i. i < length cs \<Longrightarrow> filter (of_stream (cs ! i)) (dx_output (ts_flush find_iter d)) = filter (of_stream (cs ! i)) sent"
    "list_all (\<lambda>p. list_ex (\<lambda>c. of_stream c p) cs) (dx_output (ts_flush find_iter d))"
    using e(1) by (simp_all add: synced_def ts_flush_def len)
qed

subsection \<open>Round trip\<close>

lemma audio_tracks:
  "map am_track_index as = [n..<n + length as] \<Longrightarrow> tracks_from v n k (audio_streams as (of_nat k))"
proof (induction as arbitrary: n k)
  case (Cons a as)
  have "am_track_index a = n" "map am_track_index as = [Suc n..<Suc n + length as]"
    using Cons.prems by (simp_all add: upt_conv_Cons del: upt_Suc)
  then show ?case using Cons.IH [of "Suc n" "Suc k"] by (simp add: add.commute del: upt_Suc)
qed simp

lemma new_mux_ok:
  assumes "map am_track_index audio = [0..<length audio]" and "m = new_with_metadata video audio metadata" and "pmt_section_len m \<le> 1021"
  shows "linked find_iter m [] TsDemuxer_new" and "mx_last_dts_90k m = replicate (length (mx_streams m)) i64_MIN"
proof -
  have "tracks_from v 0 k (audio_streams audio (of_nat k))" for v k using audio_tracks [of audio 0] assms(1) by simp
  from this [of False "0x100"] this [of True "0x101"] have "tracks_from False 0 0x100 (mx_streams m)"
    by (auto simp: assms(2) new_with_metadata_def Let_def video_stream_def split: option.splits)
  then show "linked find_iter m [] TsDemuxer_new"
    using assms(3) by (simp add: linked_def blank_def TsDemuxer_new_def mux_ok_def) (simp add: assms(2) new_with_metadata_def Let_def list_all_iff)
  show "mx_last_dts_90k m = replicate (length (mx_streams m)) i64_MIN" by (simp add: assms(2) new_with_metadata_def Let_def)
qed

definition on_track :: "media_type \<Rightarrow> nat \<Rightarrow> media_packet \<Rightarrow> bool" where
  "on_track mt track p \<longleftrightarrow> media_type p = mt \<and> track_index p = track"

lemma of_stream_on_track: "of_stream c = on_track (mc_media_type c) (mc_track_index c)"
  by (auto simp: of_stream_def on_track_def fun_eq_iff)

lemma linked_delivers:
  assumes "linked find_iter m us d" and "list_all (sendable find_iter (mx_streams m)) us"
  shows "filter (on_track mt track) (dx_output (ts_flush find_iter d)) = filter (on_track mt track) us"
proof (cases "synced find_iter (mx_streams m) us d")
  case True
  have tracks: "tracks_from False 0 0x100 (mx_streams m)" using assms(1) by (simp add: linked_def mux_ok_def)
  note out = flush_delivers [OF True tracks]
  show ?thesis
  proof (cases "\<exists>c \<in> set (mx_streams m). of_stream c = on_track mt track")
    case True
    then show ?thesis using out(1) by (metis in_set_conv_nth)
  next
    case False
    then have "\<not> list_ex (\<lambda>c. of_stream c p) (mx_streams m)" if "on_track mt track p" for p
      using that by (auto simp: list_ex_iff of_stream_on_track on_track_def)
    then have "filter (on_track mt track) (dx_output (ts_flush find_iter d)) = []" "filter (on_track mt track) us = []"
      using out(2) assms(2) by (auto simp: filter_empty_conv list_all_iff sendable_def)
    then show ?thesis by simp
  qed
next
  case False
  then show ?thesis using assms(1) by (simp add: linked_def blank_def ts_flush_def)
qed

text \<open>
  C2. Muxing and demuxing is the identity on every track: packets the container can carry, with
  increasing decode times on each track, are muxed by a new muxer, fed to a new demuxer in any chunks and
  flushed, and each track's packets come out again, all of them, in order, with payload, times and
  keyframe flag.
\<close>

theorem ts_roundtrip:
  assumes "map am_track_index audio = [0..<length audio]" and "m = new_with_metadata video audio metadata"
    and "pmt_section_len m \<le> 1021" and "list_all (sendable find_iter (mx_streams m)) us"
    and "\<forall>mt track. sorted_wrt (<) (map dts (filter (on_track mt track) us))"
    and "concat chunks = mux_all us m" and "finds_byte memchr"
  shows "filter (on_track mt track) (dx_output (ts_flush find_iter (fold (ts_feed memchr find_iter) chunks TsDemuxer_new))) =
    filter (on_track mt track) us"
proof -
  note new = new_mux_ok [OF assms(1-3)]
  have "mx_last_dts_90k m ! i < 90 * dts u" if "i < length (mx_streams m)" "u \<in> set us" for i u
    using that assms(4) by (auto simp: new(2) list_all_iff sendable_def max_defs dest!: bspec)
  from mux_all_linked [OF new(1) assms(4) _ this] obtain ps m' where ps: "mux_all us m = concat ps" "list_all ts_packet ps"
      and m': "mx_streams m' = mx_streams m" "linked find_iter m' us (fold (process_ts_packet find_iter) ps TsDemuxer_new)"
    using assms(5) by (auto simp: of_stream_on_track)
  have "fold (ts_feed memchr find_iter) chunks TsDemuxer_new = fold (process_ts_packet find_iter) ps TsDemuxer_new"
    using feeds_packets [OF ps(2)] assms(6,7) ps(1) by (simp add: TsDemuxer_new_def)
  then show ?thesis using linked_delivers [OF m'(2)] assms(4) m'(1) by simp
qed

theorem ts_roundtrip_witness:
  "let video = \<lparr>vm_codec = ''h264'', vm_width = 0, vm_height = 0, vm_fps = None, vm_bw = None, vm_pid = None, vm_language = None,
         vm_title = None, vm_profile = None, vm_level = None, vm_pixel_format = None\<rparr>;
       audio = \<lparr>am_codec = ''aac'', am_sample_rate = 44100, am_channels = 2, am_channel_layout = None, am_track_index = 0, am_pid = None,
         am_language = Some ''eng'', am_title = None, am_profile = None\<rparr>;
       v1 = \<lparr>media_type = Video, format = Raw, is_keyframe = True, track_index = 0, pts = 80, dts = 0, payload = [0, 0, 0, 1, 0x65, 0x88]\<rparr>;
       a1 = \<lparr>media_type = Audio, format = Raw, is_keyframe = False, track_index = 0, pts = 10, dts = 10, payload = sample_frame\<rparr>;
       v2 = \<lparr>media_type = Video, format = Raw, is_keyframe = False, track_index = 0, pts = 40, dts = 40, payload = [0, 0, 0, 1, 0x41, 0x9A]\<rparr>;
       bs = mux_all [v1, a1, v2] (TsMuxer_new (Some video) [audio]);
       out = dx_output (ts_flush (scan_start_codes 0) (fold (ts_feed first_byte (scan_start_codes 0)) [take 100 bs, drop 100 bs] TsDemuxer_new))
   in filter (on_track Video 0) out = [v1, v2] \<and> filter (on_track Audio 0) out = [a1]"
proof -
  define video :: video_meta where "video = \<lparr>vm_codec = ''h264'', vm_width = 0, vm_height = 0, vm_fps = None, vm_bw = None, vm_pid = None,
    vm_language = None, vm_title = None, vm_profile = None, vm_level = None, vm_pixel_format = None\<rparr>"
  define audio :: audio_meta where "audio = \<lparr>am_codec = ''aac'', am_sample_rate = 44100, am_channels = 2, am_channel_layout = None,
    am_track_index = 0, am_pid = None, am_language = Some ''eng'', am_title = None, am_profile = None\<rparr>"
  define v1 where "v1 = \<lparr>media_type = Video, format = Raw, is_keyframe = True, track_index = 0, pts = 80, dts = 0,
    payload = [0, 0, 0, 1, 0x65, 0x88]\<rparr>"
  define a1 where "a1 = \<lparr>media_type = Audio, format = Raw, is_keyframe = False, track_index = 0, pts = 10, dts = 10, payload = sample_frame\<rparr>"
  define v2 where "v2 = \<lparr>media_type = Video, format = Raw, is_keyframe = False, track_index = 0, pts = 40, dts = 40,
    payload = [0, 0, 0, 1, 0x41, 0x9A]\<rparr>"
  define m where "m = new_with_metadata (Some video) [audio] TsServiceMetadata_disabled"
  have streams: "mx_streams m = [video_stream video 0x100, \<lparr>mc_stream_type = STREAM_TYPE_AAC_ADTS, mc_pid = 0x101, mc_media_type = Audio,
      mc_track_index = 0, mc_sample_rate = 44100, mc_language = Some ''eng''\<rparr>]"
    by (simp add: m_def new_with_metadata_def audio_def Let_def)
  have "length (stream_descriptors a) + length (stream_descriptors b) \<le> 998" for a b
    using stream_descriptors_valid(2) [of a] stream_descriptors_valid(2) [of b] by simp
  then have len: "pmt_section_len m \<le> 1021" by (simp add: pmt_section_len_def streams)
  have keys: "\<not> h264_is_keyframe (scan_start_codes 0) (payload v2)" by (simp add: v2_def) code_simp
  have "is_frame sample_frame" "sample_frame \<noteq> []" using sample_frame_facts by (auto simp: is_frame_def)
  then have ok: "list_all (sendable (scan_start_codes 0) (mx_streams m)) [v1, a1, v2]"
    using keys by (simp add: streams sendable_def v1_def a1_def v2_def of_stream_def video_stream_def video_def pes_is_keyframe_def
        kind_of_def stream_types MAX_PES_BUFFER_def sample_frame_facts)
  have sorted: "\<forall>mt track. sorted_wrt (<) (map dts (filter (on_track mt track) [v1, a1, v2]))"
    by (simp add: on_track_def v1_def a1_def v2_def)
  note trip = ts_roundtrip [OF _ m_def len ok sorted _ finds_first_byte, of "[take 100 (mux_all [v1, a1, v2] m), drop 100 (mux_all [v1, a1, v2] m)]"]
  show ?thesis
    unfolding video_def [symmetric] audio_def [symmetric] v1_def [symmetric] a1_def [symmetric] v2_def [symmetric] Let_def TsMuxer_new_def m_def [symmetric]
    using trip [of Video 0] trip [of Audio 0] by (simp add: audio_def on_track_def v1_def a1_def v2_def)
qed

end
