(* ===== verification/Spec2Isabelle.thy ===== *)
theory Spec2Isabelle
  imports Ring_System Ring_Stats Standby_Gop H264_Sps Avcc Aac Hevc Fmp4_Demux Byte_Queue Ts_Roundtrip
begin

text \<open>
  A verification development for the media path of \<^bold>\<open>restream\<close>, a live-stream router written in
  Rust: publishers send RTMP, SRT (MPEG-TS) or fMP4, the engine fans the packets out through a ring
  buffer and egress, recording and preview readers package them again. All paths below are under
  \<open>src/\<close>.

  \<^medskip> \<^bold>\<open>The program's parts and the theories that model them.\<close>

  \<^item> \<open>Restream_Prelude\<close>: machine integers, slices, byte order, the error monads and the locales
    shared by the components (\<open>inductive_invariant\<close> and the reachability it is about,
    \<open>prefix_framing\<close>, \<open>framing_loop\<close>).
  \<^item> \<open>Media_Packet\<close>, \<open>Media_Meta\<close> (\<open>crates/restream-core/src/lib.rs\<close>, \<open>codec.rs\<close>, \<open>metadata.rs\<close>): the
    packet, the packed frame-unit word, codec kinds, track metadata and the encoder declaration.
  \<^item> \<open>Track_Configs\<close>, \<open>Ring_Buffer\<close>, \<open>Ring_Ops\<close>, \<open>Ring_Reader\<close>, \<open>Ring_System\<close>, \<open>Ring_Stats\<close>
    (\<open>crates/restream-sync/src/frame_units.rs\<close>, \<open>ring_buffer.rs\<close>, \<open>ring_buffer/\<close>, \<open>reader.rs\<close>,
    \<open>subscribers.rs\<close>): the ring is one record, each method one definition on it. \<open>Ring_Ops\<close> relates the
    slots to the history of publications, \<open>Ring_Reader\<close> gives the reader, \<open>Ring_System\<close> the
    interleavings of one producer and a reader as a step relation, \<open>Ring_Stats\<close> the statistics.
  \<^item> \<open>Standby_Gop\<close>, \<open>Byte_Queue\<close> (\<open>standby_gop.rs\<close>, \<open>byte_queue.rs\<close> of the same crate): the replay cache
    of an input that is not selected, and the bounded byte queue with its blocked writers as an
    inductive step relation.
  \<^item> \<open>Bit_Reader\<close>, \<open>H264_Sps\<close>, \<open>Annexb\<close>, \<open>Avcc\<close>, \<open>Aac\<close>, \<open>Hevc_Sps\<close>, \<open>Hevc\<close>
    (\<open>crates/restream-core/src/codec/\<close>): bit and Exp-Golomb reading, the parameter-set parsers,
    start-code and length framing, decoder configuration records, ADTS and enhanced RTMP.
  \<^item> \<open>Fmp4_Boxes\<close>, \<open>Fmp4_Sample\<close>, \<open>Fmp4_Demux\<close>
    (\<open>crates/restream-engine/src/ingest_publisher/fmp4.rs\<close> and \<open>fmp4/boxes.rs\<close>): the box walker with its
    limits, sample conversion and the paced demux of media segments.
  \<^item> \<open>Ts_Wire\<close>, \<open>Ts_Mux\<close>, \<open>Adts_Framing\<close>, \<open>Ts_Probe\<close>, \<open>Ts_Demux\<close>, \<open>Ts_Demux_Wf\<close>, \<open>Ts_Feed\<close>
    (\<open>crates/restream-mpegts/src/\<close>): the wire format with its checksum, the muxer, the AAC frame
    cutter, the stream probes and the demuxer. \<open>Ts_Pes\<close>, \<open>Ts_Link\<close>, \<open>Ts_Unit\<close>, \<open>Ts_Psi\<close> and
    \<open>Ts_Roundtrip\<close> compose the two: one stream of the demuxer on its own, the muxer's packets as the
    demuxer reads them, one media packet, the program tables, and whole sessions.

  \<^medskip> \<^bold>\<open>How state and code correspond.\<close> A struct is a record, an enum a datatype, a method one definition
  that takes and returns the record. \<open>u8\<close>, \<open>u16\<close>, \<open>u32\<close> and \<open>u64\<close> fields whose width matters are words;
  \<open>usize\<close> and counters are naturals with the saturation of the source written out; \<open>i64\<close> times are
  integers with the saturating or wrapping addition of the source. Errors are values of sum or
  option types. Loops are recursive functions with termination proofs, without fuel; the one
  exception is the reader's \<open>pull\<close>, a partial function that is proved to return in every reachable
  state. The limits of the code (64 fragments and 16384 samples of an
  fMP4 segment, 256 conversions per step, 512 KiB of a PES packet, 1024 bytes of a program map, 8191
  bytes of an AAC frame) are constants of the model. Code outside the repository is an argument:
  \<open>find_iter\<close> (the substring search of \<open>memchr::memmem\<close>), \<open>memchr\<close>, the fMP4 parser, the clock; what
  the theorems need of it is a named hypothesis (\<open>finds_start_codes\<close>, \<open>finds_byte\<close>), with a concrete
  instance in the witnesses.

  \<^medskip> \<^bold>\<open>What the lemmas show.\<close>

  \<^item> Ring: a read by sequence answers exactly the published packet or reports that it is gone; a batch
    is its pushes; a grown ring continues the old one; a packet's configuration is the one in force
    when it was published; a reader never sees an interframe after a gap before the next keyframe,
    loses nothing while it keeps up, and a burst is a sequence of pulls.
  \<^item> Queue and cache: bytes leave in the order of the completed writes under every interleaving, no
    wakeup is lost; a standby input replays exactly its current group of pictures.
  \<^item> Codecs: every encoded parameter set is parsed to its fields; framing, configuration records,
    sequence headers and ADTS round trip; truncated framing is refused as a whole.
  \<^item> fMP4: accepted segments are within the limits; their packets come out in order however the
    segment arrives, one step does bounded work, and pending work ends.
  \<^item> MPEG-TS: the table-driven checksum is the bit-serial one; AAC frames come out whole however the
    stream is cut into PES packets; the demuxer stays well formed on arbitrary input; chunking does
    not matter on whole packets; what the muxer writes for a session, fed in any chunks, gives every
    track its packets back, with payload, times and keyframe flags.
  \<^item> Statistics: the sliding-window bitrate estimate is the maximum it describes.

  \<^medskip> \<^bold>\<open>Not modelled.\<close> Everything that is I/O or belongs to foreign runtimes: sockets, TLS, HTTP, SQLite,
  child processes, Tokio and io_uring scheduling (\<open>crates/restream-engine\<close> outside the fMP4 demux,
  \<open>crates/restream-rtmp\<close>, \<open>restream-srt\<close>, \<open>restream-moq\<close>, \<open>src/\<close>), the vendored protocol stacks, the
  planner, health, agent and MCP crates, the test harness, build tooling and the dashboard. Inside the
  modelled files: log output; memory orderings (an operation of the ring is one step, and
  \<open>Ring_System\<close> interleaves whole operations); floating-point quotients, kept as their two operands;
  parsing of an fMP4 init segment, which the external parser does.
\<close>

end
